(* ===== verification/Prelude.thy ===== *)
theory Prelude
  imports Main "HOL-Library.Word"
begin

text \<open>
  Shared vocabulary of the development: the outcome of a kernel function that may panic, the
  byte-addressed view of a disk block and of a C array, little-endian access to the integers that
  C structures keep in such an array, and the constants of \<^verbatim>\<open>param.h\<close> and \<^verbatim>\<open>fs.h\<close>.
  Unsigned \<^verbatim>\<open>uint\<close> values are natural numbers reduced by \<open>u32\<close> wherever the C expression can
  wrap, \<^verbatim>\<open>short\<close> values are integers reduced by \<open>s16\<close>, bytes are 8-bit words.
\<close>

unbundle bit_operations_syntax

named_theorems res_iff \<open>inversion of a sequence of calls that returned\<close>
named_theorems flag_simps \<open>bit tests on the flag words of buffers and inodes\<close>

section \<open>Outcomes\<close>

text \<open>
  \<open>Panic m\<close> is a call of \<^verbatim>\<open>panic(m)\<close>; \<open>Sleeps\<close> says that the caller has to wait for another
  process before the function can go on; \<open>Diverges\<close> that a traversal ran past the bound within
  which it has to end; \<open>OutOfBounds\<close> that the C code would index outside an array.
\<close>

datatype fault = Panic string | Sleeps | Diverges | OutOfBounds

type_synonym 'a res = "fault + 'a"

definition bnd :: "'a res \<Rightarrow> ('a \<Rightarrow> 'b res) \<Rightarrow> 'b res" where
  "bnd m f = (case m of Inl e \<Rightarrow> Inl e | Inr x \<Rightarrow> f x)"

definition check :: "bool \<Rightarrow> string \<Rightarrow> unit res" where
  "check ok m = (if ok then Inr () else Inl (Panic m))"

lemma bnd_simps [simp]:
  "bnd (Inr x) f = f x"
  "bnd (Inl e) f = Inl e"
  by (simp_all add: bnd_def)

lemma bnd_cong [fundef_cong]:
  assumes "m = m'" and "\<And>x. m' = Inr x \<Longrightarrow> f x = f' x"
  shows "bnd m f = bnd m' f'"
  using assms by (cases m') (simp_all add: bnd_def)

lemma bnd_Inr_iff [res_iff]: "bnd m f = Inr y \<longleftrightarrow> (\<exists>x. m = Inr x \<and> f x = Inr y)"
  by (cases m) simp_all

lemma bnd_Inl_iff: "bnd m f = Inl e \<longleftrightarrow> m = Inl e \<or> (\<exists>x. m = Inr x \<and> f x = Inl e)"
  by (cases m) simp_all

lemma bnd_assoc: "bnd (bnd m f) g = bnd m (\<lambda>x. bnd (f x) g)"
  by (cases m) simp_all

lemma check_Inr_iff [res_iff]: "check ok m = Inr u \<longleftrightarrow> ok"
  by (simp add: check_def)

lemma check_simps [simp]:
  "check True m = Inr ()"
  "check False m = Inl (Panic m)"
  by (simp_all add: check_def)

text \<open>A loop over the elements of a list that stops at the first fault.\<close>

fun rfold :: "('x \<Rightarrow> 's \<Rightarrow> 's res) \<Rightarrow> 'x list \<Rightarrow> 's \<Rightarrow> 's res" where
  "rfold f [] s = Inr s"
| "rfold f (x # xs) s = bnd (f x s) (rfold f xs)"

lemma rfold_append: "rfold f (xs @ ys) s = bnd (rfold f xs s) (rfold f ys)"
  by (induction xs arbitrary: s) (auto simp: bnd_def split: sum.split)

lemma rfold_snoc: "rfold f (xs @ [x]) s = bnd (rfold f xs s) (f x)"
proof -
  have "rfold f [x] t = f x t" for t by (cases "f x t") simp_all
  then show ?thesis by (cases "rfold f xs s") (simp_all add: rfold_append)
qed

section \<open>Machine integers\<close>

definition u32 :: "nat \<Rightarrow> nat" where
  "u32 n = n mod 2 ^ 32"

definition s16 :: "int \<Rightarrow> int" where
  "s16 i = (i + 2 ^ 15) mod 2 ^ 16 - 2 ^ 15"

definition s32 :: "int \<Rightarrow> int" where
  "s32 i = (i + 2 ^ 31) mod 2 ^ 32 - 2 ^ 31"

lemma u32_less [simp]: "u32 n < 4294967296"
  by (simp add: u32_def)

lemma u32_id: "n < 4294967296 \<Longrightarrow> u32 n = n"
  by (simp add: u32_def)

lemma s16_id: "- 32768 \<le> i \<Longrightarrow> i < 32768 \<Longrightarrow> s16 i = i"
  by (simp add: s16_def)

lemma s32_id: "- 2147483648 \<le> i \<Longrightarrow> i < 2147483648 \<Longrightarrow> s32 i = i"
  by (simp add: s32_def)

lemma s16_range: "- 32768 \<le> s16 i \<and> s16 i < 32768"
proof -
  have "0 \<le> (i + 32768) mod 65536 \<and> (i + 32768) mod 65536 < 65536" by simp
  then show ?thesis unfolding s16_def by simp
qed

lemma s32_range: "- 2147483648 \<le> s32 i \<and> s32 i < 2147483648"
proof -
  have "0 \<le> (i + 2147483648) mod 4294967296 \<and> (i + 2147483648) mod 4294967296 < 4294967296"
    by simp
  then show ?thesis unfolding s32_def by simp
qed

section \<open>Byte arrays\<close>

type_synonym byte = "8 word"

text \<open>A C array of bytes, by index: the \<^verbatim>\<open>data\<close> of a buffer, a block on the disk.\<close>

type_synonym block = "nat \<Rightarrow> byte"

definition zero_block :: block where
  "zero_block = (\<lambda>i. 0)"

text \<open>\<open>memcopy d o s p n\<close>: array \<open>d\<close> with its bytes from \<open>o\<close> on replaced by \<open>n\<close> bytes of \<open>s\<close> from \<open>p\<close> on.\<close>

definition memcopy :: "block \<Rightarrow> nat \<Rightarrow> block \<Rightarrow> nat \<Rightarrow> nat \<Rightarrow> block" where
  "memcopy d o1 s p n = (\<lambda>i. if o1 \<le> i \<and> i < o1 + n then s (p + (i - o1)) else d i)"

lemma memcopy_in: "o1 \<le> i \<Longrightarrow> i < o1 + n \<Longrightarrow> memcopy d o1 s p n i = s (p + (i - o1))"
  by (simp add: memcopy_def)

lemma memcopy_out: "i < o1 \<or> o1 + n \<le> i \<Longrightarrow> memcopy d o1 s p n i = d i"
  by (auto simp: memcopy_def)

definition memfill :: "block \<Rightarrow> nat \<Rightarrow> byte \<Rightarrow> nat \<Rightarrow> block" where
  "memfill d o1 c n = (\<lambda>i. if o1 \<le> i \<and> i < o1 + n then c else d i)"

text \<open>\<open>le_get k d o\<close> reads the \<open>k\<close>-byte little-endian unsigned integer stored at index \<open>o\<close>.\<close>

fun le_get :: "nat \<Rightarrow> block \<Rightarrow> nat \<Rightarrow> nat" where
  "le_get 0 d i = 0"
| "le_get (Suc k) d i = unat (d i) + 256 * le_get k d (Suc i)"

fun le_put :: "nat \<Rightarrow> nat \<Rightarrow> block \<Rightarrow> nat \<Rightarrow> block" where
  "le_put 0 v d i = d"
| "le_put (Suc k) v d i = (le_put k (v div 256) d (Suc i))(i := word_of_nat v)"

lemma le_put_out [simp]: "j < i \<or> i + k \<le> j \<Longrightarrow> le_put k v d i j = d j"
  by (induction k arbitrary: v i) auto

lemma le_get_cong: "(\<And>j. i \<le> j \<Longrightarrow> j < i + k \<Longrightarrow> d j = d' j) \<Longrightarrow> le_get k d i = le_get k d' i"
  by (induction k arbitrary: i) auto

lemma unat_byte_of_nat [simp]: "unat (word_of_nat v :: byte) = v mod 256"
  by (simp add: unat_of_nat)

lemma le_get_put: "le_get k (le_put k v d i) i = v mod 256 ^ k"
proof (induction k arbitrary: v i)
  case 0
  then show ?case by simp
next
  case (Suc k)
  have "le_get k ((le_put k (v div 256) d (Suc i))(i := word_of_nat v)) (Suc i)
      = le_get k (le_put k (v div 256) d (Suc i)) (Suc i)"
    by (rule le_get_cong) auto
  also have "\<dots> = v div 256 mod 256 ^ k" by (rule Suc.IH)
  finally have rest: "le_get k (le_put (Suc k) v d i) (Suc i) = v div 256 mod 256 ^ k"
    by (simp only: le_put.simps)
  have "le_get (Suc k) (le_put (Suc k) v d i) i = v mod 256 + 256 * (v div 256 mod 256 ^ k)"
    by (simp only: le_get.simps rest) simp
  then show ?case
    by (simp add: mod_mult2_eq [of v 256 "256 ^ k"] del: le_put.simps le_get.simps)
qed

lemma le_get_put_other:
  assumes "i + k \<le> j \<or> j + l \<le> i"
  shows "le_get l (le_put k v d i) j = le_get l d j"
  by (rule le_get_cong) (use assms in auto)

lemma le_put_upd: "j < i \<Longrightarrow> le_put k v (d(j := x)) i = (le_put k v d i)(j := x)"
  by (induction k arbitrary: v i) (simp_all add: fun_upd_twist)

lemma le_put_twice [simp]: "le_put k v (le_put k w d i) i = le_put k v d i"
  by (induction k arbitrary: v w i) (simp_all add: le_put_upd)

lemma le_get_less: "le_get k d i < 256 ^ k"
proof (induction k arbitrary: i)
  case 0
  then show ?case by simp
next
  case (Suc k)
  have "unat (d i) < 256" using unsigned_less [of "d i"] by simp
  moreover have "le_get k d (Suc i) + 1 \<le> 256 ^ k" using Suc.IH [of "Suc i"] by simp
  ultimately have "unat (d i) + 256 * le_get k d (Suc i) < 256 * (le_get k d (Suc i) + 1)"
    by simp
  also have "\<dots> \<le> 256 * 256 ^ k"
    using \<open>le_get k d (Suc i) + 1 \<le> 256 ^ k\<close> by simp
  finally show ?case by simp
qed

lemma le_get_zero [simp]: "le_get k zero_block i = 0"
  by (induction k arbitrary: i) (simp_all add: zero_block_def)

text \<open>Access to \<^verbatim>\<open>ushort\<close>, \<^verbatim>\<open>short\<close>, \<^verbatim>\<open>uint\<close> and \<^verbatim>\<open>int\<close> members.\<close>

definition get_u16 :: "block \<Rightarrow> nat \<Rightarrow> nat" where
  "get_u16 d i = le_get 2 d i"

definition put_u16 :: "nat \<Rightarrow> block \<Rightarrow> nat \<Rightarrow> block" where
  "put_u16 v d i = le_put 2 v d i"

definition get_u32 :: "block \<Rightarrow> nat \<Rightarrow> nat" where
  "get_u32 d i = le_get 4 d i"

definition put_u32 :: "nat \<Rightarrow> block \<Rightarrow> nat \<Rightarrow> block" where
  "put_u32 v d i = le_put 4 v d i"

definition get_s16 :: "block \<Rightarrow> nat \<Rightarrow> int" where
  "get_s16 d i = s16 (int (le_get 2 d i))"

definition put_s16 :: "int \<Rightarrow> block \<Rightarrow> nat \<Rightarrow> block" where
  "put_s16 v d i = le_put 2 (nat (v mod 2 ^ 16)) d i"

definition get_s32 :: "block \<Rightarrow> nat \<Rightarrow> int" where
  "get_s32 d i = s32 (int (le_get 4 d i))"

definition put_s32 :: "int \<Rightarrow> block \<Rightarrow> nat \<Rightarrow> block" where
  "put_s32 v d i = le_put 4 (nat (v mod 2 ^ 32)) d i"

lemmas field_defs = get_u16_def put_u16_def get_u32_def put_u32_def
  get_s16_def put_s16_def get_s32_def put_s32_def

lemma get_put_u16: "v < 65536 \<Longrightarrow> get_u16 (put_u16 v d i) i = v"
  by (simp add: field_defs le_get_put)

lemma get_put_u32: "v < 4294967296 \<Longrightarrow> get_u32 (put_u32 v d i) i = v"
  by (simp add: field_defs le_get_put)

lemma get_put_s16: "get_s16 (put_s16 v d i) i = s16 v"
  by (simp add: field_defs le_get_put s16_def mod_simps)

lemma get_put_s32: "get_s32 (put_s32 v d i) i = s32 v"
  by (simp add: field_defs le_get_put s32_def mod_simps)

lemma get_u16_less [simp]: "get_u16 d i < 65536"
  using le_get_less [of 2 d i] by (simp add: field_defs)

lemma get_u32_less [simp]: "get_u32 d i < 4294967296"
  using le_get_less [of 4 d i] by (simp add: field_defs)

section \<open>Constants\<close>

text \<open>From \<^verbatim>\<open>param.h\<close> and \<^verbatim>\<open>fs.h\<close>.\<close>

abbreviation (input) NPROC :: nat where "NPROC \<equiv> 64"
abbreviation (input) NOFILE :: nat where "NOFILE \<equiv> 16"
abbreviation (input) NFILE :: nat where "NFILE \<equiv> 100"
abbreviation (input) NINODE :: nat where "NINODE \<equiv> 50"
abbreviation (input) NDEV :: nat where "NDEV \<equiv> 10"
abbreviation (input) ROOTDEV :: nat where "ROOTDEV \<equiv> 1"
abbreviation (input) ROOTINO :: nat where "ROOTINO \<equiv> 1"
abbreviation (input) MAXARG :: nat where "MAXARG \<equiv> 32"
abbreviation (input) MAXOPBLOCKS :: nat where "MAXOPBLOCKS \<equiv> 10"
abbreviation (input) LOGSIZE :: nat where "LOGSIZE \<equiv> 30"
abbreviation (input) NBUF :: nat where "NBUF \<equiv> 30"
abbreviation (input) FSSIZE :: nat where "FSSIZE \<equiv> 1000"
abbreviation (input) BSIZE :: nat where "BSIZE \<equiv> 512"
abbreviation (input) NDIRECT :: nat where "NDIRECT \<equiv> 12"
abbreviation (input) NINDIRECT :: nat where "NINDIRECT \<equiv> 128"
abbreviation (input) MAXFILE :: nat where "MAXFILE \<equiv> 140"
abbreviation (input) IPB :: nat where "IPB \<equiv> 8"
abbreviation (input) BPB :: nat where "BPB \<equiv> 4096"
abbreviation (input) DIRSIZ :: nat where "DIRSIZ \<equiv> 14"

section \<open>Splitting lists\<close>

text \<open>The parts of a list between the elements with a property; there is one part more than such elements.\<close>

fun split_by :: "('a \<Rightarrow> bool) \<Rightarrow> 'a list \<Rightarrow> 'a list list" where
  "split_by P [] = [[]]"
| "split_by P (c # cs) = (if P c then [] # split_by P cs else (c # hd (split_by P cs)) # tl (split_by P cs))"

lemma split_by_ne [simp]: "split_by P cs \<noteq> []"
  by (cases cs) auto

lemma split_by_elem: "\<forall>c\<in>set e. \<not> P c \<Longrightarrow> P x \<Longrightarrow> split_by P (e @ x # rest) = e # split_by P rest"
  by (induction e) auto

lemma split_by_last: "\<forall>c\<in>set e. \<not> P c \<Longrightarrow> split_by P e = [e]"
  by (induction e) auto

lemma split_by_append: "split_by P (a @ b) = butlast (split_by P a) @ split_by P (last (split_by P a) @ b)"
proof (induction a)
  case (Cons c a)
  obtain h t where "split_by P a = h # t" by (meson neq_Nil_conv split_by_ne)
  then show ?case using Cons by (cases t) auto
qed simp

lemma split_by_set: "set (last (split_by P a)) \<subseteq> {c \<in> set a. \<not> P c}"
proof (induction a)
  case (Cons c a)
  obtain h t where "split_by P a = h # t" by (meson neq_Nil_conv split_by_ne)
  then show ?case using Cons by (cases t) auto
qed simp

lemma split_by_final: "P x \<Longrightarrow> \<forall>c\<in>set v. \<not> P c \<Longrightarrow> \<exists>f. f \<noteq> [] \<and> split_by P (w @ x # v) = f @ [v]"
proof (induction w)
  case Nil
  then show ?case by (intro exI [of _ "[[]]"]) (simp add: split_by_last)
next
  case (Cons c w)
  then obtain h t where "split_by P (w @ x # v) = (h # t) @ [v]" by (metis neq_Nil_conv)
  then show ?case by (intro exI [of _ "if P c then [] # h # t else (c # h) # t"]) simp
qed

lemma split_by_last_part:
  assumes "\<exists>c\<in>set b. P c"
  shows "length (last (split_by P (a @ b))) < length b"
proof -
  obtain u x v where b: "b = u @ x # v" "P x" "\<forall>c\<in>set v. \<not> P c" using assms by (rule split_list_last_propE) auto
  obtain f where "split_by P ((a @ u) @ x # v) = f @ [v]" using split_by_final [OF b(2,3)] by blast
  then show ?thesis by (simp add: b(1))
qed

end
