(* ===== verification/Locks.thy ===== *)
theory Locks
  imports Prelude
begin

text \<open>
  \<^verbatim>\<open>spinlock.c\<close> and \<^verbatim>\<open>sleeplock.c\<close>. First the per-CPU interrupt nesting of
  \<open>pushcli\<close> and \<open>popcli\<close> and the lock words as records with the functions of the source on
  them; then the execution of \<open>acquire\<close> and \<open>release\<close> by any number of CPUs on any number of
  locks as a step relation, one step per shared-memory access, with its invariant and mutual
  exclusion. The other theories treat a section between \<open>acquire\<close> and \<open>release\<close> of one lock as
  one step; this theory is why they may. The debugging fields \<^verbatim>\<open>name\<close> and \<^verbatim>\<open>pcs\<close> are left out.
\<close>

section \<open>Interrupt nesting\<close>

text \<open>
  The fields of \<^verbatim>\<open>struct cpu\<close> the lock code uses, with the interrupt-enable flag of the CPU's
  own flags register (\<^verbatim>\<open>readeflags()&FL_IF\<close>) beside them.
\<close>

record cpu =
  ncli :: int
  intena :: bool
  flag_IF :: bool

definition pushcli :: "cpu \<Rightarrow> cpu" where
  "pushcli c =
     (let eflags = flag_IF c;
          c = c\<lparr>flag_IF := False\<rparr>;
          c = (if ncli c = 0 then c\<lparr>intena := eflags\<rparr> else c)
      in c\<lparr>ncli := ncli c + 1\<rparr>)"

definition popcli :: "cpu \<Rightarrow> cpu res" where
  "popcli c =
     (if flag_IF c then Inl (Panic ''popcli - interruptible'')
      else let c = c\<lparr>ncli := ncli c - 1\<rparr> in
        if ncli c < 0 then Inl (Panic ''popcli'')
        else Inr (if ncli c = 0 \<and> intena c then c\<lparr>flag_IF := True\<rparr> else c))"

datatype cliop = Push | Pop

fun cli_run :: "cliop list \<Rightarrow> cpu \<Rightarrow> cpu res" where
  "cli_run [] c = Inr c"
| "cli_run (Push # os) c = cli_run os (pushcli c)"
| "cli_run (Pop # os) c = bnd (popcli c) (cli_run os)"

text \<open>\<open>nested n os\<close>: started at depth \<open>n\<close>, the calls of \<open>os\<close> never pop below the start and end there.\<close>

fun nested :: "nat \<Rightarrow> cliop list \<Rightarrow> bool" where
  "nested n [] = (n = 0)"
| "nested n (Push # os) = nested (Suc n) os"
| "nested 0 (Pop # os) = False"
| "nested (Suc n) (Pop # os) = nested n os"

text \<open>A CPU between two calls: the depth is not negative and interrupts are off at a positive one.\<close>

definition cpu_ok :: "cpu \<Rightarrow> bool" where
  "cpu_ok c \<longleftrightarrow> 0 \<le> ncli c \<and> (0 < ncli c \<longrightarrow> \<not> flag_IF c)"

lemma cpu_ok_pushcli: "cpu_ok c \<Longrightarrow> cpu_ok (pushcli c)"
  by (simp add: cpu_ok_def pushcli_def Let_def)

lemma pushcli_facts [simp]:
  "ncli (pushcli c) = ncli c + 1"
  "\<not> flag_IF (pushcli c)"
  by (simp_all add: pushcli_def Let_def)

lemma intena_pushcli: "intena (pushcli c) = (if ncli c = 0 then flag_IF c else intena c)"
  by (simp add: pushcli_def Let_def)

lemma popcli_pos:
  assumes "\<not> flag_IF c" and "0 < ncli c"
  shows "popcli c = Inr (c\<lparr>ncli := ncli c - 1, flag_IF := (ncli c = 1 \<and> intena c)\<rparr>)"
  using assms by (auto simp: popcli_def Let_def)

text \<open>The run of a nested sequence from inside a section entered at depth \<open>d\<close> with flag \<open>f\<close>.\<close>

lemma cli_run_inside:
  assumes "nested n os" and "0 \<le> d" and "ncli c = d + int n"
    and "n > 0 \<Longrightarrow> \<not> flag_IF c \<and> (d = 0 \<longrightarrow> intena c = f)"
    and "n = 0 \<Longrightarrow> flag_IF c = f" and "d = 0 \<or> \<not> f"
  shows "\<exists>c'. cli_run os c = Inr c' \<and> ncli c' = d \<and> flag_IF c' = f"
  using assms
proof (induction os arbitrary: n c)
  case Nil
  then show ?case by simp
next
  case (Cons a os)
  show ?case
  proof (cases a)
    case Push
    with Cons.prems have "nested (Suc n) os" by simp
    moreover have "ncli (pushcli c) = d + int (Suc n)" using Cons.prems by simp
    moreover have "\<not> flag_IF (pushcli c) \<and> (d = 0 \<longrightarrow> intena (pushcli c) = f)"
      using Cons.prems by (auto simp: intena_pushcli)
    ultimately show ?thesis
      using Cons.IH [of "Suc n" "pushcli c"] Cons.prems(2,6) Push by simp
  next
    case Pop
    with Cons.prems obtain m where n: "n = Suc m" and m: "nested m os" by (cases n) auto
    let ?c = "c\<lparr>ncli := ncli c - 1, flag_IF := (ncli c = 1 \<and> intena c)\<rparr>"
    have "popcli c = Inr ?c"
      using Cons.prems n by (intro popcli_pos) auto
    moreover have "\<exists>c'. cli_run os ?c = Inr c' \<and> ncli c' = d \<and> flag_IF c' = f"
      using Cons.prems n by (intro Cons.IH [OF m]) auto
    ultimately show ?thesis using Pop by simp
  qed
qed

lemma cli_run_nested:
  assumes "cpu_ok c" and "nested 0 os"
  shows "\<exists>c'. cli_run os c = Inr c' \<and> ncli c' = ncli c \<and> flag_IF c' = flag_IF c"
  using cli_run_inside [of 0 os "ncli c" c "flag_IF c"] assms by (auto simp: cpu_ok_def)

section \<open>Spin locks\<close>

record spinlock =
  lk_locked :: bool
  lk_cpu :: "nat option"

definition initlock :: spinlock where
  "initlock = \<lparr>lk_locked = False, lk_cpu = None\<rparr>"

definition holding :: "nat \<Rightarrow> spinlock \<Rightarrow> bool" where
  "holding i lk \<longleftrightarrow> lk_locked lk \<and> lk_cpu lk = Some i"

text \<open>
  Where a CPU is in \<open>acquire(l)\<close> or \<open>release(l)\<close>; each constructor names the next access it makes:
  in \<open>acquire\<close> the test of \<open>holding\<close> (after \<open>pushcli\<close>), the \<open>xchg\<close>, the store of \<^verbatim>\<open>lk->cpu\<close>;
  in \<open>release\<close> the store of \<^verbatim>\<open>lk->cpu\<close> (after the test of \<open>holding\<close>), the store of
  \<^verbatim>\<open>lk->locked\<close>, and \<open>popcli\<close>.
\<close>

datatype where_cpu =
    Outside
  | AcqHolding nat
  | AcqXchg nat
  | AcqCpu nat
  | RelCpu nat
  | RelLocked nat
  | RelPop
  | Panicked string

record smp =
  at :: "nat \<Rightarrow> where_cpu"
  cpus :: "nat \<Rightarrow> cpu"
  locks :: "nat \<Rightarrow> spinlock"
  inside :: "nat \<Rightarrow> nat set"

text \<open>
  \<open>inside m i\<close> is the set of locks whose \<open>acquire\<close> returned on CPU \<open>i\<close> and whose \<open>release\<close> it has
  not started: the critical sections CPU \<open>i\<close> is in.
\<close>

inductive smp_step :: "smp \<Rightarrow> smp \<Rightarrow> bool" where
  acquire_pushcli: "at m i = Outside \<Longrightarrow>
     smp_step m (m\<lparr>at := (at m)(i := AcqHolding l), cpus := (cpus m)(i := pushcli (cpus m i))\<rparr>)"
| acquire_holding: "at m i = AcqHolding l \<Longrightarrow>
     smp_step m (m\<lparr>at := (at m)(i := (if holding i (locks m l) then Panicked ''acquire''
                                     else AcqXchg l))\<rparr>)"
| acquire_spin: "at m i = AcqXchg l \<Longrightarrow> lk_locked (locks m l) \<Longrightarrow> smp_step m m"
| acquire_xchg: "at m i = AcqXchg l \<Longrightarrow> \<not> lk_locked (locks m l) \<Longrightarrow>
     smp_step m (m\<lparr>at := (at m)(i := AcqCpu l),
                   locks := (locks m)(l := (locks m l)\<lparr>lk_locked := True\<rparr>)\<rparr>)"
| acquire_cpu: "at m i = AcqCpu l \<Longrightarrow>
     smp_step m (m\<lparr>at := (at m)(i := Outside),
                   locks := (locks m)(l := (locks m l)\<lparr>lk_cpu := Some i\<rparr>),
                   inside := (inside m)(i := insert l (inside m i))\<rparr>)"
| release_holding: "at m i = Outside \<Longrightarrow>
     smp_step m (if holding i (locks m l)
       then m\<lparr>at := (at m)(i := RelCpu l), inside := (inside m)(i := inside m i - {l})\<rparr>
       else m\<lparr>at := (at m)(i := Panicked ''release'')\<rparr>)"
| release_cpu: "at m i = RelCpu l \<Longrightarrow>
     smp_step m (m\<lparr>at := (at m)(i := RelLocked l),
                   locks := (locks m)(l := (locks m l)\<lparr>lk_cpu := None\<rparr>)\<rparr>)"
| release_locked: "at m i = RelLocked l \<Longrightarrow>
     smp_step m (m\<lparr>at := (at m)(i := RelPop),
                   locks := (locks m)(l := (locks m l)\<lparr>lk_locked := False\<rparr>)\<rparr>)"
| release_popcli: "at m i = RelPop \<Longrightarrow>
     smp_step m (case popcli (cpus m i) of
         Inl (Panic e) \<Rightarrow> m\<lparr>at := (at m)(i := Panicked e)\<rparr>
       | Inl _ \<Rightarrow> m
       | Inr c \<Rightarrow> m\<lparr>at := (at m)(i := Outside), cpus := (cpus m)(i := c)\<rparr>)"

definition smp_init :: "(nat \<Rightarrow> bool) \<Rightarrow> smp" where
  "smp_init f = \<lparr>at = (\<lambda>i. Outside), cpus = (\<lambda>i. \<lparr>ncli = 0, intena = False, flag_IF = f i\<rparr>),
                 locks = (\<lambda>l. initlock), inside = (\<lambda>i. {})\<rparr>"

inductive smp_reach :: "smp \<Rightarrow> bool" where
  smp_start: "smp_reach (smp_init f)"
| smp_next: "smp_reach m \<Longrightarrow> smp_step m m' \<Longrightarrow> smp_reach m'"

text \<open>The CPU that has \<open>l\<close> set to locked, as far as its own position tells.\<close>

definition owns :: "smp \<Rightarrow> nat \<Rightarrow> nat \<Rightarrow> bool" where
  "owns m i l \<longleftrightarrow> l \<in> inside m i \<or> at m i \<in> {AcqCpu l, RelCpu l, RelLocked l}"

text \<open>The calls of \<open>pushcli\<close> that the position of CPU \<open>i\<close> still has to undo.\<close>

definition pending :: "where_cpu \<Rightarrow> int" where
  "pending w = (case w of Outside \<Rightarrow> 0 | Panicked e \<Rightarrow> 0 | _ \<Rightarrow> 1)"

definition lock_inv :: "smp \<Rightarrow> bool" where
  "lock_inv m \<longleftrightarrow>
     (\<forall>l. lk_locked (locks m l) \<longleftrightarrow> (\<exists>i. owns m i l)) \<and>
     (\<forall>l i j. owns m i l \<longrightarrow> owns m j l \<longrightarrow> i = j) \<and>
     (\<forall>l i. lk_cpu (locks m l) = Some i \<longleftrightarrow> l \<in> inside m i \<or> at m i = RelCpu l) \<and>
     (\<forall>l i. at m i \<in> {AcqCpu l, RelCpu l, RelLocked l} \<longrightarrow> l \<notin> inside m i)"

lemma lock_inv_init: "lock_inv (smp_init f)"
  by (simp add: lock_inv_def owns_def smp_init_def initlock_def)

text \<open>A step that leaves the owners as they are keeps the first two parts of the invariant.\<close>

lemma lock_inv_same_owners:
  assumes "lock_inv m" and "owns m' = owns m"
    and "\<And>l. lk_locked (locks m' l) = lk_locked (locks m l)"
    and "\<And>l i. lk_cpu (locks m' l) = Some i \<longleftrightarrow> l \<in> inside m' i \<or> at m' i = RelCpu l"
    and "\<And>l i. at m' i \<in> {AcqCpu l, RelCpu l, RelLocked l} \<Longrightarrow> l \<notin> inside m' i"
  shows "lock_inv m'"
  unfolding lock_inv_def assms(2,3) using assms(1,4,5) by (simp add: lock_inv_def)

lemma lock_inv_cpu: "lock_inv m \<Longrightarrow> lk_cpu (locks m l) = Some i \<longleftrightarrow> l \<in> inside m i \<or> at m i = RelCpu l"
  by (simp add: lock_inv_def)

lemma lock_inv_apart:
  "lock_inv m \<Longrightarrow> at m i = AcqCpu l \<or> at m i = RelCpu l \<or> at m i = RelLocked l \<Longrightarrow> l \<notin> inside m i"
  by (auto simp: lock_inv_def)

lemma lock_inv_unique: "lock_inv m \<Longrightarrow> owns m i l \<Longrightarrow> owns m j l \<Longrightarrow> i = j"
  by (simp add: lock_inv_def)

lemma lock_inv_locked: "lock_inv m \<Longrightarrow> lk_locked (locks m l) \<longleftrightarrow> (\<exists>i. owns m i l)"
  by (simp add: lock_inv_def)

lemma lock_inv_moved:
  assumes "lock_inv m" and "locks m' = locks m" and "inside m' = inside m"
    and "\<And>j. at m' j = at m j \<or> (\<forall>l. at m j \<notin> {AcqCpu l, RelCpu l, RelLocked l} \<and>
                                 at m' j \<notin> {AcqCpu l, RelCpu l, RelLocked l})"
  shows "lock_inv m'"
proof (rule lock_inv_same_owners [OF assms(1)])
  have e: "at m' j = w \<longleftrightarrow> at m j = w" if "w \<in> {AcqCpu l, RelCpu l, RelLocked l}" for j l w
    using assms(4) [of j] that by fastforce
  show "owns m' = owns m"
    by (simp add: fun_eq_iff owns_def assms(3) e)
  show "lk_cpu (locks m' l) = Some i \<longleftrightarrow> l \<in> inside m' i \<or> at m' i = RelCpu l" for l i
    using lock_inv_cpu [OF assms(1)] assms(2,3) by (simp add: e)
  show "l \<notin> inside m' i" if "at m' i \<in> {AcqCpu l, RelCpu l, RelLocked l}" for l i
    using lock_inv_apart [OF assms(1), of i l] that by (auto simp: e assms(3))
qed (simp add: assms(2))

lemma lock_inv_step: "smp_step m m' \<Longrightarrow> lock_inv m \<Longrightarrow> lock_inv m'"
proof (induction rule: smp_step.induct)
  case (acquire_pushcli m i l)
  then show ?case by (intro lock_inv_moved [OF acquire_pushcli(2)]) auto
next
  case (acquire_holding m i l)
  then show ?case by (intro lock_inv_moved [OF acquire_holding(2)]) auto
next
  case (acquire_spin m i l)
  then show ?case by simp
next
  case (acquire_xchg m i l)
  let ?m = "m\<lparr>at := (at m)(i := AcqCpu l), locks := (locks m)(l := (locks m l)\<lparr>lk_locked := True\<rparr>)\<rparr>"
  have free: "\<not> owns m j l" for j
    using acquire_xchg(2) lock_inv_locked [OF acquire_xchg(3), of l] by blast
  have owns': "owns ?m j k \<longleftrightarrow> owns m j k \<or> (j = i \<and> k = l)" for j k
    using acquire_xchg(1) by (auto simp: owns_def)
  have "lk_locked (locks ?m k) \<longleftrightarrow> (\<exists>j. owns ?m j k)" for k
    using lock_inv_locked [OF acquire_xchg(3), of k] by (auto simp: owns')
  moreover have "j = j'" if "owns ?m j k" "owns ?m j' k" for j j' k
    using that free lock_inv_unique [OF acquire_xchg(3)] by (auto simp: owns')
  moreover have "lk_cpu (locks ?m k) = Some j \<longleftrightarrow> k \<in> inside ?m j \<or> at ?m j = RelCpu k" for k j
    using lock_inv_cpu [OF acquire_xchg(3), of k j] acquire_xchg(1) by auto
  moreover have "k \<notin> inside ?m j" if "at ?m j \<in> {AcqCpu k, RelCpu k, RelLocked k}" for k j
    using that lock_inv_apart [OF acquire_xchg(3), of j k] free [of i] by (auto simp: owns_def split: if_splits)
  ultimately show ?case unfolding lock_inv_def by blast
next
  case (acquire_cpu m i l)
  have o: "owns m i l" using acquire_cpu(1) by (simp add: owns_def)
  have apart: "l \<notin> inside m j" "at m j \<noteq> RelCpu l" for j
    using lock_inv_apart [OF acquire_cpu(2), of i l] lock_inv_unique [OF acquire_cpu(2) o, of j]
      acquire_cpu(1) unfolding owns_def by auto
  show ?case
  proof (rule lock_inv_same_owners [OF acquire_cpu(2)], goal_cases)
    case 1
    show ?case using acquire_cpu(1) by (auto simp: fun_eq_iff owns_def)
  next
    case (3 k j)
    show ?case
    proof (cases "k = l")
      case True
      then show ?thesis using apart [of j] by simp
    next
      case False
      then show ?thesis using lock_inv_cpu [OF acquire_cpu(2), of k j] acquire_cpu(1) by simp
    qed
  next
    case (4 k j)
    then show ?case using lock_inv_apart [OF acquire_cpu(2), of j k] by (cases "j = i") auto
  qed simp
next
  case (release_holding m i l)
  show ?case
  proof (cases "holding i (locks m l)")
    case True
    then have l: "l \<in> inside m i"
      using lock_inv_cpu [OF release_holding(2), of l i] release_holding(1) by (auto simp: holding_def)
    have "lock_inv (m\<lparr>at := (at m)(i := RelCpu l), inside := (inside m)(i := inside m i - {l})\<rparr>)"
    proof (rule lock_inv_same_owners [OF release_holding(2)], goal_cases)
      case 1
      show ?case using release_holding(1) l by (auto simp: fun_eq_iff owns_def)
    next
      case (3 k j)
      show ?case using lock_inv_cpu [OF release_holding(2), of k j] release_holding(1) l by auto
    next
      case (4 k j)
      then show ?case
        using lock_inv_apart [OF release_holding(2), of j k] by (cases "j = i") auto
    qed simp
    with True show ?thesis by simp
  next
    case False
    have "lock_inv (m\<lparr>at := (at m)(i := Panicked ''release'')\<rparr>)"
      by (rule lock_inv_moved [OF release_holding(2)]) (use release_holding(1) in auto)
    with False show ?thesis by simp
  qed
next
  case (release_cpu m i l)
  have o: "owns m i l" using release_cpu(1) by (simp add: owns_def)
  have apart: "l \<notin> inside m j" "j \<noteq> i \<Longrightarrow> at m j \<noteq> RelCpu l" for j
    using lock_inv_apart [OF release_cpu(2), of i l] lock_inv_unique [OF release_cpu(2) o, of j]
      release_cpu(1) unfolding owns_def by auto
  show ?case
  proof (rule lock_inv_same_owners [OF release_cpu(2)], goal_cases)
    case 1
    show ?case using release_cpu(1) by (auto simp: fun_eq_iff owns_def)
  next
    case (3 k j)
    show ?case
    proof (cases "k = l")
      case True
      then show ?thesis using apart [of j] by simp
    next
      case False
      then show ?thesis using lock_inv_cpu [OF release_cpu(2), of k j] release_cpu(1) by simp
    qed
  next
    case (4 k j)
    then show ?case
      using lock_inv_apart [OF release_cpu(2), of j k] apart(1) [of i] by (cases "j = i") auto
  qed simp
next
  case (release_locked m i l)
  let ?m = "m\<lparr>at := (at m)(i := RelPop), locks := (locks m)(l := (locks m l)\<lparr>lk_locked := False\<rparr>)\<rparr>"
  have o: "owns m i l" using release_locked(1) by (simp add: owns_def)
  have only: "j = i" if "owns m j l" for j
    using lock_inv_unique [OF release_locked(2) o that] by simp
  have li: "l \<notin> inside m i" using lock_inv_apart [OF release_locked(2), of i l] release_locked(1) by simp
  have owns': "owns ?m j k \<longleftrightarrow> owns m j k \<and> k \<noteq> l" for j k
  proof (cases "j = i")
    case True
    then show ?thesis using release_locked(1) li by (auto simp: owns_def)
  next
    case False
    then have "owns ?m j k = owns m j k" by (simp add: owns_def)
    with False only show ?thesis by blast
  qed
  have "lk_locked (locks ?m k) \<longleftrightarrow> (\<exists>j. owns ?m j k)" for k
    using lock_inv_locked [OF release_locked(2), of k] by (auto simp: owns')
  moreover have "j = j'" if "owns ?m j k" "owns ?m j' k" for j j' k
    using that lock_inv_unique [OF release_locked(2)] by (auto simp: owns')
  moreover have "lk_cpu (locks ?m k) = Some j \<longleftrightarrow> k \<in> inside ?m j \<or> at ?m j = RelCpu k" for k j
    using lock_inv_cpu [OF release_locked(2), of k j] release_locked(1) by auto
  moreover have "k \<notin> inside ?m j" if "at ?m j \<in> {AcqCpu k, RelCpu k, RelLocked k}" for k j
    using that lock_inv_apart [OF release_locked(2), of j k] by (auto split: if_splits)
  ultimately show ?case unfolding lock_inv_def by blast
next
  case (release_popcli m i)
  have "lock_inv (m\<lparr>at := (at m)(i := w), cpus := c\<rparr>)" if "w = Outside \<or> w = Panicked e" for w e c
    by (rule lock_inv_moved [OF release_popcli(2)]) (use that release_popcli(1) in auto)
  from this [of "Panicked _" _ "cpus m"] this [of Outside] release_popcli(2) show ?case
    by (auto split: sum.split fault.split)
qed

lemma lock_inv_reach: "smp_reach m \<Longrightarrow> lock_inv m"
  by (induction rule: smp_reach.induct) (auto intro: lock_inv_init lock_inv_step)

text \<open>
  Interrupt nesting along the same executions: the depth of a CPU counts the sections it is in plus
  the one it is entering or leaving, and interrupts stay off until the count is back at zero.
\<close>

definition cli_inv :: "smp \<Rightarrow> bool" where
  "cli_inv m \<longleftrightarrow> (\<forall>i. finite (inside m i) \<and> ((\<nexists>e. at m i = Panicked e) \<longrightarrow>
     ncli (cpus m i) = int (card (inside m i)) + pending (at m i) \<and> cpu_ok (cpus m i)))"

lemma cli_inv_init: "cli_inv (smp_init f)"
  by (simp add: cli_inv_def smp_init_def pending_def cpu_ok_def)

lemma popcli_ok:
  assumes "cpu_ok c" and "0 < ncli c"
  shows "\<exists>c'. popcli c = Inr c' \<and> ncli c' = ncli c - 1 \<and> cpu_ok c'"
  using assms popcli_pos [of c] by (auto simp: cpu_ok_def)

lemma cli_inv_step: "smp_step m m' \<Longrightarrow> lock_inv m \<Longrightarrow> cli_inv m \<Longrightarrow> cli_inv m'"
proof (induction rule: smp_step.induct)
  case (acquire_pushcli m i l)
  then show ?case by (auto simp: cli_inv_def pending_def cpu_ok_pushcli)
next
  case (acquire_holding m i l)
  then show ?case by (auto simp: cli_inv_def pending_def)
next
  case (acquire_spin m i l)
  then show ?case by simp
next
  case (acquire_xchg m i l)
  then show ?case by (auto simp: cli_inv_def pending_def)
next
  case (acquire_cpu m i l)
  then have "l \<notin> inside m i" using lock_inv_apart [of m i l] by simp
  with acquire_cpu show ?case by (auto simp: cli_inv_def pending_def)
next
  case (release_holding m i l)
  show ?case
  proof (cases "holding i (locks m l)")
    case True
    then have l: "l \<in> inside m i"
      using lock_inv_cpu [OF release_holding(2), of l i] release_holding(1) by (auto simp: holding_def)
    have "finite (inside m i)" using release_holding(3) by (simp add: cli_inv_def)
    then have "int (card (inside m i - {l})) = int (card (inside m i)) - 1"
      using l card_gt_0_iff [of "inside m i"] by auto
    with True l release_holding show ?thesis by (auto simp: cli_inv_def pending_def)
  next
    case False
    with release_holding show ?thesis by (auto simp: cli_inv_def pending_def)
  qed
next
  case (release_cpu m i l)
  then show ?case by (auto simp: cli_inv_def pending_def)
next
  case (release_locked m i l)
  then show ?case by (auto simp: cli_inv_def pending_def)
next
  case (release_popcli m i)
  then have c: "cpu_ok (cpus m i)" "ncli (cpus m i) = int (card (inside m i)) + 1"
    by (auto simp: cli_inv_def pending_def)
  then obtain c' where "popcli (cpus m i) = Inr c'" "ncli c' = ncli (cpus m i) - 1" "cpu_ok c'"
    using popcli_ok [of "cpus m i"] by auto
  with release_popcli c show ?case by (auto simp: cli_inv_def pending_def)
qed

lemma cli_inv_reach: "smp_reach m \<Longrightarrow> cli_inv m"
  by (induction rule: smp_reach.induct) (auto intro: cli_inv_init cli_inv_step lock_inv_reach)

section \<open>Sleep locks\<close>

record sleeplock =
  sl_locked :: bool
  sl_pid :: int

definition initsleeplock :: sleeplock where
  "initsleeplock = \<lparr>sl_locked = False, sl_pid = 0\<rparr>"

text \<open>
  \<open>acquiresleep\<close> for the process with pid \<open>p\<close>: while the lock is taken the caller sleeps on it, so
  the call goes on only after another process ran.
\<close>

definition acquiresleep :: "int \<Rightarrow> sleeplock \<Rightarrow> sleeplock res" where
  "acquiresleep p lk = (if sl_locked lk then Inl Sleeps else Inr (lk\<lparr>sl_locked := True, sl_pid := p\<rparr>))"

definition releasesleep :: "sleeplock \<Rightarrow> sleeplock" where
  "releasesleep lk = lk\<lparr>sl_locked := False, sl_pid := 0\<rparr>"

definition holdingsleep :: "sleeplock \<Rightarrow> bool" where
  "holdingsleep lk = sl_locked lk"

text \<open>
  The processes at one sleep lock. A process in \<open>acquiresleep\<close> tests \<^verbatim>\<open>lk->locked\<close> and, under the
  same spin lock, either takes the lock or goes to sleep on it; \<open>releasesleep\<close> frees the lock and
  makes every sleeper runnable, to test again. \<open>kill\<close> can also wake a sleeper (rule \<open>spurious\<close>).
\<close>

datatype at_sleeplock = Away | Testing | Asleep | Holder

record sleeping =
  slk :: sleeplock
  sat :: "int \<Rightarrow> at_sleeplock"

inductive sleep_step :: "sleeping \<Rightarrow> sleeping \<Rightarrow> bool" where
  call: "sat z p = Away \<Longrightarrow> sleep_step z (z\<lparr>sat := (sat z)(p := Testing)\<rparr>)"
| take_lock: "sat z p = Testing \<Longrightarrow> acquiresleep p (slk z) = Inr lk \<Longrightarrow>
     sleep_step z (z\<lparr>slk := lk, sat := (sat z)(p := Holder)\<rparr>)"
| go_to_sleep: "sat z p = Testing \<Longrightarrow> acquiresleep p (slk z) = Inl Sleeps \<Longrightarrow>
     sleep_step z (z\<lparr>sat := (sat z)(p := Asleep)\<rparr>)"
| release: "sat z p = Holder \<Longrightarrow>
     sleep_step z (z\<lparr>slk := releasesleep (slk z),
       sat := (\<lambda>q. if q = p then Away else if sat z q = Asleep then Testing else sat z q)\<rparr>)"
| spurious: "sat z p = Asleep \<Longrightarrow> sleep_step z (z\<lparr>sat := (sat z)(p := Testing)\<rparr>)"

inductive sleep_reach :: "sleeping \<Rightarrow> bool" where
  sleep_start: "sleep_reach \<lparr>slk = initsleeplock, sat = (\<lambda>p. Away)\<rparr>"
| sleep_next: "sleep_reach z \<Longrightarrow> sleep_step z z' \<Longrightarrow> sleep_reach z'"

definition sleep_inv :: "sleeping \<Rightarrow> bool" where
  "sleep_inv z \<longleftrightarrow> (sl_locked (slk z) \<longrightarrow> sat z (sl_pid (slk z)) = Holder) \<and>
     (\<forall>p. sat z p = Holder \<longrightarrow> sl_locked (slk z) \<and> sl_pid (slk z) = p) \<and>
     (\<forall>p. sat z p = Asleep \<longrightarrow> sl_locked (slk z))"

lemma sleep_inv_holder: "sleep_inv z \<Longrightarrow> sat z p = Holder \<longleftrightarrow> sl_locked (slk z) \<and> sl_pid (slk z) = p"
  unfolding sleep_inv_def by blast

lemma sleep_inv_asleep: "sleep_inv z \<Longrightarrow> sat z p = Asleep \<Longrightarrow> sl_locked (slk z)"
  unfolding sleep_inv_def by blast

lemma sleep_invI:
  assumes "\<And>p. sat z p = Holder \<longleftrightarrow> sl_locked (slk z) \<and> sl_pid (slk z) = p"
    and "\<And>p. sat z p = Asleep \<Longrightarrow> sl_locked (slk z)"
  shows "sleep_inv z"
  using assms unfolding sleep_inv_def by blast

lemma sleep_inv_moved:
  assumes "sleep_inv z" and "sat z p \<noteq> Holder" and "w \<noteq> Holder" and "w = Asleep \<Longrightarrow> sl_locked (slk z)"
  shows "sleep_inv (z\<lparr>sat := (sat z)(p := w)\<rparr>)"
  using sleep_inv_holder [OF assms(1)] sleep_inv_asleep [OF assms(1)] assms(2-4)
  by (intro sleep_invI) (simp_all split: if_splits)

lemma sleep_inv_step: "sleep_step z z' \<Longrightarrow> sleep_inv z \<Longrightarrow> sleep_inv z'"
proof (induction rule: sleep_step.induct)
  case (call z p)
  then show ?case by (intro sleep_inv_moved) simp_all
next
  case (take_lock z p lk)
  then have "\<not> sl_locked (slk z)" and lk: "sl_locked lk" "sl_pid lk = p"
    by (simp_all add: acquiresleep_def split: if_splits) (auto split: if_splits)
  with sleep_inv_holder [OF take_lock(3)] have "sat z q \<noteq> Holder" for q by simp
  with lk show ?case by (intro sleep_invI) simp_all
next
  case (go_to_sleep z p)
  then show ?case by (intro sleep_inv_moved) (simp_all add: acquiresleep_def split: if_splits)
next
  case (release z p)
  have "sat z q \<noteq> Holder" if "q \<noteq> p" for q
    using sleep_inv_holder [OF release(2), of q] sleep_inv_holder [OF release(2), of p] release(1) that
    by simp
  then show ?case by (intro sleep_invI) (simp_all add: releasesleep_def split: if_splits)
next
  case (spurious z p)
  then show ?case by (intro sleep_inv_moved) simp_all
qed

lemma sleep_inv_reach: "sleep_reach z \<Longrightarrow> sleep_inv z"
proof (induction rule: sleep_reach.induct)
  case sleep_start
  show ?case by (simp add: sleep_inv_def initsleeplock_def)
next
  case (sleep_next z z')
  then show ?case by (blast intro: sleep_inv_step)
qed

section \<open>Properties\<close>

text \<open>C9: two CPUs are never both inside the section guarded by one spin lock, whatever the
  interleaving of their \<open>acquire\<close> and \<open>release\<close> calls.\<close>

theorem spinlock_mutual_exclusion:
  assumes "smp_reach m" and "l \<in> inside m i" and "l \<in> inside m j"
  shows "i = j"
  using lock_inv_unique [OF lock_inv_reach [OF assms(1)], of i l j] assms(2,3)
  by (auto simp: owns_def)

text \<open>The run on two CPUs in which CPU 0 enters the section of lock 7.\<close>

lemma smp_enter:
  "\<exists>m. smp_reach m \<and> 7 \<in> inside m 0"
proof -
  let ?f = "\<lambda>i::nat. True"
  let ?m0 = "smp_init ?f"
  let ?m1 = "?m0\<lparr>at := (at ?m0)(0 := AcqHolding 7), cpus := (cpus ?m0)(0 := pushcli (cpus ?m0 0))\<rparr>"
  let ?m2 = "?m1\<lparr>at := (at ?m1)(0 := (if holding 0 (locks ?m1 7) then Panicked ''acquire'' else AcqXchg 7))\<rparr>"
  let ?m3 = "?m2\<lparr>at := (at ?m2)(0 := AcqCpu 7), locks := (locks ?m2)(7 := (locks ?m2 7)\<lparr>lk_locked := True\<rparr>)\<rparr>"
  let ?m4 = "?m3\<lparr>at := (at ?m3)(0 := Outside), locks := (locks ?m3)(7 := (locks ?m3 7)\<lparr>lk_cpu := Some 0\<rparr>),
                 inside := (inside ?m3)(0 := insert 7 (inside ?m3 0))\<rparr>"
  have "smp_reach ?m1"
    by (rule smp_next [OF smp_start]) (rule acquire_pushcli, simp add: smp_init_def)
  then have "smp_reach ?m2"
    by (rule smp_next) (rule acquire_holding, simp)
  then have "smp_reach ?m3"
    by (rule smp_next) (rule acquire_xchg, simp_all add: holding_def smp_init_def initlock_def)
  then have "smp_reach ?m4"
    by (rule smp_next) (rule acquire_cpu, simp)
  then show ?thesis by (intro exI [of _ ?m4]) simp
qed

theorem spinlock_mutual_exclusion_witness:
  "\<exists>m. smp_reach m \<and> 7 \<in> inside m 0 \<and> 7 \<notin> inside m 1"
proof -
  obtain m where m: "smp_reach m" "7 \<in> inside m 0" using smp_enter by blast
  then show ?thesis using spinlock_mutual_exclusion [OF m, of 1] by auto
qed

text \<open>C14: a CPU inside any critical section runs with interrupts off, and a CPU that leaves its
  sections does not panic in \<open>popcli\<close>: the nesting count of \<open>pushcli\<close> agrees with the sections.\<close>

theorem critical_section_interrupts_off:
  assumes "smp_reach m" and "\<nexists>e. at m i = Panicked e"
  shows "(inside m i \<noteq> {} \<longrightarrow> \<not> flag_IF (cpus m i)) \<and>
    (at m i = RelPop \<longrightarrow> (\<exists>c. popcli (cpus m i) = Inr c)) \<and>
    ncli (cpus m i) = int (card (inside m i)) + pending (at m i)"
proof -
  have inv: "finite (inside m i)" "cpu_ok (cpus m i)"
    "ncli (cpus m i) = int (card (inside m i)) + pending (at m i)"
    using cli_inv_reach [OF assms(1)] assms(2) by (auto simp: cli_inv_def)
  have "0 < ncli (cpus m i)" if "inside m i \<noteq> {}"
    using inv that card_gt_0_iff [of "inside m i"] by (auto simp: pending_def split: where_cpu.splits)
  moreover have "0 < ncli (cpus m i)" if "at m i = RelPop"
    using inv that by (simp add: pending_def)
  ultimately show ?thesis using inv popcli_ok [OF inv(2)] by (auto simp: cpu_ok_def)
qed

theorem critical_section_interrupts_off_witness:
  "\<exists>m. smp_reach m \<and> (\<nexists>e. at m 1 = Panicked e) \<and> ncli (cpus m 1) = 0"
proof -
  have m: "smp_reach (smp_init (\<lambda>i. True))" "\<nexists>e. at (smp_init (\<lambda>i. True)) 1 = Panicked e"
    by (rule smp_start) (simp add: smp_init_def)
  from critical_section_interrupts_off [OF m] m show ?thesis
    by (intro exI [of _ "smp_init (\<lambda>i. True)"]) (simp add: smp_init_def pending_def)
qed

text \<open>C20: \<open>pushcli\<close> and \<open>popcli\<close> are matched: any properly nested sequence of calls returns without
  a panic and restores both the depth and the interrupt flag it started with.\<close>

theorem pushcli_popcli_matched:
  assumes "cpu_ok c" and "nested 0 os"
  shows "\<exists>c'. cli_run os c = Inr c' \<and> ncli c' = ncli c \<and> flag_IF c' = flag_IF c"
  using assms by (rule cli_run_nested)

theorem pushcli_popcli_matched_witness:
  "\<exists>c'. cli_run [Push, Push, Pop, Push, Pop, Pop] \<lparr>ncli = 0, intena = False, flag_IF = True\<rparr> = Inr c' \<and>
     ncli c' = 0 \<and> flag_IF c'"
  using pushcli_popcli_matched
    [of "\<lparr>ncli = 0, intena = False, flag_IF = True\<rparr>" "[Push, Push, Pop, Push, Pop, Pop]"]
  by (simp add: cpu_ok_def)

text \<open>C18: a sleep lock has at most one holder, the recorded pid is the holder's, and no wakeup is
  lost: a process is asleep on the lock only while the lock is taken.\<close>

theorem sleeplock_safe:
  assumes "sleep_reach z"
  shows "(\<forall>p q. sat z p = Holder \<and> sat z q = Holder \<longrightarrow> p = q) \<and>
    (\<forall>p. sat z p = Holder \<longrightarrow> holdingsleep (slk z) \<and> sl_pid (slk z) = p) \<and>
    (\<forall>p. sat z p = Asleep \<longrightarrow> (\<exists>q. sat z q = Holder))"
proof -
  have inv: "sleep_inv z" by (rule sleep_inv_reach [OF assms])
  then have h: "holdingsleep (slk z) \<and> sl_pid (slk z) = p" if "sat z p = Holder" for p
    using that by (simp add: sleep_inv_def holdingsleep_def)
  moreover have "\<exists>q. sat z q = Holder" if "sat z p = Asleep" for p
    using inv that unfolding sleep_inv_def by blast
  ultimately show ?thesis by blast
qed

theorem sleeplock_safe_witness:
  "\<exists>z. sleep_reach z \<and> sat z 5 = Holder \<and> holdingsleep (slk z) \<and> sl_pid (slk z) = 5"
proof -
  let ?z0 = "\<lparr>slk = initsleeplock, sat = (\<lambda>p. Away)\<rparr>"
  let ?z1 = "?z0\<lparr>sat := (sat ?z0)(5 := Testing)\<rparr>"
  let ?z2 = "?z1\<lparr>slk := \<lparr>sl_locked = True, sl_pid = 5\<rparr>, sat := (sat ?z1)(5 := Holder)\<rparr>"
  have "sleep_reach ?z1" by (rule sleep_next [OF sleep_start]) (rule call, simp)
  then have r: "sleep_reach ?z2"
    by (rule sleep_next) (rule take_lock, simp_all add: acquiresleep_def initsleeplock_def)
  have h: "sat ?z2 5 = Holder" by simp
  show ?thesis
    using r h sleeplock_safe [OF r, THEN conjunct2, THEN conjunct1, rule_format, OF h] by blast
qed

end
