(* ===== verification/Bio.thy ===== *)
theory Bio
  imports Locks
begin

text \<open>
  The buffer cache of \<^verbatim>\<open>bio.c\<close> over the in-memory disk driver of \<^verbatim>\<open>memide.c\<close> (the build
  \<^verbatim>\<open>kernelmemfs\<close>). \<^verbatim>\<open>bcache.buf[i]\<close> is \<open>bufs s i\<close> for \<open>i < NBUF\<close> and \<^verbatim>\<open>bcache.head\<close> is
  \<open>bufs s NBUF\<close>; the LRU list is the doubly linked list of the source, through \<open>b_next\<close> and
  \<open>b_prev\<close>. A section under \<^verbatim>\<open>bcache.lock\<close> is one step (see \<open>Locks\<close>). \<open>dwrites\<close> is a history
  variable: the sequence of blocks the driver wrote, for the crash analysis of \<open>Log\<close>.
\<close>

section \<open>State\<close>

record buf =
  b_flags :: "32 word"
  b_dev :: nat
  b_blockno :: nat
  b_lock :: sleeplock
  b_refcnt :: "32 word"
  b_prev :: nat
  b_next :: nat
  b_data :: block

abbreviation (input) B_VALID :: "32 word" where "B_VALID \<equiv> 0x2"
abbreviation (input) B_DIRTY :: "32 word" where "B_DIRTY \<equiv> 0x4"

record bio =
  cur_pid :: int
  bufs :: "nat \<Rightarrow> buf"
  memdisk :: "nat \<Rightarrow> block"
  disksize :: nat
  dwrites :: "(nat \<times> block) list"

abbreviation (input) HEAD :: nat where "HEAD \<equiv> NBUF"

definition upd_buf :: "nat \<Rightarrow> (buf \<Rightarrow> buf) \<Rightarrow> 'a bio_scheme \<Rightarrow> 'a bio_scheme" where
  "upd_buf i f s = s\<lparr>bufs := (bufs s)(i := f (bufs s i))\<rparr>"

text \<open>\<^verbatim>\<open>b->data\<close> changed by the code that holds the buffer.\<close>

definition set_data :: "nat \<Rightarrow> (block \<Rightarrow> block) \<Rightarrow> 'a bio_scheme \<Rightarrow> 'a bio_scheme" where
  "set_data i f s = upd_buf i (\<lambda>b. b\<lparr>b_data := f (b_data b)\<rparr>) s"

definition valid :: "'a bio_scheme \<Rightarrow> nat \<Rightarrow> bool" where
  "valid s i \<longleftrightarrow> b_flags (bufs s i) AND B_VALID \<noteq> 0"

definition dirty :: "'a bio_scheme \<Rightarrow> nat \<Rightarrow> bool" where
  "dirty s i \<longleftrightarrow> b_flags (bufs s i) AND B_DIRTY \<noteq> 0"

abbreviation locked :: "'a bio_scheme \<Rightarrow> nat \<Rightarrow> bool" where
  "locked s i \<equiv> sl_locked (b_lock (bufs s i))"

section \<open>Operations\<close>

text \<open>\<^verbatim>\<open>memide.c\<close>: one request, done at once.\<close>

definition iderw :: "nat \<Rightarrow> 'a bio_scheme \<Rightarrow> 'a bio_scheme res" where
  "iderw i s =
     (let b = bufs s i in
      if \<not> holdingsleep (b_lock b) then Inl (Panic ''iderw: buf not locked'')
      else if b_flags b AND (B_VALID OR B_DIRTY) = B_VALID then Inl (Panic ''iderw: nothing to do'')
      else if b_dev b \<noteq> 1 then Inl (Panic ''iderw: request not for disk 1'')
      else if disksize s \<le> b_blockno b then Inl (Panic ''iderw: block out of range'')
      else if b_flags b AND B_DIRTY \<noteq> 0
        then Inr (upd_buf i (\<lambda>b. b\<lparr>b_flags := (b_flags b AND NOT B_DIRTY) OR B_VALID\<rparr>)
               (s\<lparr>memdisk := (memdisk s)(b_blockno b := b_data b),
                  dwrites := dwrites s @ [(b_blockno b, b_data b)]\<rparr>))
        else Inr (upd_buf i (\<lambda>b. b\<lparr>b_data := memdisk s (b_blockno b),
                                   b_flags := b_flags b OR B_VALID\<rparr>) s))"

definition link_head :: "nat \<Rightarrow> 'a bio_scheme \<Rightarrow> 'a bio_scheme" where
  "link_head i s =
     (let s = upd_buf i (\<lambda>b. b\<lparr>b_next := b_next (bufs s HEAD), b_prev := HEAD\<rparr>) s;
          s = upd_buf (b_next (bufs s HEAD)) (\<lambda>b. b\<lparr>b_prev := i\<rparr>) s
      in upd_buf HEAD (\<lambda>b. b\<lparr>b_next := i\<rparr>) s)"

definition unlink :: "nat \<Rightarrow> 'a bio_scheme \<Rightarrow> 'a bio_scheme" where
  "unlink i s =
     (let s = upd_buf (b_next (bufs s i)) (\<lambda>b. b\<lparr>b_prev := b_prev (bufs s i)\<rparr>) s
      in upd_buf (b_prev (bufs s i)) (\<lambda>b. b\<lparr>b_next := b_next (bufs s i)\<rparr>) s)"

definition binit :: "'a bio_scheme \<Rightarrow> 'a bio_scheme" where
  "binit s =
     (let s = upd_buf HEAD (\<lambda>b. b\<lparr>b_prev := HEAD, b_next := HEAD\<rparr>) s
      in fold (\<lambda>i s. link_head i (upd_buf i (\<lambda>b. b\<lparr>b_lock := initsleeplock\<rparr>) s)) [0..<NBUF] s)"

text \<open>
  A loop of \<open>bget\<close> over the list, along \<open>f\<close> from \<open>b\<close> up to the head: the first buffer that
  satisfies \<open>p\<close>. The list has \<open>NBUF\<close> elements and the head, so \<open>NBUF + 1\<close> steps end it.
\<close>

fun scan :: "(nat \<Rightarrow> nat) \<Rightarrow> (nat \<Rightarrow> bool) \<Rightarrow> nat \<Rightarrow> nat \<Rightarrow> nat option res" where
  "scan f p 0 b = Inl Diverges"
| "scan f p (Suc k) b =
     (if b = HEAD then Inr None else if p b then Inr (Some b) else scan f p k (f b))"

definition lock_buf :: "nat \<Rightarrow> 'a bio_scheme \<Rightarrow> (nat \<times> 'a bio_scheme) res" where
  "lock_buf i s =
     bnd (acquiresleep (cur_pid s) (b_lock (bufs s i)))
       (\<lambda>lk. Inr (i, upd_buf i (\<lambda>b. b\<lparr>b_lock := lk\<rparr>) s))"

definition bget :: "nat \<Rightarrow> nat \<Rightarrow> 'a bio_scheme \<Rightarrow> (nat \<times> 'a bio_scheme) res" where
  "bget dev blockno s =
     bnd (scan (\<lambda>i. b_next (bufs s i))
            (\<lambda>i. b_dev (bufs s i) = dev \<and> b_blockno (bufs s i) = blockno)
            (NBUF + 1) (b_next (bufs s HEAD)))
       (\<lambda>hit. case hit of
          Some i \<Rightarrow> lock_buf i (upd_buf i (\<lambda>b. b\<lparr>b_refcnt := b_refcnt b + 1\<rparr>) s)
        | None \<Rightarrow>
            bnd (scan (\<lambda>i. b_prev (bufs s i))
                   (\<lambda>i. b_refcnt (bufs s i) = 0 \<and> b_flags (bufs s i) AND B_DIRTY = 0)
                   (NBUF + 1) (b_prev (bufs s HEAD)))
              (\<lambda>victim. case victim of
                 Some i \<Rightarrow> lock_buf i (upd_buf i (\<lambda>b. b\<lparr>b_dev := dev, b_blockno := blockno,
                                                       b_flags := 0, b_refcnt := 1\<rparr>) s)
               | None \<Rightarrow> Inl (Panic ''bget: no buffers'')))"

definition bread :: "nat \<Rightarrow> nat \<Rightarrow> 'a bio_scheme \<Rightarrow> (nat \<times> 'a bio_scheme) res" where
  "bread dev blockno s =
     bnd (bget dev blockno s) (\<lambda>(i, s).
       if b_flags (bufs s i) AND B_VALID = 0 then bnd (iderw i s) (\<lambda>s. Inr (i, s)) else Inr (i, s))"

definition bwrite :: "nat \<Rightarrow> 'a bio_scheme \<Rightarrow> 'a bio_scheme res" where
  "bwrite i s =
     (if \<not> holdingsleep (b_lock (bufs s i)) then Inl (Panic ''bwrite'')
      else iderw i (upd_buf i (\<lambda>b. b\<lparr>b_flags := b_flags b OR B_DIRTY\<rparr>) s))"

definition brelse :: "nat \<Rightarrow> 'a bio_scheme \<Rightarrow> 'a bio_scheme res" where
  "brelse i s =
     (if \<not> holdingsleep (b_lock (bufs s i)) then Inl (Panic ''brelse'')
      else let s = upd_buf i (\<lambda>b. b\<lparr>b_lock := releasesleep (b_lock b)\<rparr>) s;
               s = upd_buf i (\<lambda>b. b\<lparr>b_refcnt := b_refcnt b - 1\<rparr>) s
           in if b_refcnt (bufs s i) = 0 then Inr (link_head i (unlink i s)) else Inr s)"

section \<open>The LRU list\<close>

text \<open>\<open>dseg n p a xs b\<close>: from \<open>a\<close> the \<open>n\<close> links visit \<open>xs\<close> and end at \<open>b\<close>, and \<open>p\<close> links back.\<close>

fun dseg :: "(nat \<Rightarrow> nat) \<Rightarrow> (nat \<Rightarrow> nat) \<Rightarrow> nat \<Rightarrow> nat list \<Rightarrow> nat \<Rightarrow> bool" where
  "dseg n p a [] b = (n a = b \<and> p b = a)"
| "dseg n p a (x # xs) b = (n a = x \<and> p x = a \<and> dseg n p x xs b)"

abbreviation nxt :: "'a bio_scheme \<Rightarrow> nat \<Rightarrow> nat" where
  "nxt s i \<equiv> b_next (bufs s i)"

abbreviation prv :: "'a bio_scheme \<Rightarrow> nat \<Rightarrow> nat" where
  "prv s i \<equiv> b_prev (bufs s i)"

definition lru :: "'a bio_scheme \<Rightarrow> nat list \<Rightarrow> bool" where
  "lru s xs \<longleftrightarrow> dseg (nxt s) (prv s) HEAD xs HEAD \<and> distinct xs \<and> set xs = {..<NBUF}"

lemma dseg_append: "dseg n p a (xs @ y # ys) b \<longleftrightarrow> dseg n p a xs y \<and> dseg n p y ys b"
  by (induction xs arbitrary: a) auto

lemma dseg_cong:
  assumes "\<And>i. i = a \<or> i \<in> set xs \<Longrightarrow> n i = n' i" and "\<And>i. i = b \<or> i \<in> set xs \<Longrightarrow> p i = p' i"
  shows "dseg n p a xs b = dseg n' p' a xs b"
  using assms by (induction xs arbitrary: a) auto

lemma scan_next:
  assumes "dseg n p a xs HEAD" and "HEAD \<notin> set xs" and "length xs < k"
  shows "scan n q k (n a) = Inr (List.find q xs)"
  using assms
proof (induction xs arbitrary: a k)
  case Nil
  then show ?case by (cases k) auto
next
  case (Cons x xs)
  then obtain k' where k: "k = Suc k'" by (cases k) auto
  have "scan n q k' (n x) = Inr (List.find q xs)" if "\<not> q x"
    using Cons k by auto
  with Cons.prems k show ?case by auto
qed

lemma scan_prev:
  assumes "dseg n p HEAD xs b" and "HEAD \<notin> set xs" and "length xs < k"
  shows "scan p q k (p b) = Inr (List.find q (rev xs))"
  using assms
proof (induction xs arbitrary: b k rule: rev_induct)
  case Nil
  then show ?case by (cases k) auto
next
  case (snoc x xs)
  then obtain k' where k: "k = Suc k'" by (cases k) auto
  from snoc.prems have d: "dseg n p HEAD xs x" "p b = x" by (auto simp: dseg_append)
  have "scan p q k' (p x) = Inr (List.find q (rev xs))" if "\<not> q x"
    using snoc d k by auto
  with snoc.prems d k show ?case by auto
qed

lemma dseg_last: "dseg n p a xs b \<Longrightarrow> p b = last (a # xs)"
  by (induction xs arbitrary: a) auto

lemma dseg_first: "dseg n p a xs b \<Longrightarrow> n a = hd (xs @ [b])"
  by (cases xs) auto

lemma dseg_insert:
  assumes "dseg n p h xs h" and "distinct xs" and "h \<notin> set xs" and "i \<notin> set xs" and "i \<noteq> h"
  shows "dseg (n(i := n h, h := i)) (p(i := h, n h := i)) h (i # xs) h"
proof (cases xs)
  case Nil
  with assms show ?thesis by auto
next
  case (Cons x ys)
  have "dseg (n(i := n h, h := i)) (p(i := h, n h := i)) x ys h = dseg n p x ys h"
    by (rule dseg_cong) (use assms Cons in auto)
  with assms Cons show ?thesis by auto
qed

lemma dseg_remove:
  assumes "dseg n p h (ys @ i # zs) h" and "distinct (ys @ i # zs)" and "h \<notin> set (ys @ i # zs)"
  shows "dseg (n(p i := n i)) (p(n i := p i)) h (ys @ zs) h"
proof -
  let ?n = "n(p i := n i)" and ?p = "p(n i := p i)"
  have d: "dseg n p h ys i" "dseg n p i zs h" using assms(1) by (simp_all add: dseg_append)
  have pi: "p i = last (h # ys)" using dseg_last [OF d(1)] .
  have ni: "n i = hd (zs @ [h])" using dseg_first [OF d(2)] .
  have right: "dseg ?n ?p (p i) zs h"
  proof (cases zs)
    case Nil
    with d(2) show ?thesis by simp
  next
    case (Cons z zs')
    have "dseg ?n ?p z zs' h = dseg n p z zs' h"
    proof (rule dseg_cong)
      fix j assume "j = z \<or> j \<in> set zs'"
      moreover have "p i \<in> insert h (set ys)" using pi by simp
      ultimately have "j \<noteq> p i" using assms(2,3) Cons by auto
      then show "?n j = n j" by simp
    next
      fix j assume "j = h \<or> j \<in> set zs'"
      then have "j \<noteq> n i" using assms(2,3) Cons ni by auto
      then show "?p j = p j" by simp
    qed
    with d(2) Cons show ?thesis by simp
  qed
  show ?thesis
  proof (cases ys rule: rev_cases)
    case Nil
    with right pi show ?thesis by simp
  next
    case (snoc ys' y)
    have "dseg ?n ?p h ys' y = dseg n p h ys' y"
    proof (rule dseg_cong)
      fix j assume "j = h \<or> j \<in> set ys'"
      then have "j \<noteq> p i" using assms(2,3) snoc pi by auto
      then show "?n j = n j" by simp
    next
      fix j assume j: "j = y \<or> j \<in> set ys'"
      have "n i \<in> insert h (set zs)" using ni by (cases zs) auto
      then have "j \<noteq> n i" using j assms(2,3) snoc by auto
      then show "?p j = p j" by simp
    qed
    with right pi d(1) snoc show ?thesis by (auto simp: dseg_append)
  qed
qed

lemma link_head_links:
  assumes "i \<noteq> HEAD"
  shows "nxt (link_head i s) = (nxt s)(i := nxt s HEAD, HEAD := i)"
    and "prv (link_head i s) = (prv s)(i := HEAD, nxt s HEAD := i)"
  using assms by (auto simp: link_head_def upd_buf_def Let_def)

lemma unlink_links:
  assumes "nxt s i \<noteq> i"
  shows "nxt (unlink i s) = (nxt s)(prv s i := nxt s i)"
    and "prv (unlink i s) = (prv s)(nxt s i := prv s i)"
  using assms by (auto simp: unlink_def upd_buf_def Let_def)

text \<open>Neither changes anything but links.\<close>

lemma links_core [simp]:
  "b_flags (bufs (link_head i s) j) = b_flags (bufs s j)"
  "b_dev (bufs (link_head i s) j) = b_dev (bufs s j)"
  "b_blockno (bufs (link_head i s) j) = b_blockno (bufs s j)"
  "b_lock (bufs (link_head i s) j) = b_lock (bufs s j)"
  "b_refcnt (bufs (link_head i s) j) = b_refcnt (bufs s j)"
  "b_data (bufs (link_head i s) j) = b_data (bufs s j)"
  "b_flags (bufs (unlink i s) j) = b_flags (bufs s j)"
  "b_dev (bufs (unlink i s) j) = b_dev (bufs s j)"
  "b_blockno (bufs (unlink i s) j) = b_blockno (bufs s j)"
  "b_lock (bufs (unlink i s) j) = b_lock (bufs s j)"
  "b_refcnt (bufs (unlink i s) j) = b_refcnt (bufs s j)"
  "b_data (bufs (unlink i s) j) = b_data (bufs s j)"
  by (simp_all add: link_head_def unlink_def upd_buf_def Let_def)

lemma links_frame [simp]:
  "memdisk (link_head i s) = memdisk s" "disksize (link_head i s) = disksize s"
  "dwrites (link_head i s) = dwrites s" "cur_pid (link_head i s) = cur_pid s"
  "bio.more (link_head i s) = bio.more s"
  "memdisk (unlink i s) = memdisk s" "disksize (unlink i s) = disksize s"
  "dwrites (unlink i s) = dwrites s" "cur_pid (unlink i s) = cur_pid s"
  "bio.more (unlink i s) = bio.more s"
  by (simp_all add: link_head_def unlink_def upd_buf_def Let_def)

lemma lru_move_front:
  assumes "lru s xs" and "i < NBUF"
  shows "lru (link_head i (unlink i s)) (i # remove1 i xs)"
proof -
  have xs: "dseg (nxt s) (prv s) HEAD xs HEAD" "distinct xs" "set xs = {..<NBUF}"
    using assms(1) by (auto simp: lru_def)
  have "i \<in> set xs" using xs(3) assms(2) by simp
  then obtain ys zs where split: "xs = ys @ i # zs" by (auto simp: in_set_conv_decomp)
  have r: "remove1 i xs = ys @ zs" using xs(2) split by (auto simp: remove1_append)
  have ni: "nxt s i \<noteq> i"
  proof -
    have "nxt s i = hd (zs @ [HEAD])"
      using xs(1) split dseg_first [of "nxt s" "prv s" i zs HEAD] by (simp add: dseg_append)
    then show ?thesis using xs(2) split assms(2) by (cases zs) auto
  qed
  have "dseg (nxt (unlink i s)) (prv (unlink i s)) HEAD (ys @ zs) HEAD"
    unfolding unlink_links [OF ni]
    by (rule dseg_remove) (use xs split in auto)
  then have "dseg (nxt (link_head i (unlink i s))) (prv (link_head i (unlink i s))) HEAD (i # ys @ zs) HEAD"
    unfolding link_head_links [OF less_imp_neq [OF assms(2)]]
    by (rule dseg_insert) (use xs split in auto)
  then show ?thesis using r xs split by (auto simp: lru_def)
qed

section \<open>Flags\<close>

lemma flag_and_or [flag_simps]:
  fixes f :: "32 word"
  shows "(f OR 4) AND 4 = 4" "(f OR 4) AND 2 = f AND 2" "(f OR 2) AND 2 = 2" "(f OR 2) AND 4 = f AND 4"
    "((f AND NOT 4) OR 2) AND 2 = 2" "((f AND NOT 4) OR 2) AND 4 = 0"
  by (rule bit_word_eqI, auto simp: bit_simps)+

lemma and_exp: "(f :: 'a :: len word) AND 2 ^ k = (if bit f k then 2 ^ k else 0)"
  by (rule bit_word_eqI) (auto simp: bit_simps)

lemma flag_two [flag_simps]:
  fixes f :: "32 word"
  shows "f AND 6 = 2 \<longleftrightarrow> f AND 2 \<noteq> 0 \<and> f AND 4 = 0"
proof -
  have "(6 :: 32 word) = 2 OR 4" by simp
  then have six: "f AND 6 = (f AND 2) OR (f AND 4)" by (simp only: bit.conj_disj_distrib)
  have "f AND 2 = 0 \<or> f AND 2 = 2" "f AND 4 = 0 \<or> f AND 4 = 4"
    using and_exp [of f 1] and_exp [of f 2] by (auto split: if_splits)
  then show ?thesis by (auto simp: six)
qed

section \<open>Invariant and logical contents\<close>

text \<open>One buffer for each block of a device; device 0 marks the buffers that were never used.\<close>

definition uniq :: "'a bio_scheme \<Rightarrow> bool" where
  "uniq s \<longleftrightarrow> (\<forall>i<NBUF. \<forall>j<NBUF. b_dev (bufs s i) \<noteq> 0 \<and> b_dev (bufs s i) = b_dev (bufs s j) \<and>
      b_blockno (bufs s i) = b_blockno (bufs s j) \<longrightarrow> i = j)"

text \<open>
  Between the steps of one process a buffer is referenced exactly while it is locked, a dirty
  or locked buffer is a valid one of the disk, and an unlocked valid clean buffer agrees with the
  disk.
\<close>

definition bio_inv :: "'a bio_scheme \<Rightarrow> bool" where
  "bio_inv s \<longleftrightarrow> (\<exists>xs. lru s xs) \<and> uniq s \<and>
     (\<forall>i<NBUF. b_refcnt (bufs s i) = (if locked s i then 1 else 0)) \<and>
     (\<forall>i<NBUF. dirty s i \<or> locked s i \<longrightarrow> valid s i \<and> b_dev (bufs s i) = 1) \<and>
     (\<forall>i<NBUF. \<not> locked s i \<and> b_dev (bufs s i) = 1 \<and> valid s i \<and> \<not> dirty s i \<longrightarrow>
        b_data (bufs s i) = memdisk s (b_blockno (bufs s i)))"

definition cached :: "'a bio_scheme \<Rightarrow> nat \<Rightarrow> nat \<Rightarrow> bool" where
  "cached s n i \<longleftrightarrow> b_dev (bufs s i) = 1 \<and> b_blockno (bufs s i) = n"

text \<open>The contents of block \<open>n\<close> as the file system sees them: the cached copy, else the disk's.\<close>

definition blk :: "'a bio_scheme \<Rightarrow> nat \<Rightarrow> block" where
  "blk s n = (case List.find (cached s n) [0..<NBUF] of
       Some i \<Rightarrow> if valid s i then b_data (bufs s i) else memdisk s n
     | None \<Rightarrow> memdisk s n)"

text \<open>Blocks with a dirty buffer, pinned in the cache until the log commits.\<close>

definition pinned :: "'a bio_scheme \<Rightarrow> nat set" where
  "pinned s = {n. \<exists>i<NBUF. cached s n i \<and> dirty s i}"

text \<open>The process has read block \<open>n\<close> into buffer \<open>i\<close> and holds it.\<close>

definition holds :: "'a bio_scheme \<Rightarrow> nat \<Rightarrow> nat \<Rightarrow> bool" where
  "holds s i n \<longleftrightarrow> i < NBUF \<and> locked s i \<and> cached s n i \<and> valid s i"

lemma uniqD:
  "uniq s \<Longrightarrow> i < NBUF \<Longrightarrow> j < NBUF \<Longrightarrow> cached s n i \<Longrightarrow> cached s n j \<Longrightarrow> i = j"
  by (simp add: uniq_def cached_def)

lemma blk_cached:
  assumes "uniq s" and "i < NBUF" and "cached s n i"
  shows "blk s n = (if valid s i then b_data (bufs s i) else memdisk s n)"
proof -
  have "List.find (cached s n) [0..<NBUF] = Some i"
  proof -
    have "List.find (cached s n) [0..<NBUF] \<noteq> None"
      using assms(2,3) by (auto simp: find_None_iff)
    then obtain j where j: "List.find (cached s n) [0..<NBUF] = Some j" by auto
    then have "j < NBUF" "cached s n j" by (auto simp: find_Some_iff simp del: upt_rec_numeral)
    with uniqD [OF assms(1,2), of j n] assms(3) j show ?thesis by simp
  qed
  then show ?thesis by (simp add: blk_def del: upt_rec_numeral)
qed

lemma blk_uncached:
  assumes "\<And>i. i < NBUF \<Longrightarrow> \<not> cached s n i"
  shows "blk s n = memdisk s n"
proof -
  have "List.find (cached s n) [0..<NBUF] = None"
    using assms by (auto simp: find_None_iff simp del: upt_rec_numeral)
  then show ?thesis by (simp add: blk_def del: upt_rec_numeral)
qed

lemma blk_holds: "bio_inv s \<Longrightarrow> holds s i n \<Longrightarrow> blk s n = b_data (bufs s i)"
  using blk_cached [of s i n] by (simp add: bio_inv_def holds_def)

text \<open>Two states whose buffers differ in links and lock words only have the same contents.\<close>

lemma blk_cong:
  assumes "\<And>i. i < NBUF \<Longrightarrow> b_dev (bufs s' i) = b_dev (bufs s i) \<and> b_blockno (bufs s' i) = b_blockno (bufs s i) \<and>
      b_flags (bufs s' i) AND B_VALID = b_flags (bufs s i) AND B_VALID \<and> b_data (bufs s' i) = b_data (bufs s i)"
    and "memdisk s' = memdisk s"
  shows "blk s' = blk s"
proof
  fix n
  have "List.find (cached s' n) [0..<NBUF] = List.find (cached s n) [0..<NBUF]"
    by (rule find_cong) (use assms(1) in \<open>auto simp: cached_def simp del: upt_rec_numeral\<close>)
  moreover have "i < NBUF" if "List.find (cached s n) [0..<NBUF] = Some i" for i
    using that by (auto simp: find_Some_iff simp del: upt_rec_numeral)
  ultimately show "blk s' n = blk s n"
    using assms by (auto simp: blk_def valid_def simp del: upt_rec_numeral split: option.split)
qed

lemma upd_buf_simps [simp]:
  "bufs (upd_buf i f s) j = (if j = i then f (bufs s i) else bufs s j)"
  "memdisk (upd_buf i f s) = memdisk s" "disksize (upd_buf i f s) = disksize s"
  "dwrites (upd_buf i f s) = dwrites s" "cur_pid (upd_buf i f s) = cur_pid s"
  "bio.more (upd_buf i f s) = bio.more s"
  by (simp_all add: upd_buf_def)

lemma lru_cong:
  assumes "nxt s' = nxt s" and "prv s' = prv s"
  shows "lru s' xs = lru s xs"
  unfolding lru_def assms ..

lemma lru_upd_buf:
  assumes "\<And>b. b_next (f b) = b_next b" and "\<And>b. b_prev (f b) = b_prev b"
  shows "lru (upd_buf i f s) xs = lru s xs"
  by (rule lru_cong) (auto simp: assms)

text \<open>The two outcomes of \<open>bget\<close>: a hit, or the least recently used clean buffer recycled.\<close>

lemma lru_scans:
  assumes "lru s xs"
  shows "scan (nxt s) q (NBUF + 1) (nxt s HEAD) = Inr (List.find q xs)"
    and "scan (prv s) q (NBUF + 1) (prv s HEAD) = Inr (List.find q (rev xs))"
proof -
  have "length xs = card (set xs)" using assms distinct_card [of xs] by (simp add: lru_def)
  also have "\<dots> = NBUF" using assms by (simp add: lru_def)
  finally have len: "length xs < NBUF + 1" by simp
  have d: "dseg (nxt s) (prv s) HEAD xs HEAD" "HEAD \<notin> set xs" using assms by (auto simp: lru_def)
  show "scan (nxt s) q (NBUF + 1) (nxt s HEAD) = Inr (List.find q xs)"
    by (rule scan_next [OF d len])
  show "scan (prv s) q (NBUF + 1) (prv s HEAD) = Inr (List.find q (rev xs))"
    by (rule scan_prev [OF d len])
qed

definition lock_as :: "'a bio_scheme \<Rightarrow> buf \<Rightarrow> buf" where
  "lock_as s b = b\<lparr>b_refcnt := 1, b_lock := \<lparr>sl_locked = True, sl_pid = cur_pid s\<rparr>\<rparr>"

lemma lock_as_simps [simp]:
  "b_dev (lock_as s b) = b_dev b" "b_blockno (lock_as s b) = b_blockno b" "b_flags (lock_as s b) = b_flags b"
  "b_data (lock_as s b) = b_data b" "b_refcnt (lock_as s b) = 1" "sl_locked (b_lock (lock_as s b))"
  "b_next (lock_as s b) = b_next b" "b_prev (lock_as s b) = b_prev b"
  by (simp_all add: lock_as_def)

definition recycle :: "nat \<Rightarrow> nat \<Rightarrow> buf \<Rightarrow> buf" where
  "recycle dev blockno b = b\<lparr>b_dev := dev, b_blockno := blockno, b_flags := 0\<rparr>"

lemma recycle_simps [simp]:
  "b_dev (recycle d n b) = d" "b_blockno (recycle d n b) = n" "b_flags (recycle d n b) = 0"
  "b_data (recycle d n b) = b_data b" "b_refcnt (recycle d n b) = b_refcnt b" "b_lock (recycle d n b) = b_lock b"
  "b_next (recycle d n b) = b_next b" "b_prev (recycle d n b) = b_prev b"
  by (simp_all add: recycle_def)

lemma find_lru:
  assumes "lru s xs"
  shows "List.find q xs = None \<longleftrightarrow> (\<forall>i<NBUF. \<not> q i)"
    and "List.find q xs = Some i \<Longrightarrow> i < NBUF \<and> q i"
    and "List.find q (rev xs) = None \<longleftrightarrow> (\<forall>i<NBUF. \<not> q i)"
    and "List.find q (rev xs) = Some i \<Longrightarrow> i < NBUF \<and> q i"
proof -
  have set: "set xs = {..<NBUF}" using assms by (simp add: lru_def)
  show "List.find q xs = None \<longleftrightarrow> (\<forall>i<NBUF. \<not> q i)" "List.find q (rev xs) = None \<longleftrightarrow> (\<forall>i<NBUF. \<not> q i)"
    using set by (auto simp: find_None_iff)
  have mem: "x \<in> set ys \<and> q x" if "List.find q ys = Some x" for ys x
    using that by (auto simp: find_Some_iff)
  show "List.find q xs = Some i \<Longrightarrow> i < NBUF \<and> q i" using mem [of xs i] set by simp
  show "List.find q (rev xs) = Some i \<Longrightarrow> i < NBUF \<and> q i" using mem [of "rev xs" i] set by simp
qed

lemma bget_eq:
  assumes "lru s xs"
  shows "bget dev n s =
    (case List.find (\<lambda>i. b_dev (bufs s i) = dev \<and> b_blockno (bufs s i) = n) xs of
       Some i \<Rightarrow> lock_buf i (upd_buf i (\<lambda>b. b\<lparr>b_refcnt := b_refcnt b + 1\<rparr>) s)
     | None \<Rightarrow>
        (case List.find (\<lambda>i. b_refcnt (bufs s i) = 0 \<and> b_flags (bufs s i) AND B_DIRTY = 0) (rev xs) of
           Some i \<Rightarrow> lock_buf i (upd_buf i (\<lambda>b. b\<lparr>b_dev := dev, b_blockno := n, b_flags := 0, b_refcnt := 1\<rparr>) s)
         | None \<Rightarrow> Inl (Panic ''bget: no buffers'')))"
  unfolding bget_def lru_scans [OF assms] by (simp only: bnd_simps)

lemma sleeplock_full: "lk\<lparr>sl_locked := a, sl_pid := b\<rparr> = \<lparr>sl_locked = a, sl_pid = b\<rparr>"
  by (cases lk) simp

lemma lock_buf_eq:
  "lock_buf i s = (if locked s i then Inl Sleeps
     else Inr (i, upd_buf i (\<lambda>b. b\<lparr>b_lock := \<lparr>sl_locked = True, sl_pid = cur_pid s\<rparr>\<rparr>) s))"
  by (simp add: lock_buf_def acquiresleep_def sleeplock_full)

lemma upd_buf_upd_buf [simp]: "upd_buf i f (upd_buf i g s) = upd_buf i (\<lambda>b. f (g b)) s"
  by (simp add: upd_buf_def)

lemma bget_Inr:
  assumes inv: "bio_inv s" and run: "bget dev n s = Inr (i, s')"
  shows "i < NBUF \<and> \<not> locked s i \<and>
    (b_dev (bufs s i) = dev \<and> b_blockno (bufs s i) = n \<and> s' = upd_buf i (lock_as s) s \<or>
     (\<forall>j<NBUF. \<not> (b_dev (bufs s j) = dev \<and> b_blockno (bufs s j) = n)) \<and> \<not> dirty s i \<and>
       s' = upd_buf i (\<lambda>b. lock_as s (recycle dev n b)) s)"
proof -
  obtain xs where xs: "lru s xs" using inv by (auto simp: bio_inv_def)
  let ?q = "\<lambda>i. b_dev (bufs s i) = dev \<and> b_blockno (bufs s i) = n"
  let ?v = "\<lambda>i. b_refcnt (bufs s i) = 0 \<and> b_flags (bufs s i) AND B_DIRTY = 0"
  have ref: "\<not> locked s j \<Longrightarrow> b_refcnt (bufs s j) = 0" if "j < NBUF" for j
    using inv that by (simp add: bio_inv_def)
  show ?thesis
  proof (cases "List.find ?q xs")
    case (Some j)
    then have j: "j < NBUF" "?q j" using find_lru(2) [OF xs, of ?q j] by simp_all
    have "lock_buf j (upd_buf j (\<lambda>b. b\<lparr>b_refcnt := b_refcnt b + 1\<rparr>) s) = Inr (i, s')"
      using run unfolding bget_eq [OF xs] Some option.case .
    then have un: "\<not> locked s j" and i: "i = j"
      and s': "s' = upd_buf j (\<lambda>b. b\<lparr>b_refcnt := b_refcnt b + 1, b_lock := \<lparr>sl_locked = True, sl_pid = cur_pid s\<rparr>\<rparr>) s"
      unfolding lock_buf_eq by (auto split: if_splits)
    have "b_refcnt (bufs s j) = 0" using ref [OF j(1) un] .
    then have s2: "s' = upd_buf j (lock_as s) s" unfolding s' upd_buf_def lock_as_def by simp
    show ?thesis unfolding i using j un s2 by simp
  next
    case None
    then have none: "\<forall>j<NBUF. \<not> ?q j" using find_lru(1) [OF xs, of ?q] by simp
    have run2: "(case List.find ?v (rev xs) of
           Some i \<Rightarrow> lock_buf i (upd_buf i (\<lambda>b. b\<lparr>b_dev := dev, b_blockno := n, b_flags := 0, b_refcnt := 1\<rparr>) s)
         | None \<Rightarrow> Inl (Panic ''bget: no buffers'')) = Inr (i, s')"
      using run unfolding bget_eq [OF xs] None option.case .
    then obtain j where j: "List.find ?v (rev xs) = Some j" by (cases "List.find ?v (rev xs)") simp_all
    from run2 have un: "\<not> locked s j" and i: "i = j"
      and s': "s' = upd_buf j (\<lambda>b. b\<lparr>b_dev := dev, b_blockno := n, b_flags := 0, b_refcnt := 1,
                 b_lock := \<lparr>sl_locked = True, sl_pid = cur_pid s\<rparr>\<rparr>) s"
      unfolding j option.case lock_buf_eq by (auto split: if_splits)
    have v: "j < NBUF" "?v j" using find_lru(4) [OF xs j] by simp_all
    have s2: "s' = upd_buf j (\<lambda>b. lock_as s (recycle dev n b)) s"
      unfolding s' lock_as_def recycle_def by simp
    have d: "\<not> dirty s j" using v by (simp add: dirty_def)
    show ?thesis unfolding i using v(1) un none d s2 by blast
  qed
qed

section \<open>What the operations promise\<close>

text \<open>A state in which only the held buffer \<open>i\<close> changed.\<close>

lemma iderw_read:
  assumes "b_flags (bufs s i) AND B_VALID = 0" and "b_flags (bufs s i) AND B_DIRTY = 0"
    and "iderw i s = Inr s'"
  shows "b_dev (bufs s i) = 1 \<and> b_blockno (bufs s i) < disksize s \<and>
    s' = upd_buf i (\<lambda>b. b\<lparr>b_data := memdisk s (b_blockno b), b_flags := b_flags b OR B_VALID\<rparr>) s"
  using assms by (auto simp: iderw_def Let_def split: if_splits)

lemma pinned_cong:
  assumes "\<And>i. i < NBUF \<Longrightarrow> b_dev (bufs s' i) = b_dev (bufs s i) \<and> b_blockno (bufs s' i) = b_blockno (bufs s i) \<and>
      b_flags (bufs s' i) AND B_DIRTY = b_flags (bufs s i) AND B_DIRTY"
  shows "pinned s' = pinned s"
  using assms by (auto simp: pinned_def cached_def dirty_def)

text \<open>What \<open>bread\<close> leaves behind.\<close>

definition bread_post :: "'a bio_scheme \<Rightarrow> nat \<Rightarrow> nat \<Rightarrow> 'a bio_scheme \<Rightarrow> bool" where
  "bread_post s n i s' \<longleftrightarrow> bio_inv s' \<and> holds s' i n \<and> \<not> locked s i \<and> b_data (bufs s' i) = blk s n \<and>
     (\<not> dirty s' i \<longrightarrow> b_data (bufs s' i) = memdisk s' n) \<and>
     blk s' = blk s \<and> memdisk s' = memdisk s \<and> dwrites s' = dwrites s \<and> disksize s' = disksize s \<and>
     cur_pid s' = cur_pid s \<and> bio.more s' = bio.more s \<and> pinned s' = pinned s \<and>
     (\<forall>j. j \<noteq> i \<longrightarrow> bufs s' j = bufs s j)"

lemma bio_invI:
  assumes "lru s xs" and "uniq s"
    and "\<And>i. i < NBUF \<Longrightarrow> b_refcnt (bufs s i) = (if locked s i then 1 else 0)"
    and "\<And>i. i < NBUF \<Longrightarrow> dirty s i \<or> locked s i \<Longrightarrow> valid s i \<and> b_dev (bufs s i) = 1"
    and "\<And>i. i < NBUF \<Longrightarrow> \<not> locked s i \<Longrightarrow> b_dev (bufs s i) = 1 \<Longrightarrow> valid s i \<Longrightarrow> \<not> dirty s i \<Longrightarrow>
        b_data (bufs s i) = memdisk s (b_blockno (bufs s i))"
  shows "bio_inv s"
  using assms unfolding bio_inv_def by blast

lemma bio_invD:
  assumes "bio_inv s"
  shows "\<exists>xs. lru s xs" and "uniq s"
    and "\<And>i. i < NBUF \<Longrightarrow> b_refcnt (bufs s i) = (if locked s i then 1 else 0)"
    and "\<And>i. i < NBUF \<Longrightarrow> dirty s i \<or> locked s i \<Longrightarrow> valid s i \<and> b_dev (bufs s i) = 1"
    and "\<And>i. i < NBUF \<Longrightarrow> \<not> locked s i \<Longrightarrow> b_dev (bufs s i) = 1 \<Longrightarrow> valid s i \<Longrightarrow> \<not> dirty s i \<Longrightarrow>
        b_data (bufs s i) = memdisk s (b_blockno (bufs s i))"
  using assms unfolding bio_inv_def by blast+

text \<open>The invariant is kept when one buffer is replaced by a locked one.\<close>

lemma bio_inv_upd_locked:
  assumes inv: "bio_inv s" and "i < NBUF"
    and f: "sl_locked (b_lock (f (bufs s i)))" "b_refcnt (f (bufs s i)) = 1"
      "\<And>b. b_next (f b) = b_next b" "\<And>b. b_prev (f b) = b_prev b"
    and v: "b_flags (f (bufs s i)) AND B_VALID \<noteq> 0" "b_dev (f (bufs s i)) = 1"
    and u: "uniq (upd_buf i f s)"
  shows "bio_inv (upd_buf i f s)"
proof -
  obtain xs where "lru s xs" using bio_invD(1) [OF inv] by blast
  then have "lru (upd_buf i f s) xs" using lru_upd_buf [of f i s xs] f(3,4) by simp
  then show ?thesis
  proof (rule bio_invI [OF _ u])
    fix j assume j: "j < NBUF"
    show "b_refcnt (bufs (upd_buf i f s) j) = (if locked (upd_buf i f s) j then 1 else 0)"
      using bio_invD(3) [OF inv j] f(1,2) by simp
    show "valid (upd_buf i f s) j \<and> b_dev (bufs (upd_buf i f s) j) = 1"
      if "dirty (upd_buf i f s) j \<or> locked (upd_buf i f s) j"
      using bio_invD(4) [OF inv j] v that by (auto simp: valid_def dirty_def split: if_splits)
    assume "\<not> locked (upd_buf i f s) j" "b_dev (bufs (upd_buf i f s) j) = 1"
      "valid (upd_buf i f s) j" "\<not> dirty (upd_buf i f s) j"
    then show "b_data (bufs (upd_buf i f s) j) = memdisk (upd_buf i f s) (b_blockno (bufs (upd_buf i f s) j))"
      using bio_invD(5) [OF inv j] f(1) by (auto simp: valid_def dirty_def split: if_splits)
  qed
qed

lemma uniqI:
  assumes "\<And>i j. i < NBUF \<Longrightarrow> j < NBUF \<Longrightarrow> b_dev (bufs s i) \<noteq> 0 \<Longrightarrow> b_dev (bufs s i) = b_dev (bufs s j) \<Longrightarrow>
      b_blockno (bufs s i) = b_blockno (bufs s j) \<Longrightarrow> i = j"
  shows "uniq s"
  unfolding uniq_def using assms by blast

lemma uniqE:
  assumes "uniq s" and "i < NBUF" and "j < NBUF" and "b_dev (bufs s i) \<noteq> 0" and "b_dev (bufs s i) = b_dev (bufs s j)"
    and "b_blockno (bufs s i) = b_blockno (bufs s j)"
  shows "i = j"
  using assms unfolding uniq_def by blast

lemma uniq_upd_same:
  assumes "uniq s" and "b_dev (f (bufs s i)) = b_dev (bufs s i)" and "b_blockno (f (bufs s i)) = b_blockno (bufs s i)"
  shows "uniq (upd_buf i f s)"
proof (rule uniqI)
  fix a b
  assume "a < NBUF" "b < NBUF" "b_dev (bufs (upd_buf i f s) a) \<noteq> 0"
    "b_dev (bufs (upd_buf i f s) a) = b_dev (bufs (upd_buf i f s) b)"
    "b_blockno (bufs (upd_buf i f s) a) = b_blockno (bufs (upd_buf i f s) b)"
  then show "a = b"
    by (intro uniqE [OF assms(1), of a b]) (simp_all add: assms(2,3) split: if_splits)
qed

lemma uniq_upd_fresh:
  assumes "uniq s" and fresh: "\<And>j. j < NBUF \<Longrightarrow>
      b_dev (bufs s j) \<noteq> b_dev (f (bufs s i)) \<or> b_blockno (bufs s j) \<noteq> b_blockno (f (bufs s i))"
  shows "uniq (upd_buf i f s)"
proof (rule uniqI)
  fix a b
  assume ab: "a < NBUF" "b < NBUF" "b_dev (bufs (upd_buf i f s) a) \<noteq> 0"
    "b_dev (bufs (upd_buf i f s) a) = b_dev (bufs (upd_buf i f s) b)"
    "b_blockno (bufs (upd_buf i f s) a) = b_blockno (bufs (upd_buf i f s) b)"
  show "a = b"
  proof (cases "a = i \<or> b = i")
    case True
    with ab fresh [of a] fresh [of b] show ?thesis by (auto split: if_splits)
  next
    case False
    with ab show ?thesis by (intro uniqE [OF assms(1), of a b]) simp_all
  qed
qed

lemma blk_other:
  assumes "uniq s" "uniq s'" and "\<And>j. j < NBUF \<Longrightarrow> j \<noteq> i \<Longrightarrow> bufs s' j = bufs s j" and "memdisk s' = memdisk s"
    and "\<not> cached s m i" "\<not> cached s' m i"
  shows "blk s' m = blk s m"
proof (cases "\<exists>j<NBUF. cached s m j")
  case True
  then obtain j where j: "j < NBUF" "cached s m j" by blast
  with assms(5) have ji: "j \<noteq> i" by blast
  with j assms(3) have "cached s' m j" by (simp add: cached_def)
  with j ji show ?thesis
    using blk_cached [OF assms(1), of j m] blk_cached [OF assms(2), of j m] assms(3) [OF j(1) ji] assms(4)
    by (simp add: valid_def)
next
  case False
  then have "\<not> cached s' m j" if "j < NBUF" for j
    using assms(3) [OF that] assms(6) that by (cases "j = i") (auto simp: cached_def)
  with False show ?thesis
    using blk_uncached [of s m] blk_uncached [of s' m] assms(4) by auto
qed

lemma bread_post_upd:
  assumes inv: "bio_inv s" and i: "i < NBUF" "\<not> locked s i" and s': "s' = upd_buf i g s"
    and g: "b_dev (g (bufs s i)) = 1" "b_blockno (g (bufs s i)) = n" "b_flags (g (bufs s i)) AND B_VALID \<noteq> 0"
      "sl_locked (b_lock (g (bufs s i)))" "b_refcnt (g (bufs s i)) = 1"
      "\<And>b. b_next (g b) = b_next b" "\<And>b. b_prev (g b) = b_prev b"
    and org: "cached s n i \<or> (\<forall>j<NBUF. \<not> cached s n j) \<and> \<not> dirty s i"
    and data: "b_data (g (bufs s i)) = blk s n"
    and dirt: "b_flags (g (bufs s i)) AND B_DIRTY = (if cached s n i then b_flags (bufs s i) AND B_DIRTY else 0)"
  shows "bread_post s n i s'"
proof -
  note u = bio_invD(2) [OF inv]
  have u': "uniq s'"
  proof (cases "cached s n i")
    case True
    then show ?thesis unfolding s' by (intro uniq_upd_same [OF u]) (simp_all add: cached_def g)
  next
    case False
    with org have "\<forall>j<NBUF. \<not> cached s n j" by blast
    then show ?thesis unfolding s' by (intro uniq_upd_fresh [OF u]) (auto simp: cached_def g)
  qed
  have inv': "bio_inv s'"
    using u' unfolding s' by (intro bio_inv_upd_locked [OF inv i(1)]) (simp_all add: g)
  have held: "holds s' i n" using i g by (simp add: s' holds_def cached_def valid_def)
  have clean: "b_data (bufs s' i) = memdisk s' n" if "\<not> dirty s' i"
  proof (cases "cached s n i")
    case True
    then have "\<not> dirty s i" using that dirt by (simp add: s' dirty_def)
    then have "blk s n = memdisk s n"
      using blk_cached [OF u i(1) True] bio_invD(5) [OF inv i] True by (simp add: cached_def)
    then show ?thesis by (simp add: s' data)
  next
    case False
    with org have "blk s n = memdisk s n" using blk_uncached [of s n] by blast
    then show ?thesis by (simp add: s' data)
  qed
  have same: "blk s' m = blk s m" for m
  proof (cases "m = n")
    case True
    then show ?thesis using blk_holds [OF inv' held] data by (simp add: s')
  next
    case mn: False
    then have ni: "\<not> cached s' m i" using g by (simp add: s' cached_def)
    show ?thesis
    proof (cases "cached s m i")
      case True
      then have "\<not> cached s n i" using mn by (auto simp: cached_def)
      then have "\<not> dirty s i" using org by blast
      then have "blk s m = memdisk s m"
        using blk_cached [OF u i(1) True] bio_invD(5) [OF inv i] True by (auto simp: cached_def)
      moreover have "\<not> cached s' m j" if "j < NBUF" for j
        using uniqD [OF u i(1) that True] ni that by (cases "j = i") (auto simp: s' cached_def)
      then have "blk s' m = memdisk s' m" by (rule blk_uncached)
      ultimately show ?thesis by (simp add: s')
    next
      case False
      show ?thesis by (rule blk_other [OF u u' _ _ False ni]) (simp_all add: s')
    qed
  qed
  have "pinned s' = pinned s"
  proof -
    have "m \<in> pinned s' \<longleftrightarrow> m \<in> pinned s" for m
    proof -
      have "(cached s' m j \<and> dirty s' j) = (cached s m j \<and> dirty s j)" if "j < NBUF" for j
        using org dirt g(1,2) that by (cases "j = i") (auto simp: s' cached_def dirty_def split: if_splits)
      then show ?thesis by (auto simp: pinned_def)
    qed
    then show ?thesis by blast
  qed
  with inv' held clean same i data show ?thesis by (auto simp: bread_post_def s' fun_eq_iff)
qed

lemma bread_Inr:
  assumes inv: "bio_inv s" and run: "bread 1 n s = Inr (i, s')"
  shows "bread_post s n i s'"
proof -
  obtain s1 where get: "bget 1 n s = Inr (i, s1)"
    and rest: "(if b_flags (bufs s1 i) AND B_VALID = 0 then bnd (iderw i s1) (\<lambda>s. Inr (i, s)) else Inr (i, s1)) = Inr (i, s')"
    using run by (auto simp: bread_def bnd_Inr_iff split: if_splits)
  note u = bio_invD(2) [OF inv]
  from bget_Inr [OF inv get] have i: "i < NBUF" "\<not> locked s i" by simp_all
  from bget_Inr [OF inv get] consider (hit) "cached s n i" "s1 = upd_buf i (lock_as s) s"
    | (miss) "\<forall>j<NBUF. \<not> cached s n j" "\<not> dirty s i" "s1 = upd_buf i (\<lambda>b. lock_as s (recycle 1 n b)) s"
    by (auto simp: cached_def)
  then show ?thesis
  proof cases
    case hit
    show ?thesis
    proof (cases "valid s i")
      case True
      then have "s' = upd_buf i (lock_as s) s" using rest hit by (simp add: valid_def)
      then show ?thesis
        by (rule bread_post_upd [OF inv i])
          (use hit True blk_cached [OF u i(1) hit(1)] in \<open>auto simp: cached_def valid_def\<close>)
    next
      case False
      then have nd: "\<not> dirty s i" using bio_invD(4) [OF inv i(1)] by blast
      have "s' = upd_buf i (\<lambda>b. (lock_as s b)\<lparr>b_data := memdisk s (b_blockno b), b_flags := b_flags b OR B_VALID\<rparr>) s"
        using rest False nd iderw_read [of s1 i s'] unfolding hit(2)
        by (auto simp: valid_def dirty_def bnd_Inr_iff)
      then show ?thesis
        by (rule bread_post_upd [OF inv i])
          (use hit False nd blk_cached [OF u i(1) hit(1)] in \<open>auto simp: cached_def valid_def dirty_def flag_simps\<close>)
    qed
  next
    case miss
    have "s' = upd_buf i (\<lambda>b. (lock_as s (recycle 1 n b))\<lparr>b_data := memdisk s n, b_flags := B_VALID\<rparr>) s"
      using rest iderw_read [of s1 i s'] unfolding miss(3) by (auto simp: bnd_Inr_iff)
    then show ?thesis
      by (rule bread_post_upd [OF inv i])
        (use miss i(1) blk_uncached [of s n] in \<open>auto simp: cached_def\<close>)
  qed
qed

end
