(* ===== verification/Cache.thy ===== *)
theory Cache
  imports Bio
begin

text \<open>
  The contract of the buffer cache: what \<^verbatim>\<open>bread\<close>, \<^verbatim>\<open>bwrite\<close>, \<^verbatim>\<open>brelse\<close> and a change of
  \<^verbatim>\<open>b->data\<close> promise to the log and the file system, stated over the logical contents \<open>blk\<close> of
  the disk, the set \<open>pinned\<close> of blocks with a dirty buffer, and the disk itself.
\<close>

section \<open>Changes by the holder of a buffer\<close>

lemma set_data_simps [simp]:
  "bufs (set_data i f s) j = (if j = i then (bufs s i)\<lparr>b_data := f (b_data (bufs s i))\<rparr> else bufs s j)"
  "memdisk (set_data i f s) = memdisk s" "disksize (set_data i f s) = disksize s"
  "dwrites (set_data i f s) = dwrites s" "cur_pid (set_data i f s) = cur_pid s"
  "bio.more (set_data i f s) = bio.more s"
  by (simp_all add: set_data_def)

lemma flags_of_upd:
  "valid (upd_buf i f s) j = (if j = i then b_flags (f (bufs s i)) AND B_VALID \<noteq> 0 else valid s j)"
  "dirty (upd_buf i f s) j = (if j = i then b_flags (f (bufs s i)) AND B_DIRTY \<noteq> 0 else dirty s j)"
  "cached (upd_buf i f s) n j = (if j = i then b_dev (f (bufs s i)) = 1 \<and> b_blockno (f (bufs s i)) = n else cached s n j)"
  by (simp_all add: valid_def dirty_def cached_def)

text \<open>The holder of block \<open>n\<close> may change its data and its dirty flag.\<close>

lemma holder_upd:
  assumes inv: "bio_inv s" and h: "holds s i n" and s': "s' = upd_buf i g s"
    and g: "b_dev (g (bufs s i)) = 1" "b_blockno (g (bufs s i)) = n" "b_flags (g (bufs s i)) AND B_VALID \<noteq> 0"
      "b_lock (g (bufs s i)) = b_lock (bufs s i)" "b_refcnt (g (bufs s i)) = b_refcnt (bufs s i)"
      "\<And>b. b_next (g b) = b_next b" "\<And>b. b_prev (g b) = b_prev b"
  shows "bio_inv s'" and "holds s' i n" and "blk s' = (blk s)(n := b_data (g (bufs s i)))"
    and "\<And>j m. j \<noteq> i \<Longrightarrow> holds s' j m = holds s j m"
    and "pinned s' = (if b_flags (g (bufs s i)) AND B_DIRTY \<noteq> 0 then insert n (pinned s) else pinned s - {n})"
proof -
  note u = bio_invD(2) [OF inv]
  have i: "i < NBUF" "locked s i" "cached s n i" using h by (simp_all add: holds_def)
  have u': "uniq s'" unfolding s' by (rule uniq_upd_same [OF u]) (use g i in \<open>simp_all add: cached_def\<close>)
  have "b_refcnt (bufs s i) = 1" using bio_invD(3) [OF inv i(1)] i(2) by simp
  then show inv': "bio_inv s'"
    using u' unfolding s' by (intro bio_inv_upd_locked [OF inv i(1)]) (simp_all add: g i)
  show h': "holds s' i n" using i g by (simp add: s' holds_def cached_def valid_def)
  show "holds s' j m = holds s j m" if "j \<noteq> i" for j m
    using that by (simp add: s' holds_def flags_of_upd)
  show "blk s' = (blk s)(n := b_data (g (bufs s i)))"
  proof
    fix m
    show "blk s' m = ((blk s)(n := b_data (g (bufs s i)))) m"
    proof (cases "m = n")
      case True
      then show ?thesis using blk_holds [OF inv' h'] by (simp add: s')
    next
      case False
      then have "\<not> cached s m i" "\<not> cached s' m i" using i g by (auto simp: s' cached_def)
      then have "blk s' m = blk s m" by (intro blk_other [OF u u', of i]) (simp_all add: s')
      with False show ?thesis by simp
    qed
  qed
  have other: "cached s' m j \<and> dirty s' j \<longleftrightarrow> cached s m j \<and> dirty s j" if "j \<noteq> i" for m j
    using that by (simp add: s' flags_of_upd)
  have no_other: "\<not> cached s n j" if "j \<noteq> i" "j < NBUF" for j using uniqD [OF u i(1) that(2) i(3)] that by blast
  have "m \<in> pinned s' \<longleftrightarrow> (if m = n then dirty s' i else m \<in> pinned s)" for m
  proof (cases "m = n")
    case True
    have "cached s' n i" using g by (simp add: s' cached_def)
    moreover have "j = i" if "j < NBUF" "cached s' n j" "dirty s' j" for j
      using other [of j n] no_other [of j] that by blast
    ultimately have "n \<in> pinned s' \<longleftrightarrow> dirty s' i" using i(1) unfolding pinned_def mem_Collect_eq by blast
    with True show ?thesis by simp
  next
    case False
    then have "\<not> cached s m i" "\<not> cached s' m i" using i g by (auto simp: s' cached_def)
    then have "cached s' m j \<and> dirty s' j \<longleftrightarrow> cached s m j \<and> dirty s j" for j
      by (cases "j = i") (simp_all add: other)
    then have "m \<in> pinned s' \<longleftrightarrow> m \<in> pinned s" unfolding pinned_def mem_Collect_eq by blast
    with False show ?thesis by simp
  qed
  note mem = this
  have d: "dirty s' i \<longleftrightarrow> b_flags (g (bufs s i)) AND B_DIRTY \<noteq> 0" by (simp add: s' dirty_def)
  show "pinned s' = (if b_flags (g (bufs s i)) AND B_DIRTY \<noteq> 0 then insert n (pinned s) else pinned s - {n})"
    by (rule set_eqI) (simp add: mem d)
qed

lemma holds_dirty_pinned:
  assumes "bio_inv s" and "holds s i n"
  shows "dirty s i \<longleftrightarrow> n \<in> pinned s"
proof -
  have i: "i < NBUF" "cached s n i" using assms(2) by (simp_all add: holds_def)
  then have "j = i" if "j < NBUF" "cached s n j" for j
    using uniqD [OF bio_invD(2) [OF assms(1)] that(1) i(1) that(2)] by blast
  with i show ?thesis unfolding pinned_def mem_Collect_eq by blast
qed

lemma set_data_holder:
  assumes "bio_inv s" and "holds s i n"
  shows "bio_inv (set_data i f s)" and "holds (set_data i f s) i n"
    and "blk (set_data i f s) = (blk s)(n := f (b_data (bufs s i)))"
    and "\<And>j m. j \<noteq> i \<Longrightarrow> holds (set_data i f s) j m = holds s j m"
    and "pinned (set_data i f s) = pinned s"
proof -
  note L = holder_upd [OF assms set_data_def [of i f s]]
  have c: "b_dev (bufs s i) = 1" "b_blockno (bufs s i) = n" "b_flags (bufs s i) AND B_VALID \<noteq> 0"
    using assms(2) by (simp_all add: holds_def cached_def valid_def)
  show "bio_inv (set_data i f s)" by (rule L(1)) (simp_all add: c)
  show "holds (set_data i f s) i n" by (rule L(2)) (simp_all add: c)
  show "blk (set_data i f s) = (blk s)(n := f (b_data (bufs s i)))" by (subst L(3)) (simp_all add: c)
  show "\<And>j m. j \<noteq> i \<Longrightarrow> holds (set_data i f s) j m = holds s j m" by (rule L(4)) (simp_all add: c)
  show "pinned (set_data i f s) = pinned s"
    using holds_dirty_pinned [OF assms] by (subst L(5)) (auto simp: c dirty_def)
qed

text \<open>\<^verbatim>\<open>b->flags |= B_DIRTY\<close>\<close>

definition mark_dirty :: "nat \<Rightarrow> 'a bio_scheme \<Rightarrow> 'a bio_scheme" where
  "mark_dirty i s = upd_buf i (\<lambda>b. b\<lparr>b_flags := b_flags b OR B_DIRTY\<rparr>) s"

lemma mark_dirty_simps [simp]:
  "b_data (bufs (mark_dirty i s) j) = b_data (bufs s j)" "b_lock (bufs (mark_dirty i s) j) = b_lock (bufs s j)"
  "b_dev (bufs (mark_dirty i s) j) = b_dev (bufs s j)" "b_blockno (bufs (mark_dirty i s) j) = b_blockno (bufs s j)"
  "memdisk (mark_dirty i s) = memdisk s" "disksize (mark_dirty i s) = disksize s"
  "dwrites (mark_dirty i s) = dwrites s" "cur_pid (mark_dirty i s) = cur_pid s"
  "bio.more (mark_dirty i s) = bio.more s"
  by (simp_all add: mark_dirty_def)

lemma mark_dirty_holder:
  assumes "bio_inv s" and "holds s i n"
  shows "bio_inv (mark_dirty i s)" and "holds (mark_dirty i s) i n" and "blk (mark_dirty i s) = blk s"
    and "\<And>j m. j \<noteq> i \<Longrightarrow> holds (mark_dirty i s) j m = holds s j m"
    and "pinned (mark_dirty i s) = insert n (pinned s)"
    and "dirty (mark_dirty i s) i"
proof -
  note L = holder_upd [OF assms mark_dirty_def [of i s]]
  have c: "b_dev (bufs s i) = 1" "b_blockno (bufs s i) = n" "b_flags (bufs s i) AND B_VALID \<noteq> 0"
    using assms(2) by (simp_all add: holds_def cached_def valid_def)
  show "bio_inv (mark_dirty i s)" by (rule L(1)) (simp_all add: c flag_simps)
  show "holds (mark_dirty i s) i n" by (rule L(2)) (simp_all add: c flag_simps)
  show "blk (mark_dirty i s) = blk s"
    using blk_holds [OF assms] by (subst L(3)) (simp_all add: c flag_simps fun_upd_idem)
  show "\<And>j m. j \<noteq> i \<Longrightarrow> holds (mark_dirty i s) j m = holds s j m" by (rule L(4)) (simp_all add: c flag_simps)
  show "pinned (mark_dirty i s) = insert n (pinned s)" by (subst L(5)) (simp_all add: c flag_simps)
  show "dirty (mark_dirty i s) i" by (simp add: mark_dirty_def dirty_def flag_simps)
qed

text \<open>The disk's copy of a held block may change: nobody reads it while the buffer is held.\<close>

lemma disk_write_holder:
  assumes inv: "bio_inv s" and h: "holds s i n"
    and s': "s' = s\<lparr>memdisk := (memdisk s)(n := d), dwrites := w\<rparr>"
  shows "bio_inv s'" and "blk s' = blk s" and "pinned s' = pinned s" and "\<And>j m. holds s' j m = holds s j m"
proof -
  have c: "bufs s' = bufs s" by (simp add: s')
  have same: "cached s' m j = cached s m j" "valid s' j = valid s j" "dirty s' j = dirty s j" for m j
    by (simp_all add: c cached_def valid_def dirty_def)
  note u = bio_invD(2) [OF inv]
  have i: "i < NBUF" "cached s n i" "valid s i" "locked s i" using h by (simp_all add: holds_def)
  obtain xs where "lru s xs" using bio_invD(1) [OF inv] by blast
  then have "lru s' xs" using lru_cong [of s' s xs] by (simp add: c)
  then show "bio_inv s'"
  proof (rule bio_invI)
    show "uniq s'" using u by (simp add: uniq_def c)
    fix j assume j: "j < NBUF"
    show "b_refcnt (bufs s' j) = (if locked s' j then 1 else 0)" using bio_invD(3) [OF inv j] by (simp add: c)
    show "valid s' j \<and> b_dev (bufs s' j) = 1" if "dirty s' j \<or> locked s' j"
      using bio_invD(4) [OF inv j] that by (auto simp: same c)
    assume a: "\<not> locked s' j" "b_dev (bufs s' j) = 1" "valid s' j" "\<not> dirty s' j"
    then have "j \<noteq> i" using i(4) by (auto simp: c)
    then have "b_blockno (bufs s j) \<noteq> n"
      using uniqD [OF u i(1) j i(2)] a(2) by (auto simp: cached_def c)
    then show "b_data (bufs s' j) = memdisk s' (b_blockno (bufs s' j))"
      using bio_invD(5) [OF inv j] a by (simp add: same c) (simp add: s')
  qed
  then have u': "uniq s'" by (rule bio_invD)
  show "blk s' = blk s"
  proof
    fix m
    show "blk s' m = blk s m"
    proof (cases "m = n")
      case True
      then show ?thesis
        using blk_cached [OF u i(1,2)] blk_cached [OF u' i(1), of n] i by (simp add: same c)
    next
      case False
      then have "memdisk s' m = memdisk s m" by (simp add: s')
      moreover have "cached s' m = cached s m" "valid s' = valid s" using same by auto
      ultimately show ?thesis by (simp add: blk_def c del: upt_rec_numeral split: option.split)
    qed
  qed
  show "pinned s' = pinned s" by (simp add: pinned_def same)
  show "holds s' j m = holds s j m" for j m by (simp add: holds_def same c)
qed

lemma flag_cleared [flag_simps]: "((f :: 32 word) AND - 5) AND 4 = 0"
proof -
  have "(- 5 :: 32 word) = NOT 4" by simp
  then show ?thesis by (simp only: ac_simps) (simp add: bit_eq_iff bit_simps)
qed

definition bwrite_post :: "'a bio_scheme \<Rightarrow> nat \<Rightarrow> nat \<Rightarrow> 'a bio_scheme \<Rightarrow> bool" where
  "bwrite_post s n i s' \<longleftrightarrow> bio_inv s' \<and> holds s' i n \<and> \<not> dirty s' i \<and> b_data (bufs s' i) = b_data (bufs s i) \<and>
     blk s' = blk s \<and> memdisk s' = (memdisk s)(n := b_data (bufs s i)) \<and>
     dwrites s' = dwrites s @ [(n, b_data (bufs s i))] \<and> disksize s' = disksize s \<and>
     cur_pid s' = cur_pid s \<and> bio.more s' = bio.more s \<and> pinned s' = pinned s - {n} \<and>
     (\<forall>j. j \<noteq> i \<longrightarrow> bufs s' j = bufs s j)"

lemma bwrite_eq:
  assumes "holds s i n"
  shows "bwrite i s = (if disksize s \<le> n then Inl (Panic ''iderw: block out of range'')
    else Inr ((upd_buf i (\<lambda>b. b\<lparr>b_flags := ((b_flags b OR B_DIRTY) AND NOT B_DIRTY) OR B_VALID\<rparr>) s)
               \<lparr>memdisk := (memdisk s)(n := b_data (bufs s i)), dwrites := dwrites s @ [(n, b_data (bufs s i))]\<rparr>))"
  using assms
  by (simp add: bwrite_def iderw_def Let_def holds_def cached_def holdingsleep_def flag_simps) (simp add: upd_buf_def)

lemma bwrite_ok:
  assumes inv: "bio_inv s" and h: "holds s i n" and n: "n < disksize s"
  shows "\<exists>s'. bwrite i s = Inr s' \<and> bwrite_post s n i s'"
proof -
  let ?g = "\<lambda>b. b\<lparr>b_flags := ((b_flags b OR B_DIRTY) AND NOT B_DIRTY) OR B_VALID\<rparr>"
  let ?s1 = "upd_buf i ?g s"
  let ?s2 = "?s1\<lparr>memdisk := (memdisk ?s1)(n := b_data (bufs s i)), dwrites := dwrites s @ [(n, b_data (bufs s i))]\<rparr>"
  have run: "bwrite i s = Inr ?s2" using bwrite_eq [OF h] n by simp
  have c: "b_dev (bufs s i) = 1" "b_blockno (bufs s i) = n" using h by (simp_all add: holds_def cached_def)
  note L = holder_upd [OF inv h refl, of ?g]
  have 1: "bio_inv ?s1" "holds ?s1 i n" by (rule L(1) L(2); simp add: c flag_simps)+
  have 2: "blk ?s1 = blk s" using blk_holds [OF inv h] by (subst L(3)) (simp_all add: c flag_simps fun_upd_idem)
  have 3: "pinned ?s1 = pinned s - {n}" by (subst L(5)) (simp_all add: c flag_simps)
  note D = disk_write_holder [OF 1 refl, where d = "b_data (bufs s i)" and w = "dwrites s @ [(n, b_data (bufs s i))]"]
  have "bwrite_post s n i ?s2"
    unfolding bwrite_post_def using D 1 2 3 by (simp add: dirty_def flag_simps)
  with run show ?thesis by blast
qed

lemma bwrite_Inr:
  assumes "bio_inv s" and "holds s i n" and run: "bwrite i s = Inr s'"
  shows "bwrite_post s n i s'"
proof -
  have "n < disksize s" using bwrite_eq [OF assms(2)] run by (auto split: if_splits)
  with bwrite_ok [OF assms(1,2)] run show ?thesis by auto
qed

section \<open>Releasing a buffer\<close>

definition brelse_post :: "'a bio_scheme \<Rightarrow> nat \<Rightarrow> 'a bio_scheme \<Rightarrow> bool" where
  "brelse_post s i s' \<longleftrightarrow> bio_inv s' \<and> \<not> locked s' i \<and> blk s' = blk s \<and> memdisk s' = memdisk s \<and>
     dwrites s' = dwrites s \<and> disksize s' = disksize s \<and> cur_pid s' = cur_pid s \<and>
     bio.more s' = bio.more s \<and> pinned s' = pinned s \<and>
     (\<forall>j. dirty s' j = dirty s j \<and> b_data (bufs s' j) = b_data (bufs s j)) \<and>
     (\<forall>j. j \<noteq> i \<longrightarrow> locked s' j = locked s j) \<and> (\<forall>j m. cached s' m j = cached s m j \<and> valid s' j = valid s j)"

definition unlock_buf :: "buf \<Rightarrow> buf" where
  "unlock_buf b = b\<lparr>b_lock := releasesleep (b_lock b), b_refcnt := b_refcnt b - 1\<rparr>"

lemma brelse_eq:
  assumes "bio_inv s" and "i < NBUF" and "locked s i"
  shows "brelse i s = Inr (link_head i (unlink i (upd_buf i unlock_buf s)))"
  using assms bio_invD(3) [OF assms(1,2)]
  by (simp add: brelse_def holdingsleep_def Let_def unlock_buf_def [abs_def])

lemma brelse_lru:
  assumes "bio_inv s" and "i < NBUF" and "locked s i" and "lru s xs" and "brelse i s = Inr s'"
  shows "lru s' (i # remove1 i xs)"
proof -
  have "lru (upd_buf i unlock_buf s) xs"
    using assms(4) lru_upd_buf [of unlock_buf i s xs] by (simp add: unlock_buf_def)
  from lru_move_front [OF this assms(2)] show ?thesis using brelse_eq [OF assms(1,2,3)] assms(5) by simp
qed

lemma brelse_ok:
  assumes inv: "bio_inv s" and h: "holds s i n" and clean: "\<not> dirty s i \<Longrightarrow> b_data (bufs s i) = memdisk s n"
  shows "\<exists>s'. brelse i s = Inr s' \<and> brelse_post s i s'"
proof -
  have i: "i < NBUF" "locked s i" "cached s n i" using h by (simp_all add: holds_def)
  obtain s' where run: "brelse i s = Inr s'" and s': "s' = link_head i (unlink i (upd_buf i unlock_buf s))"
    using brelse_eq [OF inv i(1,2)] by blast
  obtain xs where "lru s xs" using bio_invD(1) [OF inv] by blast
  then have lru': "lru s' (i # remove1 i xs)" by (rule brelse_lru [OF inv i(1,2) _ run])
  have core: "b_dev (bufs s' j) = b_dev (bufs s j)" "b_blockno (bufs s' j) = b_blockno (bufs s j)"
    "b_flags (bufs s' j) = b_flags (bufs s j)" "b_data (bufs s' j) = b_data (bufs s j)" for j
    by (simp_all add: s' unlock_buf_def)
  have lk: "locked s' j = (j \<noteq> i \<and> locked s j)" for j by (simp add: s' unlock_buf_def releasesleep_def)
  have rc: "b_refcnt (bufs s' j) = (if j = i then b_refcnt (bufs s i) - 1 else b_refcnt (bufs s j))" for j
    by (simp add: s' unlock_buf_def)
  have same: "cached s' m j = cached s m j" "valid s' j = valid s j" "dirty s' j = dirty s j" for m j
    by (simp_all add: core cached_def valid_def dirty_def)
  have mem: "memdisk s' = memdisk s" by (simp add: s')
  have frame: "dwrites s' = dwrites s" "disksize s' = disksize s" "cur_pid s' = cur_pid s" "bio.more s' = bio.more s"
    by (simp_all add: s')
  have "bio_inv s'"
  proof (rule bio_invI [OF lru'])
    show "uniq s'" using bio_invD(2) [OF inv] by (simp add: uniq_def core)
    fix j assume j: "j < NBUF"
    show "b_refcnt (bufs s' j) = (if locked s' j then 1 else 0)"
      using bio_invD(3) [OF inv j] bio_invD(3) [OF inv i(1)] i(2) by (simp add: lk rc)
    show "valid s' j \<and> b_dev (bufs s' j) = 1" if "dirty s' j \<or> locked s' j"
      using bio_invD(4) [OF inv j] that by (auto simp: same core lk)
    assume a: "\<not> locked s' j" "b_dev (bufs s' j) = 1" "valid s' j" "\<not> dirty s' j"
    show "b_data (bufs s' j) = memdisk s' (b_blockno (bufs s' j))"
    proof (cases "j = i")
      case True
      with clean a i(3) show ?thesis by (simp add: core mem same cached_def)
    next
      case False
      with bio_invD(5) [OF inv j] a show ?thesis by (simp add: core mem same lk)
    qed
  qed
  moreover have "blk s' = blk s" by (rule blk_cong) (simp_all add: core mem)
  moreover have "pinned s' = pinned s" by (rule pinned_cong) (simp add: core)
  ultimately have "brelse_post s i s'" unfolding brelse_post_def by (simp add: core lk same mem frame)
  with run show ?thesis by blast
qed

lemma brelse_Inr:
  assumes "bio_inv s" and "holds s i n" and "\<not> dirty s i \<Longrightarrow> b_data (bufs s i) = memdisk s n"
    and "brelse i s = Inr s'"
  shows "brelse_post s i s'"
  using brelse_ok [OF assms(1,2)] assms(3,4) by auto


section \<open>Reading never fails while a buffer can be recycled\<close>

lemma iderw_read_eq:
  assumes "sl_locked (b_lock (bufs s i))" and "b_flags (bufs s i) AND B_VALID = 0" and "b_flags (bufs s i) AND B_DIRTY = 0"
    and "b_dev (bufs s i) = 1" and "b_blockno (bufs s i) < disksize s"
  shows "\<exists>s'. iderw i s = Inr s'"
  using assms by (simp add: iderw_def Let_def holdingsleep_def flag_simps)

lemma bget_ok:
  assumes inv: "bio_inv s" and free: "\<And>i. i < NBUF \<Longrightarrow> cached s n i \<Longrightarrow> \<not> locked s i"
    and victim: "(\<exists>i<NBUF. cached s n i) \<or> (\<exists>v<NBUF. \<not> locked s v \<and> \<not> dirty s v)"
  shows "\<exists>i s'. bget 1 n s = Inr (i, s')"
proof -
  obtain xs where xs: "lru s xs" using bio_invD(1) [OF inv] by blast
  let ?q = "\<lambda>i. b_dev (bufs s i) = 1 \<and> b_blockno (bufs s i) = n"
  let ?v = "\<lambda>i. b_refcnt (bufs s i) = 0 \<and> b_flags (bufs s i) AND B_DIRTY = 0"
  show ?thesis
  proof (cases "List.find ?q xs")
    case (Some j)
    have "j < NBUF" "?q j" using find_lru(2) [OF xs Some] by simp_all
    then have "\<not> locked s j" using free [of j] by (simp add: cached_def)
    then show ?thesis unfolding bget_eq [OF xs] Some option.case lock_buf_eq by simp
  next
    case None
    then have "\<not> (\<exists>i<NBUF. cached s n i)" using find_lru(1) [OF xs, of ?q] by (simp add: cached_def)
    with victim obtain v where v: "v < NBUF" "\<not> locked s v" "\<not> dirty s v" by blast
    have "?v v" using bio_invD(3) [OF inv v(1)] v by (simp add: dirty_def)
    then have "List.find ?v (rev xs) \<noteq> None" using find_lru(3) [OF xs, of ?v] v(1) by blast
    then obtain j where j: "List.find ?v (rev xs) = Some j" by blast
    have "j < NBUF" "b_refcnt (bufs s j) = 0" using find_lru(4) [OF xs j] by simp_all
    then have "\<not> locked s j" using bio_invD(3) [OF inv, of j] by (auto split: if_splits)
    then show ?thesis unfolding bget_eq [OF xs] None j option.case lock_buf_eq by simp
  qed
qed

lemma bread_ok:
  assumes inv: "bio_inv s" and n: "n < disksize s" and free: "\<And>i. i < NBUF \<Longrightarrow> cached s n i \<Longrightarrow> \<not> locked s i"
    and victim: "(\<exists>i<NBUF. cached s n i) \<or> (\<exists>v<NBUF. \<not> locked s v \<and> \<not> dirty s v)"
  shows "\<exists>i s'. bread 1 n s = Inr (i, s') \<and> bread_post s n i s'"
proof -
  obtain i s1 where get: "bget 1 n s = Inr (i, s1)" using bget_ok [OF inv free victim] by blast
  have "\<exists>s'. iderw i s1 = Inr s'" if nv: "b_flags (bufs s1 i) AND B_VALID = 0"
  proof -
    from bget_Inr [OF inv get] have i: "i < NBUF" by simp
    from bget_Inr [OF inv get] consider (hit) "cached s n i" "s1 = upd_buf i (lock_as s) s"
      | (miss) "s1 = upd_buf i (\<lambda>b. lock_as s (recycle 1 n b)) s"
      by (auto simp: cached_def)
    then show ?thesis
    proof cases
      case hit
      then have "\<not> dirty s i" using bio_invD(4) [OF inv i] nv by (auto simp: valid_def)
      then show ?thesis
        by (intro iderw_read_eq) (use hit nv n in \<open>simp_all add: cached_def dirty_def\<close>)
    next
      case miss
      then show ?thesis by (intro iderw_read_eq) (use n in simp_all)
    qed
  qed
  then have "\<exists>s'. bread 1 n s = Inr (i, s')"
    unfolding bread_def get bnd_simps prod.case by (cases "b_flags (bufs s1 i) AND B_VALID = 0") auto
  with bread_Inr [OF inv] show ?thesis by blast
qed

section \<open>Initialisation\<close>

text \<open>Memory of a kernel that has just been loaded: every buffer is zero.\<close>

definition bufs_zero :: "'a bio_scheme \<Rightarrow> bool" where
  "bufs_zero s \<longleftrightarrow> (\<forall>i<NBUF. b_flags (bufs s i) = 0 \<and> b_dev (bufs s i) = 0 \<and> b_refcnt (bufs s i) = 0)"

abbreviation binit_step :: "nat \<Rightarrow> 'a bio_scheme \<Rightarrow> 'a bio_scheme" where
  "binit_step i s \<equiv> link_head i (upd_buf i (\<lambda>b. b\<lparr>b_lock := initsleeplock\<rparr>) s)"

lemma binit_links:
  assumes "k \<le> NBUF" and "nxt s HEAD = HEAD" and "prv s HEAD = HEAD"
  shows "dseg (nxt (fold binit_step [0..<k] s)) (prv (fold binit_step [0..<k] s)) HEAD (rev [0..<k]) HEAD"
  using assms(1)
proof (induction k)
  case 0
  then show ?case using assms(2,3) by simp
next
  case (Suc k)
  let ?s = "fold binit_step [0..<k] s"
  have k: "k \<noteq> HEAD" using Suc.prems by simp
  have links: "nxt (upd_buf k (\<lambda>b. b\<lparr>b_lock := initsleeplock\<rparr>) ?s) = nxt ?s"
    "prv (upd_buf k (\<lambda>b. b\<lparr>b_lock := initsleeplock\<rparr>) ?s) = prv ?s"
    "nxt (upd_buf k (\<lambda>b. b\<lparr>b_lock := initsleeplock\<rparr>) ?s) HEAD = nxt ?s HEAD" by auto
  have "dseg (nxt (binit_step k ?s)) (prv (binit_step k ?s)) HEAD (k # rev [0..<k]) HEAD"
    unfolding link_head_links [OF k] links
    by (rule dseg_insert) (use Suc in auto)
  then show ?case by simp
qed

lemma binit_core:
  "b_flags (bufs (fold binit_step xs s) j) = b_flags (bufs s j)"
  "b_dev (bufs (fold binit_step xs s) j) = b_dev (bufs s j)"
  "b_refcnt (bufs (fold binit_step xs s) j) = b_refcnt (bufs s j)"
  "j \<in> set xs \<Longrightarrow> \<not> locked (fold binit_step xs s) j"
  "memdisk (fold binit_step xs s) = memdisk s" "disksize (fold binit_step xs s) = disksize s"
  "dwrites (fold binit_step xs s) = dwrites s" "cur_pid (fold binit_step xs s) = cur_pid s"
  "bio.more (fold binit_step xs s) = bio.more s"
proof -
  show "j \<in> set xs \<Longrightarrow> \<not> locked (fold binit_step xs s) j"
    by (induction xs rule: rev_induct) (auto simp: initsleeplock_def)
qed (induction xs arbitrary: s; simp)+

lemma binit_establishes:
  assumes "bufs_zero s"
  shows "bio_inv (binit s)" and "blk (binit s) = memdisk s" and "pinned (binit s) = {}"
    and "lru (binit s) (rev [0..<NBUF])" and "\<And>i. i < NBUF \<Longrightarrow> \<not> locked (binit s) i"
    and "memdisk (binit s) = memdisk s" and "disksize (binit s) = disksize s" and "dwrites (binit s) = dwrites s"
    and "cur_pid (binit s) = cur_pid s" and "bio.more (binit s) = bio.more s"
proof -
  let ?s0 = "upd_buf HEAD (\<lambda>b. b\<lparr>b_prev := HEAD, b_next := HEAD\<rparr>) s"
  have b: "binit s = fold binit_step [0..<NBUF] ?s0" by (simp add: binit_def Let_def)
  note core = binit_core [where xs = "[0..<NBUF]" and s = ?s0, folded b]
  have "dseg (nxt (binit s)) (prv (binit s)) HEAD (rev [0..<NBUF]) HEAD"
    unfolding b by (rule binit_links) simp_all
  then show lru: "lru (binit s) (rev [0..<NBUF])" by (auto simp: lru_def simp del: upt_rec_numeral)
  have z: "b_flags (bufs (binit s) i) = 0" "b_dev (bufs (binit s) i) = 0" "b_refcnt (bufs (binit s) i) = 0"
    if "i < NBUF" for i
    using assms that by (simp_all add: core bufs_zero_def)
  show un: "\<not> locked (binit s) i" if "i < NBUF" for i using core(4) [of i] that by simp
  have nc: "\<not> cached (binit s) n i" "\<not> dirty (binit s) i" if "i < NBUF" for n i
    using z [OF that] by (simp_all add: cached_def dirty_def)
  show "bio_inv (binit s)"
    by (rule bio_invI [OF lru]) (use z un nc in \<open>simp_all add: uniq_def\<close>)
  show "blk (binit s) = memdisk s" using blk_uncached [OF nc(1)] core(5) by fastforce
  show "pinned (binit s) = {}" using nc by (auto simp: pinned_def)
  show "memdisk (binit s) = memdisk s" "disksize (binit s) = disksize s" "dwrites (binit s) = dwrites s"
    "cur_pid (binit s) = cur_pid s" "bio.more (binit s) = bio.more s" using core by simp_all
qed

section \<open>The contract\<close>

text \<open>Blocks whose buffer the process holds.\<close>

definition held :: "'a bio_scheme \<Rightarrow> nat set" where
  "held s = {n. \<exists>i<NBUF. locked s i \<and> cached s n i}"

lemma pinned_image: "pinned s = (\<lambda>i. b_blockno (bufs s i)) ` {i. i < NBUF \<and> b_dev (bufs s i) = 1 \<and> dirty s i}"
  by (auto simp: pinned_def cached_def)

lemma held_image: "held s = (\<lambda>i. b_blockno (bufs s i)) ` {i. i < NBUF \<and> b_dev (bufs s i) = 1 \<and> locked s i}"
  by (auto simp: held_def cached_def)

lemma finite_pinned [simp]: "finite (pinned s)" and finite_held [simp]: "finite (held s)"
  by (simp_all add: pinned_image held_image)

text \<open>The buffers in use are as many as the blocks that are pinned or held.\<close>

lemma free_buffer:
  assumes inv: "bio_inv s" and "card (pinned s \<union> held s) < NBUF"
  obtains v where "v < NBUF" "\<not> locked s v" "\<not> dirty s v"
proof -
  define B where "B = {i. i < NBUF \<and> (dirty s i \<or> locked s i)}"
  have B: "i < NBUF" "b_dev (bufs s i) = 1" "dirty s i \<or> locked s i" if "i \<in> B" for i
    using that bio_invD(4) [OF inv, of i] by (auto simp: B_def)
  have "(\<lambda>i. b_blockno (bufs s i)) ` B \<subseteq> pinned s \<union> held s"
    unfolding pinned_image held_image using B by blast
  then have "card ((\<lambda>i. b_blockno (bufs s i)) ` B) \<le> card (pinned s \<union> held s)"
    by (rule card_mono [rotated]) simp
  moreover have "inj_on (\<lambda>i. b_blockno (bufs s i)) B"
    by (rule inj_onI) (rule uniqE [OF bio_invD(2) [OF inv]], simp_all add: B)
  then have "card ((\<lambda>i. b_blockno (bufs s i)) ` B) = card B" by (rule card_image)
  ultimately have "card B < NBUF" using assms(2) by linarith
  moreover have "card {..<NBUF} = NBUF" by (rule card_lessThan)
  ultimately have "B \<noteq> {..<NBUF}" by force
  moreover have "B \<subseteq> {..<NBUF}" using B by blast
  ultimately obtain v where "v < NBUF" "v \<notin> B" by blast
  then have "v < NBUF" "\<not> locked s v" "\<not> dirty s v" by (simp_all add: B_def)
  then show thesis using that by blast
qed

text \<open>
  The interface. \<open>held\<close> is the set of blocks in use by the process, \<open>pins\<close> those whose buffer
  must stay in the cache, \<open>handle s i n\<close> says that buffer \<open>i\<close> is the one of the held block \<open>n\<close>,
  \<open>rest\<close> is the part of the state the cache does not touch.
\<close>

locale block_cache =
  fixes ok :: "'s \<Rightarrow> bool" and contents :: "'s \<Rightarrow> nat \<Rightarrow> block" and disk :: "'s \<Rightarrow> nat \<Rightarrow> block"
    and writes :: "'s \<Rightarrow> (nat \<times> block) list" and size :: "'s \<Rightarrow> nat" and rest :: "'s \<Rightarrow> 'r"
    and pins :: "'s \<Rightarrow> nat set" and held :: "'s \<Rightarrow> nat set" and handle :: "'s \<Rightarrow> nat \<Rightarrow> nat \<Rightarrow> bool"
    and capacity :: nat
    and read :: "nat \<Rightarrow> 's \<Rightarrow> (nat \<times> 's) res" and data :: "'s \<Rightarrow> nat \<Rightarrow> block"
    and change :: "nat \<Rightarrow> (block \<Rightarrow> block) \<Rightarrow> 's \<Rightarrow> 's"
    and flush :: "nat \<Rightarrow> 's \<Rightarrow> 's res" and release :: "nat \<Rightarrow> 's \<Rightarrow> 's res"
  assumes handle_data: "ok s \<Longrightarrow> handle s i n \<Longrightarrow> data s i = contents s n"
    and clean: "ok s \<Longrightarrow> n \<notin> pins s \<Longrightarrow> n \<notin> held s \<Longrightarrow> contents s n = disk s n"
    and read_ok: "ok s \<Longrightarrow> n < size s \<Longrightarrow> n \<notin> held s \<Longrightarrow> n \<in> pins s \<or> card (pins s \<union> held s) < capacity \<Longrightarrow>
      \<exists>i s'. read n s = Inr (i, s') \<and> ok s' \<and> handle s' i n \<and> contents s' = contents s \<and> disk s' = disk s \<and>
        writes s' = writes s \<and> size s' = size s \<and> rest s' = rest s \<and> pins s' = pins s \<and>
        held s' = insert n (held s) \<and> (\<forall>j m. handle s j m \<longrightarrow> handle s' j m)"
    and change_ok: "ok s \<Longrightarrow> handle s i n \<Longrightarrow>
      ok (change i f s) \<and> handle (change i f s) = handle s \<and>
        contents (change i f s) = (contents s)(n := f (contents s n)) \<and> disk (change i f s) = disk s \<and>
        writes (change i f s) = writes s \<and> size (change i f s) = size s \<and> rest (change i f s) = rest s \<and>
        pins (change i f s) = pins s \<and> held (change i f s) = held s"
    and flush_ok: "ok s \<Longrightarrow> handle s i n \<Longrightarrow> n < size s \<Longrightarrow>
      \<exists>s'. flush i s = Inr s' \<and> ok s' \<and> handle s' = handle s \<and> contents s' = contents s \<and>
        disk s' = (disk s)(n := contents s n) \<and> writes s' = writes s @ [(n, contents s n)] \<and>
        size s' = size s \<and> rest s' = rest s \<and> pins s' = pins s - {n} \<and> held s' = held s"
    and release_ok: "ok s \<Longrightarrow> handle s i n \<Longrightarrow> n \<in> pins s \<or> contents s n = disk s n \<Longrightarrow>
      \<exists>s'. release i s = Inr s' \<and> ok s' \<and> contents s' = contents s \<and> disk s' = disk s \<and>
        writes s' = writes s \<and> size s' = size s \<and> rest s' = rest s \<and> pins s' = pins s \<and>
        held s' = held s - {n} \<and> (\<forall>j m. m \<noteq> n \<longrightarrow> handle s' j m = handle s j m)"
begin

lemma read:
  assumes "ok s" and "n < size s" and "n \<notin> held s" and "n \<in> pins s \<or> card (pins s \<union> held s) < capacity"
  obtains i s' where "read n s = Inr (i, s')" "ok s'" "handle s' i n" "data s' i = contents s n" "contents s' = contents s"
    "disk s' = disk s" "writes s' = writes s" "size s' = size s" "rest s' = rest s" "pins s' = pins s"
    "held s' = insert n (held s)" "\<And>j m. handle s j m \<Longrightarrow> handle s' j m"
proof -
  obtain i s' where 1: "read n s = Inr (i, s')" "ok s'" "handle s' i n" "contents s' = contents s" "disk s' = disk s"
    "writes s' = writes s" "size s' = size s" "rest s' = rest s" "pins s' = pins s"
    "held s' = insert n (held s)" "\<forall>j m. handle s j m \<longrightarrow> handle s' j m"
    using read_ok [OF assms] by blast
  show thesis by (rule that [of i s']) (use 1 handle_data [OF 1(2,3)] in simp_all)
qed

text \<open>Reading a block and letting it go.\<close>

lemma peek:
  assumes "ok s" and "n < size s" and "n \<notin> held s" and "n \<in> pins s \<or> card (pins s \<union> held s) < capacity"
  obtains i s1 s2 where "read n s = Inr (i, s1)" "data s1 i = contents s n" "release i s1 = Inr s2" "ok s2"
    "contents s2 = contents s" "disk s2 = disk s" "writes s2 = writes s" "size s2 = size s" "rest s2 = rest s"
    "rest s1 = rest s" "pins s2 = pins s" "held s2 = held s"
    "\<forall>j m. handle s j m \<and> m \<noteq> n \<longrightarrow> handle s2 j m"
proof -
  obtain i s1 where 1: "read n s = Inr (i, s1)" "ok s1" "handle s1 i n" "contents s1 = contents s" "disk s1 = disk s"
    "writes s1 = writes s" "size s1 = size s" "rest s1 = rest s" "pins s1 = pins s" "held s1 = insert n (held s)"
    "\<forall>j m. handle s j m \<longrightarrow> handle s1 j m"
    using read_ok [OF assms] by blast
  have c: "n \<in> pins s1 \<or> contents s1 n = disk s1 n" using clean [OF assms(1), of n] assms(3) 1 by auto
  obtain s2 where 2: "release i s1 = Inr s2" "ok s2" "contents s2 = contents s1" "disk s2 = disk s1"
    "writes s2 = writes s1" "size s2 = size s1" "rest s2 = rest s1" "pins s2 = pins s1" "held s2 = held s1 - {n}"
    "\<forall>j m. m \<noteq> n \<longrightarrow> handle s2 j m = handle s1 j m"
    using release_ok [OF 1(2,3) c] by blast
  have "data s1 i = contents s n" using handle_data [OF 1(2,3)] 1(4) by simp
  moreover have "held s2 = held s" using 2(9) 1(10) assms(3) by auto
  ultimately show thesis using 1 2 by (intro that [of i s1 s2]) simp_all
qed

text \<open>Overwriting a block on the disk.\<close>

lemma overwrite:
  assumes "ok s" and "n < size s" and "n \<notin> held s" and "n \<in> pins s \<or> card (pins s \<union> held s) < capacity"
  obtains i s1 s2 s3 where "read n s = Inr (i, s1)" "rest s1 = rest s" "flush i (change i f s1) = Inr s2"
    "release i s2 = Inr s3" "ok s3" "contents s3 = (contents s)(n := f (contents s n))"
    "disk s3 = (disk s)(n := f (contents s n))" "writes s3 = writes s @ [(n, f (contents s n))]"
    "size s3 = size s" "rest s3 = rest s" "pins s3 = pins s - {n}" "held s3 = held s"
proof -
  obtain i s1 where 1: "read n s = Inr (i, s1)" "ok s1" "handle s1 i n" "contents s1 = contents s" "disk s1 = disk s"
    "writes s1 = writes s" "size s1 = size s" "rest s1 = rest s" "pins s1 = pins s" "held s1 = insert n (held s)"
    using read_ok [OF assms] by blast
  define t where "t = change i f s1"
  have t: "ok t" "handle t i n" "contents t = (contents s)(n := f (contents s n))" "disk t = disk s"
    "writes t = writes s" "size t = size s" "rest t = rest s" "pins t = pins s" "held t = insert n (held s)"
    using change_ok [OF 1(2,3), of f] 1 by (simp_all add: t_def)
  obtain s2 where 2: "flush i t = Inr s2" "ok s2" "handle s2 = handle t" "contents s2 = contents t"
    "disk s2 = (disk t)(n := contents t n)" "writes s2 = writes t @ [(n, contents t n)]"
    "size s2 = size t" "rest s2 = rest t" "pins s2 = pins t - {n}" "held s2 = held t"
    using flush_ok [OF t(1,2)] t(6) assms(2) by auto
  have h2: "handle s2 i n" using 2(3) t(2) by simp
  have "contents s2 n = disk s2 n" using 2(4,5) by simp
  then obtain s3 where 3: "release i s2 = Inr s3" "ok s3" "contents s3 = contents s2" "disk s3 = disk s2"
    "writes s3 = writes s2" "size s3 = size s2" "rest s3 = rest s2" "pins s3 = pins s2" "held s3 = held s2 - {n}"
    using release_ok [OF 2(2) h2] by blast
  have "held s3 = held s" using 3(9) 2(10) t(9) assms(3) by auto
  then show thesis using 1 2 3 t by (intro that [of i s1 s2 s3]) (simp_all add: t_def)
qed

end

lemma held_cong:
  assumes "\<And>i. i < NBUF \<Longrightarrow> b_dev (bufs s' i) = b_dev (bufs s i) \<and> b_blockno (bufs s' i) = b_blockno (bufs s i) \<and>
      locked s' i = locked s i"
  shows "held s' = held s"
  using assms by (auto simp: held_def cached_def)

lemma handle_data_model: "bio_inv s \<Longrightarrow> holds s i n \<Longrightarrow> b_data (bufs s i) = blk s n"
  using blk_holds by metis

lemma holds_alt: "bio_inv s \<Longrightarrow> holds s i n \<longleftrightarrow> i < NBUF \<and> locked s i \<and> cached s n i"
  using bio_invD(4) [of s i] by (auto simp: holds_def)

lemma clean_model:
  assumes inv: "bio_inv s" and "n \<notin> pinned s" and "n \<notin> held s"
  shows "blk s n = memdisk s n"
proof (cases "\<exists>i<NBUF. cached s n i")
  case True
  then obtain i where i: "i < NBUF" "cached s n i" by blast
  then have "\<not> dirty s i" "\<not> locked s i" using assms(2,3) by (auto simp: pinned_def held_def)
  then show ?thesis
    using blk_cached [OF bio_invD(2) [OF inv] i] bio_invD(5) [OF inv i(1)] i(2) by (simp add: cached_def)
next
  case False
  then show ?thesis using blk_uncached by blast
qed

lemma bread_held:
  assumes "bread_post s n i s'"
  shows "held s' = insert n (held s)" and "\<And>j m. holds s j m \<Longrightarrow> holds s' j m"
proof -
  have h: "holds s' i n" and un: "\<not> locked s i" and same: "\<And>j. j \<noteq> i \<Longrightarrow> bufs s' j = bufs s j"
    using assms by (auto simp: bread_post_def)
  show "holds s' j m" if "holds s j m" for j m
  proof -
    have "j \<noteq> i" using that un by (auto simp: holds_def)
    then show ?thesis using that same [of j] by (simp add: holds_def cached_def valid_def)
  qed
  have i: "i < NBUF" "locked s' i" "cached s' m i \<longleftrightarrow> m = n" for m using h by (auto simp: holds_def cached_def)
  have o: "locked s' j \<and> cached s' m j \<longleftrightarrow> (j = i \<and> m = n) \<or> locked s j \<and> cached s m j" for j m
    using i(2,3) un same [of j] by (cases "j = i") (auto simp: cached_def)
  show "held s' = insert n (held s)" unfolding held_def using o i(1) by auto
qed

lemma read_model:
  assumes inv: "bio_inv s" and n: "n < disksize s" and nh: "n \<notin> held s"
    and room: "n \<in> pinned s \<or> card (pinned s \<union> held s) < NBUF"
  shows "\<exists>i s'. bread 1 n s = Inr (i, s') \<and> bio_inv s' \<and> holds s' i n \<and> blk s' = blk s \<and> memdisk s' = memdisk s \<and>
      dwrites s' = dwrites s \<and> disksize s' = disksize s \<and> (cur_pid s', bio.more s') = (cur_pid s, bio.more s) \<and>
      pinned s' = pinned s \<and> held s' = insert n (held s) \<and> (\<forall>j m. holds s j m \<longrightarrow> holds s' j m)"
proof -
  have free: "\<not> locked s i" if "i < NBUF" "cached s n i" for i using nh that by (auto simp: held_def)
  have "\<exists>i s'. bread 1 n s = Inr (i, s') \<and> bread_post s n i s'"
  proof (cases "\<exists>i<NBUF. cached s n i")
    case True
    then show ?thesis using bread_ok [OF inv n free] by blast
  next
    case False
    then have "n \<notin> pinned s" by (auto simp: pinned_def)
    then obtain v where "v < NBUF" "\<not> locked s v" "\<not> dirty s v" using room free_buffer [OF inv] by blast
    then show ?thesis using bread_ok [OF inv n free] by blast
  qed
  then obtain i s' where r: "bread 1 n s = Inr (i, s')" and p: "bread_post s n i s'" by blast
  have "bio_inv s'" "holds s' i n" "blk s' = blk s" "memdisk s' = memdisk s" "dwrites s' = dwrites s"
    "disksize s' = disksize s" "cur_pid s' = cur_pid s" "bio.more s' = bio.more s" "pinned s' = pinned s"
    using p by (simp_all add: bread_post_def)
  with r bread_held [OF p] show ?thesis by (intro exI [of _ i] exI [of _ s']) simp
qed

lemma change_model:
  assumes "bio_inv s" and "holds s i n"
  shows "bio_inv (set_data i f s) \<and> holds (set_data i f s) = holds s \<and>
      blk (set_data i f s) = (blk s)(n := f (blk s n)) \<and> memdisk (set_data i f s) = memdisk s \<and>
      dwrites (set_data i f s) = dwrites s \<and> disksize (set_data i f s) = disksize s \<and>
      (cur_pid (set_data i f s), bio.more (set_data i f s)) = (cur_pid s, bio.more s) \<and>
      pinned (set_data i f s) = pinned s \<and> held (set_data i f s) = held s"
proof -
  have "holds (set_data i f s) = holds s" by (auto simp: fun_eq_iff holds_def cached_def valid_def)
  moreover have "held (set_data i f s) = held s" by (rule held_cong) simp
  ultimately show ?thesis using set_data_holder(1,3,5) [OF assms, where f = f] blk_holds [OF assms] by simp
qed

lemma flush_model:
  assumes inv: "bio_inv s" and h: "holds s i n" and n: "n < disksize s"
  shows "\<exists>s'. bwrite i s = Inr s' \<and> bio_inv s' \<and> holds s' = holds s \<and> blk s' = blk s \<and>
        memdisk s' = (memdisk s)(n := blk s n) \<and> dwrites s' = dwrites s @ [(n, blk s n)] \<and>
        disksize s' = disksize s \<and> (cur_pid s', bio.more s') = (cur_pid s, bio.more s) \<and>
        pinned s' = pinned s - {n} \<and> held s' = held s"
proof -
  obtain s' where r: "bwrite i s = Inr s'" and p: "bwrite_post s n i s'" using bwrite_ok [OF assms] by blast
  have h': "holds s' i n" and same: "\<And>j. j \<noteq> i \<Longrightarrow> bufs s' j = bufs s j" using p by (simp_all add: bwrite_post_def)
  have "holds s' j m = holds s j m" for j m
    using h h' same [of j] by (cases "j = i") (auto simp: holds_def cached_def valid_def)
  then have 1: "holds s' = holds s" by (simp add: fun_eq_iff)
  have 2: "held s' = held s"
  proof (rule held_cong)
    fix j assume "j < NBUF"
    show "b_dev (bufs s' j) = b_dev (bufs s j) \<and> b_blockno (bufs s' j) = b_blockno (bufs s j) \<and> locked s' j = locked s j"
      using h h' same [of j] by (cases "j = i") (auto simp: holds_def cached_def)
  qed
  have "bio_inv s'" "blk s' = blk s" "memdisk s' = (memdisk s)(n := b_data (bufs s i))"
    "dwrites s' = dwrites s @ [(n, b_data (bufs s i))]" "disksize s' = disksize s" "cur_pid s' = cur_pid s"
    "bio.more s' = bio.more s" "pinned s' = pinned s - {n}" using p by (simp_all add: bwrite_post_def)
  with r 1 2 show ?thesis using blk_holds [OF inv h] by (intro exI [of _ s']) simp
qed

lemma release_model:
  assumes inv: "bio_inv s" and h: "holds s i n" and c: "n \<in> pinned s \<or> blk s n = memdisk s n"
  shows "\<exists>s'. brelse i s = Inr s' \<and> bio_inv s' \<and> blk s' = blk s \<and> memdisk s' = memdisk s \<and>
        dwrites s' = dwrites s \<and> disksize s' = disksize s \<and> (cur_pid s', bio.more s') = (cur_pid s, bio.more s) \<and>
        pinned s' = pinned s \<and> held s' = held s - {n} \<and> (\<forall>j m. m \<noteq> n \<longrightarrow> holds s' j m = holds s j m)"
proof -
  have "\<not> dirty s i \<Longrightarrow> b_data (bufs s i) = memdisk s n"
    using c holds_dirty_pinned [OF inv h] blk_holds [OF inv h] by simp
  then obtain s' where r: "brelse i s = Inr s'" and p: "brelse_post s i s'" using brelse_ok [OF inv h] by blast
  have un: "\<not> locked s' i" and lk: "\<And>j. j \<noteq> i \<Longrightarrow> locked s' j = locked s j"
    and cv: "\<And>j m. cached s' m j = cached s m j" "\<And>j. valid s' j = valid s j"
    using p by (simp_all add: brelse_post_def)
  have i: "i < NBUF" "cached s m i \<longleftrightarrow> m = n" for m using h by (auto simp: holds_def cached_def)
  have hold: "holds s' j m = holds s j m" if "m \<noteq> n" for j m
    using that i(2) un lk [of j] by (cases "j = i") (auto simp: holds_def cv)
  have "locked s' j \<and> cached s' m j \<longleftrightarrow> locked s j \<and> cached s m j \<and> m \<noteq> n" if "j < NBUF" for j m
  proof (cases "j = i")
    case True
    then show ?thesis using i(2) [of m] un by (simp add: cv)
  next
    case False
    then have "\<not> cached s n j" using uniqD [OF bio_invD(2) [OF inv] that i(1), of n] i(2) [of n] by blast
    then show ?thesis using lk [OF False] by (cases "m = n") (simp_all add: cv)
  qed
  then have "held s' = held s - {n}" unfolding held_def by blast
  moreover have "bio_inv s'" "blk s' = blk s" "memdisk s' = memdisk s" "dwrites s' = dwrites s"
    "disksize s' = disksize s" "cur_pid s' = cur_pid s" "bio.more s' = bio.more s" "pinned s' = pinned s"
    using p by (simp_all add: brelse_post_def)
  ultimately show ?thesis using r hold by (intro exI [of _ s']) simp
qed

interpretation bc: block_cache bio_inv blk memdisk dwrites disksize "\<lambda>s. (cur_pid s, bio.more s)" pinned held holds NBUF
  "bread 1" "\<lambda>s i. b_data (bufs s i)" set_data bwrite brelse
  by unfold_locales
    (fact handle_data_model clean_model read_model change_model flush_model release_model)+

text \<open>The layers above extend the state; the cache does not see their fields.\<close>

lemma bio_frame:
  fixes s :: "'a bio_scheme" and s' :: "'b bio_scheme"
  assumes "bufs s' = bufs s" and "memdisk s' = memdisk s"
  shows "bio_inv s' = bio_inv s" and "blk s' = blk s" and "pinned s' = pinned s" and "held s' = held s"
    and "holds s' = holds s" and "dirty s' = dirty s"
proof -
  have c: "cached s' = cached s" "valid s' = valid s" "dirty s' = dirty s"
    by (simp_all add: fun_eq_iff cached_def valid_def dirty_def assms)
  show "blk s' = blk s" by (rule ext) (simp add: blk_def c assms del: upt_rec_numeral split: option.split)
  show "pinned s' = pinned s" "held s' = held s" "holds s' = holds s" "dirty s' = dirty s"
    by (simp_all add: fun_eq_iff pinned_def held_def holds_def c assms)
  show "bio_inv s' = bio_inv s" by (simp add: bio_inv_def lru_def uniq_def c assms)
qed

section \<open>Properties\<close>

text \<open>The cache at boot, over a disk with contents \<open>D\<close>.\<close>

definition boot_bio :: "(nat \<Rightarrow> block) \<Rightarrow> nat \<Rightarrow> bio" where
  "boot_bio D sz = \<lparr>cur_pid = 0,
     bufs = (\<lambda>i. \<lparr>b_flags = 0, b_dev = 0, b_blockno = 0, b_lock = initsleeplock, b_refcnt = 0,
                 b_prev = 0, b_next = 0, b_data = zero_block\<rparr>),
     memdisk = D, disksize = sz, dwrites = []\<rparr>"

lemma bufs_zero_boot [simp]: "bufs_zero (boot_bio D sz)"
  by (simp add: bufs_zero_def boot_bio_def)

lemma boot_bio_simps [simp]:
  "memdisk (boot_bio D sz) = D" "disksize (boot_bio D sz) = sz" "dwrites (boot_bio D sz) = []"
  by (simp_all add: boot_bio_def)

lemma held_binit: "bufs_zero s \<Longrightarrow> held (binit s) = {}"
  using binit_establishes(5) [of s] by (auto simp: held_def)

lemmas boot_cache = binit_establishes [OF bufs_zero_boot, simplified] held_binit [OF bufs_zero_boot]

text \<open>
  A client of the cache beside the ideal disk \<open>A\<close> it should see: it may read any block, change and
  write a block it holds, and release one whose changes it has written (or pinned).
\<close>

inductive client_step :: "(nat \<Rightarrow> block) \<times> bio \<Rightarrow> (nat \<Rightarrow> block) \<times> bio \<Rightarrow> bool" where
  read: "bread 1 n s = Inr (i, s') \<Longrightarrow> client_step (A, s) (A, s')"
| change: "holds s i n \<Longrightarrow> client_step (A, s) (A(n := f (A n)), set_data i f s)"
| store: "holds s i n \<Longrightarrow> bwrite i s = Inr s' \<Longrightarrow> client_step (A, s) (A, s')"
| release: "holds s i n \<Longrightarrow> n \<in> pinned s \<or> b_data (bufs s i) = memdisk s n \<Longrightarrow> brelse i s = Inr s' \<Longrightarrow>
    client_step (A, s) (A, s')"

definition client_reach :: "(nat \<Rightarrow> block) \<Rightarrow> nat \<Rightarrow> (nat \<Rightarrow> block) \<Rightarrow> bio \<Rightarrow> bool" where
  "client_reach D sz A s \<longleftrightarrow> client_step\<^sup>*\<^sup>* (D, binit (boot_bio D sz)) (A, s)"

lemma client_step_inv:
  assumes "client_step x y" and "bio_inv (snd x) \<and> blk (snd x) = fst x"
  shows "bio_inv (snd y) \<and> blk (snd y) = fst y"
  using assms
proof (induction rule: client_step.induct)
  case (read n s i s' A)
  then show ?case using bread_Inr [of s n i s'] by (simp add: bread_post_def)
next
  case (change s i n A f)
  then show ?case using change_model [of s i n f] by simp
next
  case (store s i n s' A)
  then show ?case using bwrite_Inr [of s i n s'] by (simp add: bwrite_post_def)
next
  case (release s i n s' A)
  then show ?case using release_model [of s i n] blk_holds [of s i n] by auto
qed

lemma client_inv:
  assumes "client_reach D sz A s"
  shows "bio_inv s" and "blk s = A"
proof -
  have "client_step\<^sup>*\<^sup>* (D, binit (boot_bio D sz)) (A, s)" using assms by (simp add: client_reach_def)
  then have "bio_inv (snd (A, s)) \<and> blk (snd (A, s)) = fst (A, s)"
  proof (induction rule: rtranclp_induct)
    case base
    then show ?case by (simp add: boot_cache)
  next
    case (step y z)
    then show ?case using client_step_inv by blast
  qed
  then show "bio_inv s" "blk s = A" by simp_all
qed

text \<open>C8: Whatever its clients do between boot and now, the buffer cache shows one disk: reading a
  block gives the contents that were last stored into it, or the disk's original ones, in the only
  buffer that caches the block.\<close>

theorem bcache_shows_one_disk:
  assumes "client_reach D sz A s" and "bread 1 n s = Inr (i, s')"
  shows "b_data (bufs s' i) = A n \<and> locked s' i \<and> blk s' = A \<and>
    (\<forall>j<NBUF. b_dev (bufs s' j) = 1 \<and> b_blockno (bufs s' j) = n \<longrightarrow> j = i)"
proof -
  have post: "bread_post s n i s'" by (rule bread_Inr [OF client_inv(1) [OF assms(1)] assms(2)])
  then have h: "holds s' i n" and inv: "bio_inv s'" by (simp_all add: bread_post_def)
  have "b_data (bufs s' i) = A n" "blk s' = A" "locked s' i"
    using post client_inv(2) [OF assms(1)] h by (simp_all add: bread_post_def holds_def)
  moreover have "j = i" if "j < NBUF" "b_dev (bufs s' j) = 1 \<and> b_blockno (bufs s' j) = n" for j
    using uniqD [OF bio_invD(2) [OF inv], of j i n] h that by (simp add: holds_def cached_def)
  ultimately show ?thesis by blast
qed

theorem bcache_shows_one_disk_witness:
  "\<exists>i s'. bread 1 7 (binit (boot_bio (\<lambda>n i. word_of_nat n) 1000)) = Inr (i, s') \<and> b_data (bufs s' i) = (\<lambda>i. 7)"
proof -
  let ?D = "\<lambda>n i. word_of_nat n :: byte" and ?s = "binit (boot_bio (\<lambda>n i. word_of_nat n) 1000)"
  have "\<exists>i s'. bread 1 7 ?s = Inr (i, s')"
    using read_model [of ?s 7] by (auto simp: boot_cache)
  then obtain i s' where r: "bread 1 7 ?s = Inr (i, s')" by blast
  have "client_reach ?D 1000 ?D ?s" by (simp add: client_reach_def)
  from bcache_shows_one_disk [OF this r] r show ?thesis by auto
qed

text \<open>C15: Reading a block on the disk succeeds, with the block's contents in a locked buffer, as long
  as its buffer is not in use and it is either pinned in the cache or fewer than \<^verbatim>\<open>NBUF\<close> blocks are
  pinned or in use; nothing else changes.\<close>

theorem bread_returns_block:
  assumes "bio_inv s" and "n < disksize s" and "n \<notin> held s" and "n \<in> pinned s \<or> card (pinned s \<union> held s) < NBUF"
  shows "\<exists>i s'. bread 1 n s = Inr (i, s') \<and> b_data (bufs s' i) = blk s n \<and> bio_inv s' \<and> holds s' i n \<and>
    blk s' = blk s \<and> memdisk s' = memdisk s \<and> pinned s' = pinned s \<and> held s' = insert n (held s)"
  using read_model [OF assms] blk_holds by force

theorem bread_returns_block_witness:
  "\<exists>i s'. bread 1 999 (binit (boot_bio (\<lambda>_. zero_block) 1000)) = Inr (i, s') \<and> b_data (bufs s' i) = zero_block"
proof -
  let ?s = "binit (boot_bio (\<lambda>_. zero_block) 1000)"
  have "\<exists>i s'. bread 1 999 ?s = Inr (i, s') \<and> b_data (bufs s' i) = blk ?s 999 \<and> bio_inv s' \<and> holds s' i 999 \<and>
    blk s' = blk ?s \<and> memdisk s' = memdisk ?s \<and> pinned s' = pinned ?s \<and> held s' = insert 999 (held ?s)"
    by (rule bread_returns_block) (simp_all add: boot_cache)
  then show ?thesis by (auto simp: boot_cache)
qed



end
