(* ===== verification/Log.thy ===== *)
theory Log
  imports Cache
begin

text \<open>
  The write-ahead log of \<^verbatim>\<open>log.c\<close>. The state extends the one of the buffer cache by
  \<^verbatim>\<open>struct log\<close>. The members of \<^verbatim>\<open>lh.block[]\<close> are block numbers and are kept as the unsigned
  values the code compares and passes on; \<^verbatim>\<open>lh.n\<close>, \<^verbatim>\<open>size\<close> and \<^verbatim>\<open>outstanding\<close> are the signed
  integers of the source. A call of \<^verbatim>\<open>memmove\<close> over \<^verbatim>\<open>BSIZE\<close> bytes assigns all of \<^verbatim>\<open>data\<close>.
  \<^verbatim>\<open>wakeup(&log)\<close> concerns the sleepers only and leaves this state alone.
\<close>

section \<open>State\<close>

record log_state = bio +
  log_start :: nat
  log_size :: int
  outstanding :: int
  committing :: bool
  log_dev :: nat
  lh_n :: int
  lh_block :: "nat \<Rightarrow> nat"

record superblock =
  sb_size :: nat
  sb_nblocks :: nat
  sb_ninodes :: nat
  sb_nlog :: nat
  sb_logstart :: nat
  sb_inodestart :: nat
  sb_bmapstart :: nat

definition sb_of :: "block \<Rightarrow> superblock" where
  "sb_of d = \<lparr>sb_size = get_u32 d 0, sb_nblocks = get_u32 d 4, sb_ninodes = get_u32 d 8, sb_nlog = get_u32 d 12,
     sb_logstart = get_u32 d 16, sb_inodestart = get_u32 d 20, sb_bmapstart = get_u32 d 24\<rparr>"

definition readsb :: "nat \<Rightarrow> 'a bio_scheme \<Rightarrow> (superblock \<times> 'a bio_scheme) res" where
  "readsb dev s =
     bnd (bread dev 1 s) (\<lambda>(bp, s).
       let sb = sb_of (b_data (bufs s bp)) in bnd (brelse bp s) (\<lambda>s. Inr (sb, s)))"

section \<open>Operations\<close>

text \<open>One turn of the loop of \<^verbatim>\<open>install_trans\<close>.\<close>

definition install_one :: "nat \<Rightarrow> 'a log_state_scheme \<Rightarrow> 'a log_state_scheme res" where
  "install_one tail s =
     bnd (bread (log_dev s) (u32 (log_start s + tail + 1)) s) (\<lambda>(lbuf, s).
     bnd (bread (log_dev s) (lh_block s tail) s) (\<lambda>(dbuf, s).
     bnd (bwrite dbuf (set_data dbuf (\<lambda>_. b_data (bufs s lbuf)) s)) (\<lambda>s.
     bnd (brelse lbuf s) (brelse dbuf))))"

definition install_trans :: "'a log_state_scheme \<Rightarrow> 'a log_state_scheme res" where
  "install_trans s = rfold install_one [0..<nat (lh_n s)] s"

text \<open>A header that claims more than \<^verbatim>\<open>LOGSIZE\<close> blocks would be copied past the end of \<^verbatim>\<open>lh.block\<close>.\<close>

definition read_head :: "'a log_state_scheme \<Rightarrow> 'a log_state_scheme res" where
  "read_head s =
     bnd (bread (log_dev s) (log_start s) s) (\<lambda>(b, s).
       let d = b_data (bufs s b); n = get_s32 d 0 in
       if int LOGSIZE < n then Inl OutOfBounds
       else brelse b (s\<lparr>lh_n := n, lh_block := (\<lambda>i. if int i < n then get_u32 d (4 + 4 * i) else lh_block s i)\<rparr>))"

definition put_head :: "int \<Rightarrow> (nat \<Rightarrow> nat) \<Rightarrow> block \<Rightarrow> block" where
  "put_head n bs d = fold (\<lambda>i d. put_u32 (bs i) d (4 + 4 * i)) [0..<nat n] (put_s32 n d 0)"

definition write_head :: "'a log_state_scheme \<Rightarrow> 'a log_state_scheme res" where
  "write_head s =
     bnd (bread (log_dev s) (log_start s) s) (\<lambda>(b, s).
     bnd (bwrite b (set_data b (put_head (lh_n s) (lh_block s)) s)) (\<lambda>s.
     brelse b s))"

definition recover_from_log :: "'a log_state_scheme \<Rightarrow> 'a log_state_scheme res" where
  "recover_from_log s =
     bnd (read_head s) (\<lambda>s. bnd (install_trans s) (\<lambda>s. write_head (s\<lparr>lh_n := 0\<rparr>)))"

text \<open>\<^verbatim>\<open>sizeof(struct logheader)\<close> is 124, so the first panic of \<^verbatim>\<open>initlog\<close> cannot happen.\<close>

definition initlog :: "nat \<Rightarrow> 'a log_state_scheme \<Rightarrow> 'a log_state_scheme res" where
  "initlog dev s =
     (if BSIZE \<le> 4 + 4 * LOGSIZE then Inl (Panic ''initlog: too big logheader'')
      else bnd (readsb dev s) (\<lambda>(sb, s).
        recover_from_log (s\<lparr>log_start := sb_logstart sb, log_size := s32 (int (sb_nlog sb)), log_dev := dev\<rparr>)))"

definition begin_op :: "'a log_state_scheme \<Rightarrow> 'a log_state_scheme res" where
  "begin_op s =
     (if committing s then Inl Sleeps
      else if lh_n s + (outstanding s + 1) * int MAXOPBLOCKS > int LOGSIZE then Inl Sleeps
      else Inr (s\<lparr>outstanding := outstanding s + 1\<rparr>))"

text \<open>One turn of the loop of \<^verbatim>\<open>write_log\<close>.\<close>

definition write_log_one :: "nat \<Rightarrow> 'a log_state_scheme \<Rightarrow> 'a log_state_scheme res" where
  "write_log_one tail s =
     bnd (bread (log_dev s) (u32 (log_start s + tail + 1)) s) (\<lambda>(tob, s).
     bnd (bread (log_dev s) (lh_block s tail) s) (\<lambda>(fromb, s).
     bnd (bwrite tob (set_data tob (\<lambda>_. b_data (bufs s fromb)) s)) (\<lambda>s.
     bnd (brelse fromb s) (brelse tob))))"

definition write_log :: "'a log_state_scheme \<Rightarrow> 'a log_state_scheme res" where
  "write_log s = rfold write_log_one [0..<nat (lh_n s)] s"

definition commit :: "'a log_state_scheme \<Rightarrow> 'a log_state_scheme res" where
  "commit s =
     (if lh_n s > 0
      then bnd (write_log s) (\<lambda>s. bnd (write_head s) (\<lambda>s. bnd (install_trans s) (\<lambda>s. write_head (s\<lparr>lh_n := 0\<rparr>))))
      else Inr s)"

definition end_op :: "'a log_state_scheme \<Rightarrow> 'a log_state_scheme res" where
  "end_op s =
     (let s = s\<lparr>outstanding := outstanding s - 1\<rparr> in
      if committing s then Inl (Panic ''log.committing'')
      else if outstanding s = 0
        then bnd (commit (s\<lparr>committing := True\<rparr>)) (\<lambda>s. Inr (s\<lparr>committing := False\<rparr>))
        else Inr s)"

text \<open>The index at which the search of \<^verbatim>\<open>log_write\<close> stops.\<close>

definition log_slot :: "nat \<Rightarrow> 'a log_state_scheme \<Rightarrow> nat" where
  "log_slot b s = length (takeWhile (\<lambda>i. lh_block s i \<noteq> b) [0..<nat (lh_n s)])"

definition log_write :: "nat \<Rightarrow> 'a log_state_scheme \<Rightarrow> 'a log_state_scheme res" where
  "log_write b s =
     (if lh_n s \<ge> int LOGSIZE \<or> lh_n s \<ge> log_size s - 1 then Inl (Panic ''too big a transaction'')
      else if outstanding s < 1 then Inl (Panic ''log_write outside of trans'')
      else let i = log_slot (b_blockno (bufs s b)) s;
               s = s\<lparr>lh_block := (lh_block s)(i := b_blockno (bufs s b))\<rparr>;
               s = (if int i = lh_n s then s\<lparr>lh_n := lh_n s + 1\<rparr> else s)
           in Inr (mark_dirty b s))"

section \<open>Frames\<close>

text \<open>The log's fields live in \<open>bio.more\<close>, which the cache keeps.\<close>

lemma log_more:
  assumes "bio.more s' = bio.more s"
  shows "log_start s' = log_start s" and "log_size s' = log_size s" and "outstanding s' = outstanding s"
    and "committing s' = committing s" and "log_dev s' = log_dev s" and "lh_n s' = lh_n s"
    and "lh_block s' = lh_block s" and "log_state.more s' = log_state.more s"
  using assms by (cases s; cases s'; simp)+

text \<open>Updates of the log's fields are invisible to the cache.\<close>

lemma log_upd_frame [simp]:
  "bio_inv (s\<lparr>lh_n := n\<rparr>) = bio_inv s" "blk (s\<lparr>lh_n := n\<rparr>) = blk s" "pinned (s\<lparr>lh_n := n\<rparr>) = pinned s"
  "held (s\<lparr>lh_n := n\<rparr>) = held s" "holds (s\<lparr>lh_n := n\<rparr>) = holds s"
  "bio_inv (s\<lparr>lh_block := b\<rparr>) = bio_inv s" "blk (s\<lparr>lh_block := b\<rparr>) = blk s" "pinned (s\<lparr>lh_block := b\<rparr>) = pinned s"
  "held (s\<lparr>lh_block := b\<rparr>) = held s" "holds (s\<lparr>lh_block := b\<rparr>) = holds s"
  "bio_inv (s\<lparr>outstanding := o1\<rparr>) = bio_inv s" "blk (s\<lparr>outstanding := o1\<rparr>) = blk s" "pinned (s\<lparr>outstanding := o1\<rparr>) = pinned s"
  "held (s\<lparr>outstanding := o1\<rparr>) = held s" "holds (s\<lparr>outstanding := o1\<rparr>) = holds s"
  "bio_inv (s\<lparr>committing := c\<rparr>) = bio_inv s" "blk (s\<lparr>committing := c\<rparr>) = blk s" "pinned (s\<lparr>committing := c\<rparr>) = pinned s"
  "held (s\<lparr>committing := c\<rparr>) = held s" "holds (s\<lparr>committing := c\<rparr>) = holds s"
  "bio_inv (s\<lparr>log_start := a, log_size := z, log_dev := d\<rparr>) = bio_inv s"
  "blk (s\<lparr>log_start := a, log_size := z, log_dev := d\<rparr>) = blk s"
  "pinned (s\<lparr>log_start := a, log_size := z, log_dev := d\<rparr>) = pinned s"
  "held (s\<lparr>log_start := a, log_size := z, log_dev := d\<rparr>) = held s"
  "holds (s\<lparr>log_start := a, log_size := z, log_dev := d\<rparr>) = holds s"
  by (rule bio_frame; simp)+

lemma mark_dirty_more [simp]:
  "log_start (mark_dirty i s) = log_start s" "log_size (mark_dirty i s) = log_size s"
  "outstanding (mark_dirty i s) = outstanding s" "committing (mark_dirty i s) = committing s"
  "log_dev (mark_dirty i s) = log_dev s" "lh_n (mark_dirty i s) = lh_n s" "lh_block (mark_dirty i s) = lh_block s"
  "log_state.more (mark_dirty i s) = log_state.more s"
  by (simp_all add: mark_dirty_def upd_buf_def)

section \<open>Copying blocks through the cache\<close>

context block_cache
begin

text \<open>Two blocks read one after the other, as both loops over the log do.\<close>

lemma read_two:
  assumes "ok s" and "held s = {}" and "x < size s" "y < size s" "x \<noteq> y"
    and "x \<in> pins s \<or> card (pins s) < capacity" and "y \<in> pins s \<or> card (insert x (pins s)) < capacity"
  obtains i s1 j s2 where "read x s = Inr (i, s1)" "rest s1 = rest s" "read y s1 = Inr (j, s2)" "ok s2" "handle s2 i x"
    "handle s2 j y" "contents s2 = contents s" "disk s2 = disk s" "writes s2 = writes s" "size s2 = size s"
    "rest s2 = rest s" "pins s2 = pins s" "held s2 = {x, y}"
proof -
  obtain i s1 where 1: "read x s = Inr (i, s1)" "ok s1" "handle s1 i x" "contents s1 = contents s" "disk s1 = disk s"
    "writes s1 = writes s" "size s1 = size s" "rest s1 = rest s" "pins s1 = pins s" "held s1 = {x}"
    using read_ok [OF assms(1,3)] assms by auto
  obtain j s2 where 2: "read y s1 = Inr (j, s2)" "ok s2" "handle s2 j y" "contents s2 = contents s1" "disk s2 = disk s1"
    "writes s2 = writes s1" "size s2 = size s1" "rest s2 = rest s1" "pins s2 = pins s1" "held s2 = insert y (held s1)"
    "\<forall>j m. handle s1 j m \<longrightarrow> handle s2 j m"
    using read_ok [OF 1(2), of y] 1 assms(4,5,7) by auto
  show thesis using that [of i s1 j s2] 1 2 by auto
qed

text \<open>The holder of \<open>src\<close> and \<open>dst\<close> copies one to the other and lets both go, in either order.\<close>

lemma copy_held:
  assumes ok: "ok s" and h: "handle s i src" "handle s j dst" "src \<noteq> dst" "held s = {src, dst}"
    and "dst < size s" and c: "src \<in> pins s \<or> contents s src = disk s src"
  shows "\<exists>t. flush j (change j (\<lambda>_. data s i) s) = Inr t \<and>
    (\<exists>t1 t2. release i t = Inr t1 \<and> release j t1 = Inr t2 \<and> ok t2 \<and> held t2 = {} \<and>
      contents t2 = (contents s)(dst := contents s src) \<and> disk t2 = (disk s)(dst := contents s src) \<and>
      writes t2 = writes s @ [(dst, contents s src)] \<and> size t2 = size s \<and> rest t2 = rest s \<and> pins t2 = pins s - {dst})"
proof -
  define u where "u = change j (\<lambda>_. data s i) s"
  have d: "data s i = contents s src" by (rule handle_data [OF ok h(1)])
  have u: "ok u" "handle u = handle s" "contents u = (contents s)(dst := contents s src)" "disk u = disk s"
    "writes u = writes s" "size u = size s" "rest u = rest s" "pins u = pins s" "held u = {src, dst}"
    using change_ok [OF ok h(2), of "\<lambda>_. data s i"] h(4) d by (simp_all add: u_def)
  obtain t where t: "flush j u = Inr t" "ok t" "handle t = handle s" "contents t = contents u"
    "disk t = (disk u)(dst := contents u dst)" "writes t = writes u @ [(dst, contents u dst)]" "size t = size u"
    "rest t = rest u" "pins t = pins u - {dst}" "held t = held u"
    using flush_ok [OF u(1), of j dst] u h(2) assms(6) by auto
  have 1: "src \<in> pins t \<or> contents t src = disk t src" using c u t h(3) by auto
  obtain t1 where t1: "release i t = Inr t1" "ok t1" "contents t1 = contents t" "disk t1 = disk t" "writes t1 = writes t"
    "size t1 = size t" "rest t1 = rest t" "pins t1 = pins t" "held t1 = held t - {src}"
    "\<forall>j m. m \<noteq> src \<longrightarrow> handle t1 j m = handle t j m"
    using release_ok [OF t(2) _ 1, of i] t(3) h(1) by auto
  have "handle t1 j dst" using t1(10) t(3) h(2,3) by simp
  moreover have "contents t1 dst = disk t1 dst" using t1 t u by simp
  ultimately obtain t2 where t2: "release j t1 = Inr t2" "ok t2" "contents t2 = contents t1" "disk t2 = disk t1"
    "writes t2 = writes t1" "size t2 = size t1" "rest t2 = rest t1" "pins t2 = pins t1" "held t2 = held t1 - {dst}"
    using release_ok [OF t1(2), of j dst] by auto
  have "held t2 = {}" using t2(9) t1(9) t(10) u(9) by auto
  then have "ok t2 \<and> held t2 = {} \<and>
      contents t2 = (contents s)(dst := contents s src) \<and> disk t2 = (disk s)(dst := contents s src) \<and>
      writes t2 = writes s @ [(dst, contents s src)] \<and> size t2 = size s \<and> rest t2 = rest s \<and> pins t2 = pins s - {dst}"
    using t2 t1 t u by simp
  with t(1) t1(1) t2(1) show ?thesis unfolding u_def by blast
qed

lemma copy_src_first:
  assumes "ok s" and "held s = {}" and "src < size s" "dst < size s" "src \<noteq> dst"
    and "src \<in> pins s \<or> contents s src = disk s src"
    and room: "src \<in> pins s \<or> card (pins s) < capacity" "dst \<in> pins s \<or> card (insert src (pins s)) < capacity"
  obtains i s1 j s2 s3 s4 s5 where "read src s = Inr (i, s1)" "rest s1 = rest s" "read dst s1 = Inr (j, s2)"
    "flush j (change j (\<lambda>_. data s2 i) s2) = Inr s3" "release i s3 = Inr s4" "release j s4 = Inr s5"
    "rest s2 = rest s" "ok s5" "held s5 = {}" "contents s5 = (contents s)(dst := contents s src)"
    "disk s5 = (disk s)(dst := contents s src)" "writes s5 = writes s @ [(dst, contents s src)]"
    "size s5 = size s" "rest s5 = rest s" "pins s5 = pins s - {dst}"
proof -
  obtain i s1 j s2 where r: "read src s = Inr (i, s1)" "rest s1 = rest s" "read dst s1 = Inr (j, s2)" "ok s2" "handle s2 i src"
    "handle s2 j dst" "contents s2 = contents s" "disk s2 = disk s" "writes s2 = writes s" "size s2 = size s"
    "rest s2 = rest s" "pins s2 = pins s" "held s2 = {src, dst}"
    using read_two [OF assms(1-5) room] by blast
  have side: "dst < size s2" "src \<in> pins s2 \<or> contents s2 src = disk s2 src" "held s2 = {src, dst}"
    using assms(4,6) r by auto
  obtain s3 s4 s5 where c: "flush j (change j (\<lambda>_. data s2 i) s2) = Inr s3" "release i s3 = Inr s4" "release j s4 = Inr s5"
    "ok s5" "held s5 = {}" "contents s5 = (contents s2)(dst := contents s2 src)" "disk s5 = (disk s2)(dst := contents s2 src)"
    "writes s5 = writes s2 @ [(dst, contents s2 src)]" "size s5 = size s2" "rest s5 = rest s2" "pins s5 = pins s2 - {dst}"
    using copy_held [OF r(4) r(5,6) assms(5) side(3,1,2)] by blast
  show thesis by (rule that [of i s1 j s2 s3 s4 s5]) (simp_all add: c r)
qed

lemma copy_dst_first:
  assumes "ok s" and "held s = {}" and "src < size s" "dst < size s" "src \<noteq> dst"
    and "src \<in> pins s \<or> contents s src = disk s src"
    and room: "dst \<in> pins s \<or> card (pins s) < capacity" "src \<in> pins s \<or> card (insert dst (pins s)) < capacity"
  obtains i s1 j s2 s3 s4 s5 where "read dst s = Inr (j, s1)" "rest s1 = rest s" "read src s1 = Inr (i, s2)"
    "flush j (change j (\<lambda>_. data s2 i) s2) = Inr s3" "release i s3 = Inr s4" "release j s4 = Inr s5"
    "rest s2 = rest s" "ok s5" "held s5 = {}" "contents s5 = (contents s)(dst := contents s src)"
    "disk s5 = (disk s)(dst := contents s src)" "writes s5 = writes s @ [(dst, contents s src)]"
    "size s5 = size s" "rest s5 = rest s" "pins s5 = pins s - {dst}"
proof -
  obtain j s1 i s2 where r: "read dst s = Inr (j, s1)" "rest s1 = rest s" "read src s1 = Inr (i, s2)" "ok s2" "handle s2 j dst"
    "handle s2 i src" "contents s2 = contents s" "disk s2 = disk s" "writes s2 = writes s" "size s2 = size s"
    "rest s2 = rest s" "pins s2 = pins s" "held s2 = {dst, src}"
    using read_two [OF assms(1,2,4,3) assms(5) [symmetric] room] by blast
  have side: "dst < size s2" "src \<in> pins s2 \<or> contents s2 src = disk s2 src" "held s2 = {src, dst}"
    using assms(4,6) r by auto
  obtain s3 s4 s5 where c: "flush j (change j (\<lambda>_. data s2 i) s2) = Inr s3" "release i s3 = Inr s4" "release j s4 = Inr s5"
    "ok s5" "held s5 = {}" "contents s5 = (contents s2)(dst := contents s2 src)" "disk s5 = (disk s2)(dst := contents s2 src)"
    "writes s5 = writes s2 @ [(dst, contents s2 src)]" "size s5 = size s2" "rest s5 = rest s2" "pins s5 = pins s2 - {dst}"
    using copy_held [OF r(4) r(6,5) assms(5) side(3,1,2)] by blast
  show thesis by (rule that [of j s1 i s2 s3 s4 s5]) (simp_all add: c r)
qed

end

section \<open>Disk writes of the log\<close>

text \<open>The disk after a sequence of block writes.\<close>

definition apply_writes :: "(nat \<times> block) list \<Rightarrow> (nat \<Rightarrow> block) \<Rightarrow> (nat \<Rightarrow> block)" where
  "apply_writes ws D = fold (\<lambda>(n, d) D. D(n := d)) ws D"

lemma apply_writes_simps [simp]:
  "apply_writes [] D = D"
  "apply_writes (ws @ ws') D = apply_writes ws' (apply_writes ws D)"
  "apply_writes (w # ws) D = apply_writes ws (D(fst w := snd w))"
  by (simp_all add: apply_writes_def split: prod.split)

lemma apply_writes_get: "apply_writes ws D m = (case map_of (rev ws) m of Some d \<Rightarrow> d | None \<Rightarrow> D m)"
proof (induction ws arbitrary: D)
  case Nil
  then show ?case by simp
next
  case (Cons w ws)
  then show ?case by (cases w) (auto simp: map_add_def split: option.split)
qed

lemma apply_writes_other: "m \<notin> fst ` set ws \<Longrightarrow> apply_writes ws D m = D m"
  by (induction ws arbitrary: D) auto

lemma apply_writes_map:
  assumes "distinct (map a ts)" and "t \<in> set ts"
  shows "apply_writes (map (\<lambda>t. (a t, v t)) ts) D (a t) = v t"
  using assms
proof (induction ts arbitrary: D)
  case Nil
  then show ?case by simp
next
  case (Cons u ts)
  then show ?case
    by (cases "t = u") (auto simp: apply_writes_other image_image)
qed

text \<open>\<open>advance ws s s'\<close>: from \<open>s\<close>, with no buffer in use, the writes \<open>ws\<close> reached the disk.\<close>

definition advance :: "(nat \<times> block) list \<Rightarrow> 'a bio_scheme \<Rightarrow> 'a bio_scheme \<Rightarrow> bool" where
  "advance ws s s' \<longleftrightarrow> bio_inv s' \<and> held s' = {} \<and> blk s' = apply_writes ws (blk s) \<and>
     memdisk s' = apply_writes ws (memdisk s) \<and> dwrites s' = dwrites s @ ws \<and> disksize s' = disksize s \<and>
     cur_pid s' = cur_pid s \<and> bio.more s' = bio.more s \<and> pinned s' = pinned s - fst ` set ws"

lemma advanceD:
  assumes "advance ws s s'"
  shows "bio_inv s'" "held s' = {}" "blk s' = apply_writes ws (blk s)" "memdisk s' = apply_writes ws (memdisk s)"
    "dwrites s' = dwrites s @ ws" "disksize s' = disksize s" "cur_pid s' = cur_pid s" "bio.more s' = bio.more s"
    "pinned s' = pinned s - fst ` set ws"
  using assms by (simp_all add: advance_def)

lemma advance_refl: "bio_inv s \<Longrightarrow> held s = {} \<Longrightarrow> advance [] s s"
  by (simp add: advance_def)

lemma advance_trans: "advance ws s s' \<Longrightarrow> advance ws' s' s'' \<Longrightarrow> advance (ws @ ws') s s''"
  by (auto simp: advance_def)

text \<open>A loop that makes one write per turn.\<close>

lemma rfold_advance:
  assumes "bio_inv s" and "held s = {}"
    and "\<And>k s'. k < n \<Longrightarrow> advance (map w [0..<k]) s s' \<Longrightarrow> \<exists>s''. f k s' = Inr s'' \<and> advance [w k] s' s''"
  shows "\<exists>s'. rfold f [0..<n] s = Inr s' \<and> advance (map w [0..<n]) s s'"
  using assms(3)
proof (induction n)
  case 0
  then show ?case using advance_refl [OF assms(1,2)] by simp
next
  case (Suc n)
  then obtain s1 where 1: "rfold f [0..<n] s = Inr s1" "advance (map w [0..<n]) s s1" by force
  then obtain s2 where "f n s1 = Inr s2" "advance [w n] s1 s2" using Suc.prems [of n s1] by auto
  with 1 advance_trans [OF 1(2), of "[w n]" s2] show ?case by (auto simp: rfold_snoc)
qed

text \<open>The geometry of the log, fixed at boot.\<close>

definition log_geom :: "'a log_state_scheme \<Rightarrow> bool" where
  "log_geom s \<longleftrightarrow> log_dev s = 1 \<and> 0 < log_size s \<and> log_size s \<le> int LOGSIZE \<and>
     log_start s + nat (log_size s) \<le> disksize s \<and> disksize s < 2 ^ 32"

definition log_region :: "'a log_state_scheme \<Rightarrow> nat set" where
  "log_region s = {log_start s ..< log_start s + nat (log_size s)}"

lemma log_geom_cong:
  assumes "bio.more s' = bio.more s" and "disksize s' = disksize s"
  shows "log_geom s' = log_geom s" and "log_region s' = log_region s"
  using assms by (simp_all add: log_geom_def log_region_def log_more [OF assms(1)])

lemma log_block:
  assumes "log_geom s" and "Suc k < nat (log_size s)"
  shows "u32 (log_start s + k + 1) = log_start s + k + 1" and "log_start s + k + 1 < disksize s"
    and "log_start s + k + 1 \<in> log_region s"
  using assms by (auto simp: log_geom_def log_region_def intro!: u32_id)

lemma write_log_one_ok:
  assumes inv: "bio_inv s" "held s = {}" and g: "log_geom s" and k: "Suc k < nat (log_size s)"
    and b: "lh_block s k \<in> pinned s" "lh_block s k \<notin> log_region s" "lh_block s k < disksize s"
    and c: "card (pinned s) < NBUF"
  shows "\<exists>s'. write_log_one k s = Inr s' \<and> advance [(log_start s + k + 1, blk s (lh_block s k))] s s'"
proof -
  note l = log_block [OF g k]
  have dev: "log_dev s = 1" using g by (simp add: log_geom_def)
  have ne: "lh_block s k \<noteq> log_start s + k + 1" using b(2) l(3) by auto
  obtain i s1 j s2 s3 s4 s5 where
    r: "bread 1 (log_start s + k + 1) s = Inr (j, s1)" "(cur_pid s1, bio.more s1) = (cur_pid s, bio.more s)"
      "bread 1 (lh_block s k) s1 = Inr (i, s2)" "bwrite j (set_data j (\<lambda>_. b_data (bufs s2 i)) s2) = Inr s3"
      "brelse i s3 = Inr s4" "brelse j s4 = Inr s5" "(cur_pid s2, bio.more s2) = (cur_pid s, bio.more s)"
    and p: "bio_inv s5" "held s5 = {}" "blk s5 = (blk s)(log_start s + k + 1 := blk s (lh_block s k))"
      "memdisk s5 = (memdisk s)(log_start s + k + 1 := blk s (lh_block s k))"
      "dwrites s5 = dwrites s @ [(log_start s + k + 1, blk s (lh_block s k))]" "disksize s5 = disksize s"
      "(cur_pid s5, bio.more s5) = (cur_pid s, bio.more s)" "pinned s5 = pinned s - {log_start s + k + 1}"
    by (rule bc.copy_dst_first [OF inv b(3) l(2) ne disjI1 [OF b(1)] disjI2 [OF c] disjI1 [OF b(1)]])
  have more: "bio.more s1 = bio.more s" using r(2) by simp
  have "write_log_one k s = Inr s5"
    using r by (simp add: write_log_one_def l(1) [simplified] dev [simplified] log_more [OF more])
  with p show ?thesis by (auto simp: advance_def)
qed

lemma install_one_ok:
  assumes inv: "bio_inv s" "held s = {}" and g: "log_geom s" and k: "Suc k < nat (log_size s)"
    and b: "lh_block s k \<notin> log_region s" "lh_block s k < disksize s"
    and p: "pinned s \<inter> log_region s = {}" and c: "card (pinned s) < NBUF" "lh_block s k \<in> pinned s \<or> card (pinned s) < NBUF - 1"
  shows "\<exists>s'. install_one k s = Inr s' \<and> advance [(lh_block s k, blk s (log_start s + k + 1))] s s'"
proof -
  note l = log_block [OF g k]
  have dev: "log_dev s = 1" using g by (simp add: log_geom_def)
  have ne: "log_start s + k + 1 \<noteq> lh_block s k" using b(1) l(3) by auto
  have "log_start s + k + 1 \<notin> pinned s" using p l(3) by blast
  then have clean: "blk s (log_start s + k + 1) = memdisk s (log_start s + k + 1)"
    using clean_model [OF inv(1)] inv(2) by simp
  have "card (insert (log_start s + k + 1) (pinned s)) \<le> Suc (card (pinned s))" by (simp add: card_insert_if)
  then have room: "lh_block s k \<in> pinned s \<or> card (insert (log_start s + k + 1) (pinned s)) < NBUF" using c(2) by auto
  obtain i s1 j s2 s3 s4 s5 where
    r: "bread 1 (log_start s + k + 1) s = Inr (i, s1)" "(cur_pid s1, bio.more s1) = (cur_pid s, bio.more s)"
      "bread 1 (lh_block s k) s1 = Inr (j, s2)" "bwrite j (set_data j (\<lambda>_. b_data (bufs s2 i)) s2) = Inr s3"
      "brelse i s3 = Inr s4" "brelse j s4 = Inr s5" "(cur_pid s2, bio.more s2) = (cur_pid s, bio.more s)"
    and p: "bio_inv s5" "held s5 = {}" "blk s5 = (blk s)(lh_block s k := blk s (log_start s + k + 1))"
      "memdisk s5 = (memdisk s)(lh_block s k := blk s (log_start s + k + 1))"
      "dwrites s5 = dwrites s @ [(lh_block s k, blk s (log_start s + k + 1))]" "disksize s5 = disksize s"
      "(cur_pid s5, bio.more s5) = (cur_pid s, bio.more s)" "pinned s5 = pinned s - {lh_block s k}"
    by (rule bc.copy_src_first [OF inv l(2) b(2) ne disjI2 [OF clean] disjI2 [OF c(1)] room])
  have more: "bio.more s1 = bio.more s" using r(2) by simp
  have "install_one k s = Inr s5"
    using r by (simp add: install_one_def l(1) [simplified] dev [simplified] log_more [OF more])
  with p show ?thesis by (auto simp: advance_def)
qed

lemma write_head_ok:
  assumes inv: "bio_inv s" "held s = {}" and g: "log_geom s" and c: "card (pinned s) < NBUF"
  shows "\<exists>s'. write_head s = Inr s' \<and> advance [(log_start s, put_head (lh_n s) (lh_block s) (blk s (log_start s)))] s s'"
proof -
  have dev: "log_dev s = 1" and n: "log_start s < disksize s" using g by (auto simp: log_geom_def)
  have nh: "log_start s \<notin> held s" and room: "card (pinned s \<union> held s) < NBUF" using inv(2) c by simp_all
  obtain i s1 s2 s3 where
    r: "bread 1 (log_start s) s = Inr (i, s1)" "(cur_pid s1, bio.more s1) = (cur_pid s, bio.more s)"
      "bwrite i (set_data i (put_head (lh_n s) (lh_block s)) s1) = Inr s2" "brelse i s2 = Inr s3"
    and p: "bio_inv s3" "blk s3 = (blk s)(log_start s := put_head (lh_n s) (lh_block s) (blk s (log_start s)))"
      "memdisk s3 = (memdisk s)(log_start s := put_head (lh_n s) (lh_block s) (blk s (log_start s)))"
      "dwrites s3 = dwrites s @ [(log_start s, put_head (lh_n s) (lh_block s) (blk s (log_start s)))]"
      "disksize s3 = disksize s" "(cur_pid s3, bio.more s3) = (cur_pid s, bio.more s)"
      "pinned s3 = pinned s - {log_start s}" "held s3 = held s"
    by (rule bc.overwrite [OF inv(1) n nh disjI2 [OF room]])
  have more: "bio.more s1 = bio.more s" using r(2) by simp
  have "write_head s = Inr s3" using r by (simp add: write_head_def dev [simplified] log_more [OF more])
  with p inv(2) show ?thesis by (auto simp: advance_def)
qed

text \<open>A transaction that is ready to commit, or recovered: \<open>n\<close> blocks outside the log.\<close>

definition tx_blocks :: "nat \<Rightarrow> 'a log_state_scheme \<Rightarrow> bool" where
  "tx_blocks n s \<longleftrightarrow> lh_n s = int n \<and> n < nat (log_size s) \<and>
     (\<forall>k<n. lh_block s k \<notin> log_region s \<and> lh_block s k < disksize s)"

abbreviation log_writes :: "nat \<Rightarrow> 'a log_state_scheme \<Rightarrow> (nat \<times> block) list" where
  "log_writes n s \<equiv> map (\<lambda>k. (log_start s + k + 1, blk s (lh_block s k))) [0..<n]"

abbreviation install_writes :: "nat \<Rightarrow> 'a log_state_scheme \<Rightarrow> (nat \<times> block) list" where
  "install_writes n s \<equiv> map (\<lambda>k. (lh_block s k, blk s (log_start s + k + 1))) [0..<n]"

lemma advance_log:
  assumes "advance ws s s'"
  shows "log_geom s' = log_geom s" "log_region s' = log_region s" "lh_block s' = lh_block s" "lh_n s' = lh_n s"
    "log_start s' = log_start s" "log_size s' = log_size s" "tx_blocks n s' = tx_blocks n s"
  using log_geom_cong [OF advanceD(8,6) [OF assms]] log_more [OF advanceD(8) [OF assms]] advanceD(6) [OF assms]
  by (simp_all add: tx_blocks_def)

lemma write_log_ok:
  assumes inv: "bio_inv s" "held s = {}" and g: "log_geom s" and tx: "tx_blocks n s"
    and pin: "\<forall>k<n. lh_block s k \<in> pinned s" and pl: "pinned s \<inter> log_region s = {}" and c: "card (pinned s) < NBUF"
  shows "\<exists>s'. write_log s = Inr s' \<and> advance (log_writes n s) s s' \<and> pinned s' = pinned s"
proof -
  have reg: "log_start s + k + 1 \<in> log_region s" if "k < n" for k
    using tx that by (auto simp: tx_blocks_def log_region_def)
  have keep: "pinned s - fst ` set (log_writes k s) = pinned s" if "k \<le> n" for k using pl reg that by force
  have "\<exists>s''. write_log_one k s' = Inr s'' \<and> advance [(log_start s + k + 1, blk s (lh_block s k))] s' s''"
    if k: "k < n" and a: "advance (log_writes k s) s s'" for k s'
  proof -
    note l = advance_log [OF a] and d = advanceD [OF a]
    have p: "pinned s' = pinned s" using d(9) keep [of k] k by simp
    have "lh_block s k \<notin> fst ` set (log_writes k s)" using tx k reg by (force simp: tx_blocks_def)
    then have "blk s' (lh_block s k) = blk s (lh_block s k)" using d(3) by (simp add: apply_writes_other)
    moreover have "\<exists>s''. write_log_one k s' = Inr s'' \<and> advance [(log_start s' + k + 1, blk s' (lh_block s' k))] s' s''"
      by (rule write_log_one_ok [OF d(1,2)]) (use l g tx k pin c p d(6) in \<open>auto simp: tx_blocks_def\<close>)
    ultimately show ?thesis by (simp add: l)
  qed
  then have "\<exists>s'. rfold write_log_one [0..<n] s = Inr s' \<and> advance (log_writes n s) s s'" by (rule rfold_advance [OF inv])
  then obtain s' where "rfold write_log_one [0..<n] s = Inr s'" "advance (log_writes n s) s s'" by blast
  moreover have "nat (lh_n s) = n" using tx by (simp add: tx_blocks_def)
  ultimately show ?thesis using advanceD(9) keep [of n] by (auto simp: write_log_def)
qed

lemma install_trans_ok:
  assumes inv: "bio_inv s" "held s = {}" and g: "log_geom s" and tx: "tx_blocks n s"
    and dis: "distinct (map (lh_block s) [0..<n])" and pl: "pinned s \<inter> log_region s = {}" and c: "card (pinned s) < NBUF"
    and pin: "pinned s = {} \<or> (\<forall>k<n. lh_block s k \<in> pinned s)"
  shows "\<exists>s'. install_trans s = Inr s' \<and> advance (install_writes n s) s s'"
proof -
  have "\<exists>s''. install_one k s' = Inr s'' \<and> advance [(lh_block s k, blk s (log_start s + k + 1))] s' s''"
    if k: "k < n" and a: "advance (install_writes k s) s s'" for k s'
  proof -
    note l = advance_log [OF a] and d = advanceD [OF a]
    have "log_start s + k + 1 \<in> log_region s" using tx k by (auto simp: tx_blocks_def log_region_def)
    moreover have "fst ` set (install_writes k s) \<inter> log_region s = {}" using tx k by (auto simp: tx_blocks_def)
    ultimately have "log_start s + k + 1 \<notin> fst ` set (install_writes k s)" by blast
    then have eq: "blk s' (log_start s + k + 1) = blk s (log_start s + k + 1)" using d(3) by (simp add: apply_writes_other)
    have "inj_on (lh_block s) {0..<n}" using dis by (simp add: distinct_map)
    then have "lh_block s k \<notin> lh_block s ` {0..<k}" using k by (subst inj_on_image_mem_iff [of _ "{0..<n}"]) auto
    then have new: "lh_block s k \<notin> fst ` set (install_writes k s)" by (auto simp: image_image)
    have sub: "card (pinned s') \<le> card (pinned s)" using d(9) by (intro card_mono) auto
    have "\<exists>s''. install_one k s' = Inr s'' \<and> advance [(lh_block s' k, blk s' (log_start s' + k + 1))] s' s''"
    proof (rule install_one_ok [OF d(1,2)])
      show "lh_block s' k \<in> pinned s' \<or> card (pinned s') < NBUF - 1" using pin new d(9) k by (auto simp: l)
      show "pinned s' \<inter> log_region s' = {}" using pl d(9) by (auto simp: l)
      show "card (pinned s') < NBUF" using sub c by simp
    qed (use l g tx k d(6) in \<open>auto simp: tx_blocks_def\<close>)
    with eq show ?thesis by (simp add: l)
  qed
  then have "\<exists>s'. rfold install_one [0..<n] s = Inr s' \<and> advance (install_writes n s) s s'" by (rule rfold_advance [OF inv])
  then obtain s' where "rfold install_one [0..<n] s = Inr s'" "advance (install_writes n s) s s'" by blast
  moreover have "nat (lh_n s) = n" using tx by (simp add: tx_blocks_def)
  ultimately show ?thesis by (auto simp: install_trans_def)
qed

section \<open>The header block\<close>

lemma put_blocks:
  fixes bs :: "nat \<Rightarrow> nat" and m :: nat
  defines "P \<equiv> fold (\<lambda>i d. put_u32 (bs i) d (4 + 4 * i)) [0..<m]"
  shows "get_s32 (P d) 0 = get_s32 d 0"
    and "m \<le> k \<Longrightarrow> get_u32 (P d) (4 + 4 * k) = get_u32 d (4 + 4 * k)"
    and "k < m \<Longrightarrow> bs k < 2 ^ 32 \<Longrightarrow> get_u32 (P d) (4 + 4 * k) = bs k"
proof -
  show "get_s32 (P d) 0 = get_s32 d 0"
    unfolding P_def by (induction m) (simp_all add: field_defs le_get_put_other)
  show "m \<le> k \<Longrightarrow> get_u32 (P d) (4 + 4 * k) = get_u32 d (4 + 4 * k)"
    unfolding P_def by (induction m) (simp_all add: field_defs le_get_put_other)
  show "k < m \<Longrightarrow> bs k < 2 ^ 32 \<Longrightarrow> get_u32 (P d) (4 + 4 * k) = bs k"
    unfolding P_def
  proof (induction m)
    case 0
    then show ?case by simp
  next
    case (Suc m)
    then show ?case by (cases "k = m") (simp_all add: field_defs le_get_put le_get_put_other)
  qed
qed

lemma put_head_get:
  shows "get_s32 (put_head n bs d) 0 = s32 n"
    and "k < nat n \<Longrightarrow> bs k < 2 ^ 32 \<Longrightarrow> get_u32 (put_head n bs d) (4 + 4 * k) = bs k"
  by (simp_all add: put_head_def put_blocks get_put_s32)

lemma put_head_zero: "put_head 0 bs d = put_s32 0 d 0"
  by (simp add: put_head_def)

section \<open>Commit\<close>

text \<open>
  The invariant of the log between the operations: the pinned blocks are the logged ones, each of
  them once, none of them inside the log, and the log on the disk is empty.
\<close>

definition log_inv :: "'a log_state_scheme \<Rightarrow> bool" where
  "log_inv s \<longleftrightarrow> bio_inv s \<and> log_geom s \<and> 0 \<le> lh_n s \<and> tx_blocks (nat (lh_n s)) s \<and>
     distinct (map (lh_block s) [0..<nat (lh_n s)]) \<and> pinned s = lh_block s ` {0..<nat (lh_n s)} \<and>
     held s \<inter> log_region s = {} \<and> get_s32 (memdisk s (log_start s)) 0 = 0"

lemma log_invD:
  assumes "log_inv s"
  shows "bio_inv s" "log_geom s" "0 \<le> lh_n s" "tx_blocks (nat (lh_n s)) s"
    "distinct (map (lh_block s) [0..<nat (lh_n s)])" "pinned s = lh_block s ` {0..<nat (lh_n s)}"
    "pinned s \<inter> log_region s = {}" "card (pinned s) = nat (lh_n s)" "nat (lh_n s) < NBUF"
    "\<And>b. b \<in> pinned s \<Longrightarrow> b < disksize s" "held s \<inter> log_region s = {}" "get_s32 (memdisk s (log_start s)) 0 = 0"
proof -
  show *: "bio_inv s" "log_geom s" "0 \<le> lh_n s" "tx_blocks (nat (lh_n s)) s"
    "distinct (map (lh_block s) [0..<nat (lh_n s)])" "pinned s = lh_block s ` {0..<nat (lh_n s)}"
    "held s \<inter> log_region s = {}" "get_s32 (memdisk s (log_start s)) 0 = 0"
    using assms by (simp_all add: log_inv_def)
  show "pinned s \<inter> log_region s = {}" using *(4,6) by (auto simp: tx_blocks_def)
  show "nat (lh_n s) < NBUF" using *(2,4) by (auto simp: log_geom_def tx_blocks_def)
  show "\<And>b. b \<in> pinned s \<Longrightarrow> b < disksize s" using *(4,6) by (auto simp: tx_blocks_def)
  have "inj_on (lh_block s) {0..<nat (lh_n s)}" using *(5) by (simp add: distinct_map)
  then show "card (pinned s) = nat (lh_n s)" using *(6) by (simp add: card_image)
qed

text \<open>What \<^verbatim>\<open>commit\<close> writes, in order.\<close>

definition commit_writes :: "'a log_state_scheme \<Rightarrow> (nat \<times> block) list" where
  "commit_writes s =
     (let n = nat (lh_n s); h = put_head (lh_n s) (lh_block s) (blk s (log_start s)) in
      log_writes n s @ [(log_start s, h)] @ map (\<lambda>k. (lh_block s k, blk s (lh_block s k))) [0..<n] @
      [(log_start s, put_head 0 (lh_block s) h)])"

lemma lh_n_upd_more [simp]:
  "bio.more (s\<lparr>lh_n := n\<rparr>) = bio.more s \<longleftrightarrow> lh_n s = n"
  by (cases s) auto

lemma commit_ok:
  assumes inv: "log_inv s" and q: "held s = {}" and n: "0 < lh_n s"
  shows "\<exists>s'. commit s = Inr s' \<and> log_inv s' \<and> held s' = {} \<and> lh_n s' = 0 \<and> dwrites s' = dwrites s @ commit_writes s \<and>
    memdisk s' = apply_writes (commit_writes s) (memdisk s) \<and> blk s' = apply_writes (commit_writes s) (blk s) \<and>
    disksize s' = disksize s \<and> cur_pid s' = cur_pid s \<and> bio.more s' = bio.more (s\<lparr>lh_n := 0\<rparr>)"
proof -
  note i = log_invD [OF inv]
  let ?n = "nat (lh_n s)" and ?h = "put_head (lh_n s) (lh_block s) (blk s (log_start s))"
  have tx: "lh_block s k \<notin> log_region s" "lh_block s k < disksize s" "lh_block s k \<in> pinned s"
    and reg: "log_start s + k + 1 \<in> log_region s" if "k < ?n" for k
    using i(4,6) that by (auto simp: tx_blocks_def log_region_def)
  have c: "card (pinned s) < NBUF" using i(8,9) by simp
  obtain s1 where 1: "write_log s = Inr s1" "advance (log_writes ?n s) s s1" "pinned s1 = pinned s"
    using write_log_ok [OF i(1) q i(2,4) _ i(7) c] tx by blast
  note l1 = advance_log [OF 1(2)] and d1 = advanceD [OF 1(2)]
  have start: "log_start s \<notin> fst ` set (log_writes ?n s)" by auto
  then have h1: "blk s1 (log_start s) = blk s (log_start s)" using d1(3) by (simp add: apply_writes_other)
  obtain s2 where 2: "write_head s1 = Inr s2" "advance [(log_start s, ?h)] s1 s2"
    using write_head_ok [OF d1(1,2)] i(2) c 1(3) by (auto simp: l1 h1)
  note l2 = advance_log [OF 2(2)] and d2 = advanceD [OF 2(2)]
  have reg0: "log_start s \<in> log_region s" using i(2) by (auto simp: log_region_def log_geom_def)
  then have p2: "pinned s2 = pinned s" using d2(9) 1(3) i(7) by auto
  have "blk s2 (log_start s + k + 1) = blk s (lh_block s k)" if k: "k < ?n" for k
  proof -
    have "distinct (map (\<lambda>k. log_start s + k + 1) [0..<?n])" by (simp add: distinct_map inj_on_def)
    from apply_writes_map [OF this, of k] k
    have "blk s1 (log_start s + k + 1) = blk s (lh_block s k)" unfolding d1(3) by simp
    then show ?thesis using d2(3) by simp
  qed
  then have w2: "install_writes ?n s2 = map (\<lambda>k. (lh_block s k, blk s (lh_block s k))) [0..<?n]" by (simp add: l2 l1)
  have pins: "pinned s2 \<inter> log_region s2 = {}" "card (pinned s2) < NBUF"
    "pinned s2 = {} \<or> (\<forall>k<?n. lh_block s2 k \<in> pinned s2)" "distinct (map (lh_block s2) [0..<?n])"
    using i(5,7) c tx by (simp_all add: l2 l1 p2)
  obtain s3 where 3: "install_trans s2 = Inr s3" "advance (install_writes ?n s2) s2 s3"
    using install_trans_ok [OF d2(1,2) _ _ pins(4,1,2,3)] i(2,4) by (auto simp: l2 l1)
  note l3 = advance_log [OF 3(2)] and d3 = advanceD [OF 3(2)]
  have "fst ` set (install_writes ?n s2) = pinned s" unfolding w2 i(6) by (simp add: image_image)
  then have none: "pinned s3 = {}" using d3(9) p2 by simp
  let ?t = "s3\<lparr>lh_n := 0\<rparr>"
  have h3: "blk s3 (log_start s) = ?h"
  proof -
    have "log_start s \<notin> fst ` set (install_writes ?n s2)" unfolding w2 using tx reg0 by auto
    then have "blk s3 (log_start s) = blk s2 (log_start s)" using d3(3) by (simp add: apply_writes_other)
    then show ?thesis using d2(3) by simp
  qed
  have "log_geom ?t" using i(2) by (simp add: log_geom_def l3 l2 l1 d3(6) d2(6) d1(6) log_more [OF d3(8)] log_more [OF d2(8)] log_more [OF d1(8)])
  then obtain s4 where 4: "write_head ?t = Inr s4" "advance [(log_start s, put_head 0 (lh_block s) ?h)] ?t s4"
    using write_head_ok [of ?t] d3(1,2) none by (auto simp: l3 l2 l1 h3)
  note l4 = advance_log [OF 4(2)] and d4 = advanceD [OF 4(2)]
  have run: "commit s = Inr s4" using n 1(1) 2(1) 3(1) 4(1) by (simp add: commit_def)
  have adv: "advance (log_writes ?n s @ [(log_start s, ?h)] @ map (\<lambda>k. (lh_block s k, blk s (lh_block s k))) [0..<?n]) s s3"
    using advance_trans [OF 1(2) advance_trans [OF 2(2) 3(2)]] unfolding w2 .
  have more: "bio.more s4 = bio.more (s\<lparr>lh_n := 0\<rparr>)"
    using d4(8) advanceD(8) [OF adv] by (cases s3; cases s4; cases s) simp
  have "log_start s3 = log_start s" "0 < log_size s3" using i(2) by (simp_all add: log_geom_def l3 l2 l1)
  then have "log_inv s4"
    unfolding log_inv_def tx_blocks_def
    using d4 none \<open>log_geom ?t\<close> l4 by (simp add: put_head_get put_head_zero get_put_s32 s32_id)
  with run d4 more advanceD [OF adv] show ?thesis
    by (simp add: commit_writes_def Let_def l4 log_more [OF d4(8)])
qed

section \<open>Logging a write\<close>

lemma log_slot_found:
  assumes "b \<in> lh_block s ` {0..<nat (lh_n s)}"
  shows "log_slot b s < nat (lh_n s)" and "lh_block s (log_slot b s) = b"
proof -
  let ?xs = "[0..<nat (lh_n s)]" and ?p = "\<lambda>i. lh_block s i \<noteq> b"
  obtain k where k: "k \<in> set ?xs" "\<not> ?p k" using assms by auto
  then have "takeWhile ?p ?xs \<noteq> ?xs" by (metis set_takeWhileD)
  then have "length (takeWhile ?p ?xs) < length ?xs"
    using length_takeWhile_le [of ?p ?xs] by (metis le_neq_implies_less takeWhile_eq_take take_all_iff order_refl)
  then show 1: "log_slot b s < nat (lh_n s)" by (simp add: log_slot_def)
  have "\<not> ?p (?xs ! length (takeWhile ?p ?xs))" by (rule nth_length_takeWhile) fact
  then show "lh_block s (log_slot b s) = b" using 1 by (simp add: log_slot_def)
qed

lemma log_slot_new:
  assumes "b \<notin> lh_block s ` {0..<nat (lh_n s)}"
  shows "log_slot b s = nat (lh_n s)"
proof -
  have eq: "takeWhile (\<lambda>i. lh_block s i \<noteq> b) [0..<nat (lh_n s)] = [0..<nat (lh_n s)]"
    using assms by (subst takeWhile_eq_all_conv) auto
  show ?thesis unfolding log_slot_def eq by simp
qed

text \<open>The part of the state that no operation inside a transaction changes.\<close>

definition tx_frame where
  "tx_frame s = (cur_pid s, memdisk s, dwrites s, disksize s, log_start s, log_size s, log_dev s, outstanding s, committing s)"

lemma tx_frameD:
  assumes "tx_frame s' = tx_frame s"
  shows "cur_pid s' = cur_pid s" "memdisk s' = memdisk s" "dwrites s' = dwrites s" "disksize s' = disksize s"
    "log_start s' = log_start s" "log_size s' = log_size s" "log_dev s' = log_dev s" "outstanding s' = outstanding s"
    "committing s' = committing s" "log_geom s' = log_geom s" "log_region s' = log_region s"
  using assms by (simp_all add: tx_frame_def log_geom_def log_region_def)

text \<open>How many more blocks the transaction may log.\<close>

definition room :: "'a log_state_scheme \<Rightarrow> nat" where
  "room s = nat (log_size s - 1 - lh_n s)"

lemma log_write_slot:
  assumes "log_inv s" and "holds s i n" and "0 < room s" and "1 \<le> outstanding s"
  shows "log_write i s = Inr (mark_dirty i
    (if n \<in> pinned s then s\<lparr>lh_block := lh_block s\<rparr> else s\<lparr>lh_block := (lh_block s)(nat (lh_n s) := n), lh_n := lh_n s + 1\<rparr>))"
proof -
  note l = log_invD [OF assms(1)]
  have bn: "b_blockno (bufs s i) = n" using assms(2) by (simp add: holds_def cached_def)
  have g: "lh_n s < log_size s - 1" using assms(3) by (simp add: room_def)
  moreover have "log_size s \<le> int LOGSIZE" using l(2) by (simp add: log_geom_def)
  ultimately have ok: "\<not> (lh_n s \<ge> int LOGSIZE \<or> lh_n s \<ge> log_size s - 1)" by linarith
  show ?thesis
  proof (cases "n \<in> pinned s")
    case True
    then have "n \<in> lh_block s ` {0..<nat (lh_n s)}" using l(6) by simp
    note f = log_slot_found [OF this]
    have "int (log_slot n s) \<noteq> lh_n s" using f(1) by linarith
    moreover have "(lh_block s)(log_slot n s := n) = lh_block s" using f(2) by (metis fun_upd_triv)
    ultimately show ?thesis using ok assms(4) True by (simp add: log_write_def bn Let_def)
  next
    case False
    then have "log_slot n s = nat (lh_n s)" using l(6) by (intro log_slot_new) simp
    then show ?thesis using ok assms(4) False l(3) by (simp add: log_write_def bn Let_def)
  qed
qed

lemma log_write_ok:
  assumes inv: "log_inv s" and h: "holds s i n" and r: "0 < room s" and o: "1 \<le> outstanding s"
    and n: "n < disksize s" "n \<notin> log_region s"
  obtains s' where "log_write i s = Inr s'" "log_inv s'" "holds s' = holds s" "held s' = held s" "blk s' = blk s"
    "pinned s' = insert n (pinned s)" "lh_n s' = (if n \<in> pinned s then lh_n s else lh_n s + 1)"
    "tx_frame s' = tx_frame s" "log_state.more s' = log_state.more s"
proof -
  note l = log_invD [OF inv]
  define t where "t = (if n \<in> pinned s then s\<lparr>lh_block := lh_block s\<rparr> else s\<lparr>lh_block := (lh_block s)(nat (lh_n s) := n), lh_n := lh_n s + 1\<rparr>)"
  have run: "log_write i s = Inr (mark_dirty i t)" unfolding t_def by (rule log_write_slot [OF inv h r o])
  have tb: "bufs t = bufs s" "memdisk t = memdisk s" by (simp_all add: t_def)
  note fr = bio_frame [OF tb]
  have ti: "bio_inv t" "holds t i n" using l(1) h by (simp_all add: fr)
  define s' where "s' = mark_dirty i t"
  note m = mark_dirty_holder [OF ti, folded s'_def]
  have "holds s' j k = holds s j k" for j k
    using m(2) m(4) [of j k] h by (cases "j = i") (auto simp: fr holds_def cached_def valid_def s'_def mark_dirty_def flag_simps tb)
  then have 1: "holds s' = holds s" by (simp add: fun_eq_iff)
  have 2: "held s' = held s" unfolding fr(4) [symmetric] by (rule held_cong) (simp add: s'_def)
  have 3: "pinned s' = insert n (pinned s)" using m(5) by (simp add: fr)
  have 4: "lh_n s' = (if n \<in> pinned s then lh_n s else lh_n s + 1)"
    "tx_frame s' = tx_frame s" "log_state.more s' = log_state.more s"
    by (simp_all add: s'_def t_def tx_frame_def)
  have 5: "lh_block s' = (if n \<in> pinned s then lh_block s else (lh_block s)(nat (lh_n s) := n))"
    by (simp add: s'_def t_def)
  have "log_inv s'"
  proof (cases "n \<in> pinned s")
    case True
    then have "insert n (pinned s) = pinned s" by auto
    with True show ?thesis using l m(1) 2 3 4 5 tx_frameD [OF 4(2)]
      by (simp add: log_inv_def tx_blocks_def)
  next
    case False
    have sz: "nat (lh_n s + 1) = Suc (nat (lh_n s))" using l(3) by simp
    have "map (lh_block s') [0..<nat (lh_n s)] = map (lh_block s) [0..<nat (lh_n s)]"
      using False by (simp add: 5)
    moreover have "n \<notin> set (map (lh_block s) [0..<nat (lh_n s)])" using False l(6) by simp
    ultimately have "distinct (map (lh_block s') [0..<Suc (nat (lh_n s))])"
      using l(5) False by (simp add: 5)
    moreover have "insert n (pinned s) = lh_block s' ` {0..<Suc (nat (lh_n s))}"
      using False l(6) by (auto simp: 5 atLeastLessThanSuc)
    moreover have "tx_blocks (Suc (nat (lh_n s))) s'"
      using l(3,4) n r False tx_frameD [OF 4(2)] by (auto simp: tx_blocks_def 4 5 room_def less_Suc_eq)
    ultimately show ?thesis using l m(1) 2 3 4 False tx_frameD [OF 4(2)]
      by (simp add: log_inv_def sz)
  qed
  with run 1 2 3 4 m(3) fr show thesis by (intro that [of s']) (simp_all add: s'_def)
qed

lemma room_log_write:
  "tx_frame s' = tx_frame s \<Longrightarrow> lh_n s' \<le> lh_n s + 1 \<Longrightarrow> room s - 1 \<le> room s'"
  using tx_frameD(6) [of s' s] by (auto simp: room_def)

section \<open>What the file system builds on\<close>

lemma log_inv_frame:
  assumes "log_inv s" and "bio_inv s'" and "bio.more s' = bio.more s" and "memdisk s' = memdisk s" and "disksize s' = disksize s"
    and "pinned s' = pinned s" and "held s' \<inter> log_region s = {}"
  shows "log_inv s'"
  using assms log_geom_cong [OF assms(3,5)] log_more [OF assms(3)]
  by (simp add: log_inv_def tx_blocks_def)

lemma log_read:
  assumes inv: "log_inv s" and n: "n < disksize s" "n \<notin> log_region s" "n \<notin> held s"
    and c: "n \<in> pinned s \<or> card (pinned s \<union> held s) < NBUF"
  obtains i s' where "bread 1 n s = Inr (i, s')" "log_inv s'" "holds s' i n" "b_data (bufs s' i) = blk s n" "blk s' = blk s"
    "pinned s' = pinned s" "held s' = insert n (held s)" "\<And>j m. holds s j m \<Longrightarrow> holds s' j m" "tx_frame s' = tx_frame s"
    "lh_n s' = lh_n s" "log_state.more s' = log_state.more s"
proof -
  obtain i s' where 1: "bread 1 n s = Inr (i, s')" "bio_inv s'" "holds s' i n" "b_data (bufs s' i) = blk s n" "blk s' = blk s"
    "memdisk s' = memdisk s" "dwrites s' = dwrites s" "disksize s' = disksize s" "(cur_pid s', bio.more s') = (cur_pid s, bio.more s)"
    "pinned s' = pinned s" "held s' = insert n (held s)" "\<And>j m. holds s j m \<Longrightarrow> holds s' j m"
    by (rule bc.read [OF log_invD(1) [OF inv] n(1,3) c]) blast
  have more: "bio.more s' = bio.more s" "cur_pid s' = cur_pid s" using 1(9) by simp_all
  have "log_inv s'" by (rule log_inv_frame [OF inv 1(2) more(1) 1(6,8,10)]) (use 1(11) n(2) log_invD(11) [OF inv] in auto)
  with 1 more show thesis by (intro that [of i s']) (simp_all add: tx_frame_def log_more [OF more(1)])
qed

lemma log_release:
  assumes inv: "log_inv s" and h: "holds s i n" and c: "n \<in> pinned s \<or> blk s n = memdisk s n"
  obtains s' where "brelse i s = Inr s'" "log_inv s'" "blk s' = blk s"
    "pinned s' = pinned s" "held s' = held s - {n}" "\<And>j m. m \<noteq> n \<Longrightarrow> holds s' j m = holds s j m" "tx_frame s' = tx_frame s"
    "lh_n s' = lh_n s" "log_state.more s' = log_state.more s"
proof -
  obtain s' where 1: "brelse i s = Inr s'" "bio_inv s'" "blk s' = blk s" "memdisk s' = memdisk s" "dwrites s' = dwrites s"
    "disksize s' = disksize s" "(cur_pid s', bio.more s') = (cur_pid s, bio.more s)" "pinned s' = pinned s"
    "held s' = held s - {n}" "\<forall>j m. m \<noteq> n \<longrightarrow> holds s' j m = holds s j m"
    using bc.release_ok [OF log_invD(1) [OF inv] h c] by blast
  have more: "bio.more s' = bio.more s" "cur_pid s' = cur_pid s" using 1(7) by simp_all
  have "log_inv s'" by (rule log_inv_frame [OF inv 1(2) more(1) 1(4,6,8)]) (use 1(9) log_invD(11) [OF inv] in auto)
  with 1 more show thesis by (intro that [of s']) (simp_all add: tx_frame_def log_more [OF more(1)])
qed

text \<open>A block changed by its holder and then logged, as the comment above \<^verbatim>\<open>log_write\<close> prescribes.\<close>

lemma log_put:
  assumes inv: "log_inv s" and h: "holds s i n" and r: "0 < room s" and o: "1 \<le> outstanding s"
    and n: "n < disksize s" "n \<notin> log_region s"
  obtains s' where "log_write i (set_data i f s) = Inr s'" "log_inv s'" "holds s' = holds s" "held s' = held s"
    "blk s' = (blk s)(n := f (blk s n))" "pinned s' = insert n (pinned s)"
    "lh_n s' = (if n \<in> pinned s then lh_n s else lh_n s + 1)" "tx_frame s' = tx_frame s" "log_state.more s' = log_state.more s"
proof -
  let ?t = "set_data i f s"
  have c: "bio_inv ?t" "holds ?t = holds s" "blk ?t = (blk s)(n := f (blk s n))" "pinned ?t = pinned s" "held ?t = held s"
    "bio.more ?t = bio.more s" using change_model [OF log_invD(1) [OF inv] h, of f] by simp_all
  note m = log_more [OF c(6)]
  have tx: "tx_frame ?t = tx_frame s" by (simp add: tx_frame_def m)
  have inv': "log_inv ?t" by (rule log_inv_frame [OF inv c(1,6)]) (use c log_invD(11) [OF inv] in simp_all)
  have "holds ?t i n" "0 < room ?t" "1 \<le> outstanding ?t" "n < disksize ?t" "n \<notin> log_region ?t"
    using h r o n tx_frameD [OF tx] by (simp_all add: c room_def m)
  from log_write_ok [OF inv' this] obtain s' where "log_write i ?t = Inr s'" "log_inv s'" "holds s' = holds ?t"
    "held s' = held ?t" "blk s' = blk ?t" "pinned s' = insert n (pinned ?t)"
    "lh_n s' = (if n \<in> pinned ?t then lh_n ?t else lh_n ?t + 1)" "tx_frame s' = tx_frame ?t" "log_state.more s' = log_state.more ?t"
    by blast
  then show thesis using c m tx by (intro that [of s']) simp_all
qed

text \<open>
  \<open>tx_step B s s'\<close>: inside a transaction, \<open>s'\<close> comes from \<open>s\<close> by logged changes to blocks in \<open>B\<close>
  and reads of any others.
\<close>

definition tx_step :: "nat set \<Rightarrow> 'a log_state_scheme \<Rightarrow> 'a log_state_scheme \<Rightarrow> bool" where
  "tx_step B s s' \<longleftrightarrow> log_inv s' \<and> tx_frame s' = tx_frame s \<and> held s' = held s \<and> (\<forall>j m. holds s j m \<longrightarrow> holds s' j m) \<and>
     pinned s \<subseteq> pinned s' \<and> pinned s' \<subseteq> pinned s \<union> B \<and> (\<forall>m. m \<notin> B \<longrightarrow> blk s' m = blk s m)"

lemma tx_stepD:
  assumes "tx_step B s s'"
  shows "log_inv s'" "tx_frame s' = tx_frame s" "held s' = held s" "\<And>j m. holds s j m \<Longrightarrow> holds s' j m"
    "pinned s \<subseteq> pinned s'" "pinned s' \<subseteq> pinned s \<union> B" "\<And>m. m \<notin> B \<Longrightarrow> blk s' m = blk s m"
  using assms by (simp_all add: tx_step_def)

lemma tx_step_refl: "log_inv s \<Longrightarrow> tx_step {} s s"
  by (simp add: tx_step_def)

lemma tx_step_trans: "tx_step A s s' \<Longrightarrow> tx_step B s' s'' \<Longrightarrow> tx_step (A \<union> B) s s''"
  unfolding tx_step_def by auto

lemma tx_step_mono: "tx_step A s s' \<Longrightarrow> A \<subseteq> B \<Longrightarrow> tx_step B s s'"
  unfolding tx_step_def by auto

lemma tx_step_blk: "tx_step {} s s' \<Longrightarrow> blk s' = blk s"
  by (simp add: tx_step_def fun_eq_iff)

lemma tx_step_room:
  assumes "log_inv s" and "tx_step B s s'" and "finite B"
  shows "room s \<le> room s' + card (B - pinned s)"
proof -
  note d = tx_stepD [OF assms(2)]
  have "card (pinned s') \<le> card (pinned s \<union> (B - pinned s))" using d(6) assms(3) by (intro card_mono) auto
  also have "\<dots> \<le> card (pinned s) + card (B - pinned s)" by (rule card_Un_le)
  finally show ?thesis
    using log_invD(3,8) [OF d(1)] log_invD(3,8) [OF assms(1)] tx_frameD(6) [OF d(2)] by (simp add: room_def)
qed

text \<open>A block may be read when its buffer is free and the cache has space.\<close>

definition may_read :: "'a log_state_scheme \<Rightarrow> nat \<Rightarrow> bool" where
  "may_read s n \<longleftrightarrow> n < disksize s \<and> n \<notin> log_region s \<and> n \<notin> held s \<and> (n \<in> pinned s \<or> card (pinned s \<union> held s) < NBUF)"

lemma may_readI:
  assumes "log_inv s" and "n < disksize s" and "n \<notin> log_region s" and "n \<notin> held s" and "card (held s) \<le> room s"
  shows "may_read s n"
proof -
  have "card (pinned s \<union> held s) \<le> nat (lh_n s) + room s"
    using card_Un_le [of "pinned s" "held s"] log_invD(8) [OF assms(1)] assms(5) by simp
  also have "\<dots> < NBUF" using log_invD(2,3,4) [OF assms(1)] by (auto simp: room_def log_geom_def tx_blocks_def)
  finally show ?thesis using assms by (simp add: may_read_def)
qed

lemma log_update:
  assumes inv: "log_inv s" and n: "may_read s n" and r: "0 < room s" and o: "1 \<le> outstanding s"
  obtains i s1 s2 s3 where "bread 1 n s = Inr (i, s1)" "b_data (bufs s1 i) = blk s n"
    "log_write i (set_data i f s1) = Inr s2" "brelse i s2 = Inr s3" "tx_step {n} s s3" "blk s3 = (blk s)(n := f (blk s n))"
    "n \<in> pinned s3" "log_state.more s3 = log_state.more s" "log_state.more s1 = log_state.more s" "log_state.more s2 = log_state.more s"
proof -
  have m: "n < disksize s" "n \<notin> log_region s" "n \<notin> held s" "n \<in> pinned s \<or> card (pinned s \<union> held s) < NBUF"
    using n by (simp_all add: may_read_def)
  obtain i s1 where 1: "bread 1 n s = Inr (i, s1)" "log_inv s1" "holds s1 i n" "b_data (bufs s1 i) = blk s n" "blk s1 = blk s"
    "pinned s1 = pinned s" "held s1 = insert n (held s)" "\<And>j m. holds s j m \<Longrightarrow> holds s1 j m" "tx_frame s1 = tx_frame s"
    "lh_n s1 = lh_n s" "log_state.more s1 = log_state.more s"
    using log_read [OF inv m] by blast
  note t1 = tx_frameD [OF 1(9)]
  have p: "0 < room s1" "1 \<le> outstanding s1" "n < disksize s1" "n \<notin> log_region s1"
    using r o m t1 1(10) by (simp_all add: room_def)
  obtain s2 where 2: "log_write i (set_data i f s1) = Inr s2" "log_inv s2" "holds s2 = holds s1" "held s2 = held s1"
    "blk s2 = (blk s1)(n := f (blk s1 n))" "pinned s2 = insert n (pinned s1)"
    "lh_n s2 = (if n \<in> pinned s1 then lh_n s1 else lh_n s1 + 1)" "tx_frame s2 = tx_frame s1" "log_state.more s2 = log_state.more s1"
    by (rule log_put [OF 1(2,3) p, where f = f])
  have "holds s2 i n" "n \<in> pinned s2 \<or> blk s2 n = memdisk s2 n" using 1(3) 2(3,6) by simp_all
  from log_release [OF 2(2) this] obtain s3 where 3: "brelse i s2 = Inr s3" "log_inv s3" "blk s3 = blk s2"
    "pinned s3 = pinned s2" "held s3 = held s2 - {n}" "\<And>j m. m \<noteq> n \<Longrightarrow> holds s3 j m = holds s2 j m" "tx_frame s3 = tx_frame s2"
    "lh_n s3 = lh_n s2" "log_state.more s3 = log_state.more s2" by blast
  have "held s3 = held s" using 3(5) 2(4) 1(7) m(3) by simp
  moreover have "holds s3 j k" if "holds s j k" for j k
  proof -
    have "k \<noteq> n" using that m(3) by (auto simp: held_def holds_def)
    then show ?thesis using that 1(8) 2(3) 3(6) by simp
  qed
  ultimately have "tx_step {n} s s3" using 1 2 3 by (auto simp: tx_step_def)
  then show thesis using 1 2 3 by (intro that [of i s1 s2 s3]) simp_all
qed

lemma log_peek:
  assumes inv: "log_inv s" and n: "may_read s n"
  obtains i s1 s2 where "bread 1 n s = Inr (i, s1)" "b_data (bufs s1 i) = blk s n" "brelse i s1 = Inr s2"
    "tx_step {} s s2" "log_state.more s2 = log_state.more s" "log_state.more s1 = log_state.more s" "tx_frame s1 = tx_frame s"
proof -
  have m: "n < disksize s" "n \<notin> log_region s" "n \<notin> held s" "n \<in> pinned s \<or> card (pinned s \<union> held s) < NBUF"
    using n by (simp_all add: may_read_def)
  obtain i s1 where 1: "bread 1 n s = Inr (i, s1)" "log_inv s1" "holds s1 i n" "b_data (bufs s1 i) = blk s n" "blk s1 = blk s"
    "pinned s1 = pinned s" "held s1 = insert n (held s)" "\<And>j m. holds s j m \<Longrightarrow> holds s1 j m" "tx_frame s1 = tx_frame s"
    "lh_n s1 = lh_n s" "log_state.more s1 = log_state.more s"
    using log_read [OF inv m] by blast
  have "n \<in> pinned s1 \<or> blk s1 n = memdisk s1 n"
    using clean_model [OF log_invD(1) [OF inv] _ m(3)] 1(5,6) tx_frameD(2) [OF 1(9)] by auto
  from log_release [OF 1(2,3) this] obtain s3 where 3: "brelse i s1 = Inr s3" "log_inv s3" "blk s3 = blk s1"
    "pinned s3 = pinned s1" "held s3 = held s1 - {n}" "\<And>j m. m \<noteq> n \<Longrightarrow> holds s3 j m = holds s1 j m" "tx_frame s3 = tx_frame s1"
    "lh_n s3 = lh_n s1" "log_state.more s3 = log_state.more s1" by blast
  have "held s3 = held s" using 3(5) 1(7) m(3) by simp
  moreover have "holds s3 j k" if "holds s j k" for j k
  proof -
    have "k \<noteq> n" using that m(3) by (auto simp: held_def holds_def)
    then show ?thesis using that 1(8) 3(6) by simp
  qed
  ultimately have "tx_step {} s s3" using 1 3 by (auto simp: tx_step_def)
  then show thesis using 1 3 by (intro that [of i s1 s3]) simp_all
qed

end
