(* ===== verification/Crash.thy ===== *)
theory Crash
  imports Log
begin

text \<open>
  Crashes and recovery. The disk performs block writes one at a time, so a crash during
  \<^verbatim>\<open>commit\<close> leaves a prefix of its writes on the disk. The next boot runs \<^verbatim>\<open>binit\<close> and
  \<^verbatim>\<open>initlog\<close> over what is there. The first part is about disks alone: what recovery makes of a
  disk with a given header; the second part ties it to \<^verbatim>\<open>recover_from_log\<close> and \<^verbatim>\<open>commit\<close>.
\<close>

section \<open>Recovery as a function of the disk\<close>

definition head_n :: "nat \<Rightarrow> (nat \<Rightarrow> block) \<Rightarrow> nat" where
  "head_n a D = nat (get_s32 (D a) 0)"

definition head_block :: "nat \<Rightarrow> (nat \<Rightarrow> block) \<Rightarrow> nat \<Rightarrow> nat" where
  "head_block a D k = get_u32 (D a) (4 + 4 * k)"

definition rec_writes :: "nat \<Rightarrow> (nat \<Rightarrow> block) \<Rightarrow> (nat \<times> block) list" where
  "rec_writes a D = map (\<lambda>k. (head_block a D k, D (a + k + 1))) [0..<head_n a D] @ [(a, put_s32 0 (D a) 0)]"

definition recovered :: "nat \<Rightarrow> (nat \<Rightarrow> block) \<Rightarrow> (nat \<Rightarrow> block)" where
  "recovered a D = apply_writes (rec_writes a D) D"

text \<open>A header that recovery may act on: \<open>sz\<close> is the size of the log, \<open>N\<close> the size of the disk.\<close>

definition head_ok :: "nat \<Rightarrow> nat \<Rightarrow> nat \<Rightarrow> (nat \<Rightarrow> block) \<Rightarrow> bool" where
  "head_ok a sz N D \<longleftrightarrow> 0 \<le> get_s32 (D a) 0 \<and> head_n a D < sz \<and> distinct (map (head_block a D) [0..<head_n a D]) \<and>
     (\<forall>k<head_n a D. head_block a D k \<notin> {a..<a + sz} \<and> head_block a D k < N)"

lemma recovered_empty:
  assumes "get_s32 (D a) 0 = 0"
  shows "m \<noteq> a \<Longrightarrow> recovered a D m = D m" and "head_ok a sz N D \<longleftrightarrow> 0 < sz"
  using assms by (simp_all add: recovered_def rec_writes_def head_n_def head_ok_def)

text \<open>Writing the contents \<open>V\<close> of the blocks \<open>b 0 .. b (k - 1)\<close> to their places.\<close>

lemma apply_home: "apply_writes (map (\<lambda>k. (b k, V (b k))) [0..<k]) F m = (if m \<in> b ` {0..<k} then V m else F m)"
  by (induction k) (auto simp: atLeastLessThanSuc)

lemma recovered_full:
  assumes "head_n a D = n" and "\<And>k. k < n \<Longrightarrow> head_block a D k = b k \<and> D (a + k + 1) = V (b k)" and "m \<noteq> a"
  shows "recovered a D m = (if m \<in> b ` {0..<n} then V m else D m)"
proof -
  have w: "rec_writes a D = map (\<lambda>k. (b k, V (b k))) [0..<n] @ [(a, put_s32 0 (D a) 0)]"
    using assms(1,2) by (simp add: rec_writes_def)
  show ?thesis using assms(3) by (simp add: recovered_def w apply_home)
qed

section \<open>The disk after a crash\<close>

text \<open>The writes of a commit of blocks \<open>b 0 .. b (n - 1)\<close> with new contents \<open>V\<close> and header \<open>h\<close>.\<close>

definition tx_writes :: "nat \<Rightarrow> nat \<Rightarrow> (nat \<Rightarrow> nat) \<Rightarrow> (nat \<Rightarrow> block) \<Rightarrow> block \<Rightarrow> (nat \<times> block) list" where
  "tx_writes a n b V h =
     map (\<lambda>k. (a + k + 1, V (b k))) [0..<n] @ [(a, h)] @ map (\<lambda>k. (b k, V (b k))) [0..<n] @ [(a, put_s32 0 h 0)]"

text \<open>A crash hits one of three phases.\<close>

lemma take_tx_writes:
  assumes "j \<le> length (tx_writes a n b V h)"
  obtains (logging) k where "k \<le> n" "take j (tx_writes a n b V h) = map (\<lambda>k. (a + k + 1, V (b k))) [0..<k]"
    | (installing) k where "k \<le> n" "take j (tx_writes a n b V h) =
        map (\<lambda>k. (a + k + 1, V (b k))) [0..<n] @ [(a, h)] @ map (\<lambda>k. (b k, V (b k))) [0..<k]"
    | (finished) "take j (tx_writes a n b V h) = tx_writes a n b V h"
proof -
  have len: "length (tx_writes a n b V h) = 2 * n + 2" by (simp add: tx_writes_def)
  consider "j \<le> n" | "n < j" "j \<le> 2 * n + 1" | "j = 2 * n + 2" using assms len by linarith
  then show thesis
  proof cases
    case 1
    then have "take j (tx_writes a n b V h) = map (\<lambda>k. (a + k + 1, V (b k))) [0..<j]"
      by (simp add: tx_writes_def take_map)
    then show thesis using logging 1 by blast
  next
    case 2
    define k where "k = j - n - 1"
    have "k \<le> n" "j = Suc (n + k)" using 2 by (simp_all add: k_def)
    then have "take j (tx_writes a n b V h) =
        map (\<lambda>k. (a + k + 1, V (b k))) [0..<n] @ [(a, h)] @ map (\<lambda>k. (b k, V (b k))) [0..<k]"
      by (simp add: tx_writes_def take_map)
    then show thesis using installing \<open>k \<le> n\<close> by blast
  next
    case 3
    then show thesis using finished len by simp
  qed
qed

text \<open>
  \<open>D\<close> is the disk before the commit, with an empty log in the \<open>sz\<close> blocks from \<open>a\<close> on; the new
  contents \<open>V\<close> differ from \<open>D\<close> in blocks \<open>b 0 .. b (n - 1)\<close> only.
\<close>

definition tx_setup :: "nat \<Rightarrow> nat \<Rightarrow> nat \<Rightarrow> nat \<Rightarrow> (nat \<Rightarrow> nat) \<Rightarrow> (nat \<Rightarrow> block) \<Rightarrow> (nat \<Rightarrow> block) \<Rightarrow> bool" where
  "tx_setup a sz N n b D V \<longleftrightarrow> n < sz \<and> sz \<le> LOGSIZE \<and> N \<le> 2 ^ 32 \<and> get_s32 (D a) 0 = 0 \<and>
     distinct (map b [0..<n]) \<and> (\<forall>k<n. b k \<notin> {a..<a + sz} \<and> b k < N) \<and>
     (\<forall>m. m \<notin> {a..<a + sz} \<and> m \<notin> b ` {0..<n} \<longrightarrow> V m = D m)"

lemma apply_log: "m \<notin> {a..<a + sz} \<or> m = a \<Longrightarrow> k < sz \<Longrightarrow> apply_writes (map (\<lambda>k. (a + k + 1, v k)) [0..<k]) D m = D m"
  by (rule apply_writes_other) auto

lemma apply_log_get:
  assumes "k < n"
  shows "apply_writes (map (\<lambda>k. (a + k + 1, v k)) [0..<n]) D (a + k + 1) = v k"
  by (rule apply_writes_map) (use assms in \<open>auto simp: distinct_map inj_on_def\<close>)

lemma crash_logging:
  assumes "tx_setup a sz N n b D V" and "k \<le> n" and E: "E = apply_writes (map (\<lambda>k. (a + k + 1, V (b k))) [0..<k]) D"
  shows "get_s32 (E a) 0 = 0" and "m \<notin> {a..<a + sz} \<Longrightarrow> E m = D m"
  using assms(1,2) apply_log [of _ a sz k "\<lambda>k. V (b k)" D] by (simp_all add: E tx_setup_def)

lemma crash_installing:
  assumes tx: "tx_setup a sz N n b D V" and k: "k \<le> n"
    and E: "E = apply_writes (map (\<lambda>k. (a + k + 1, V (b k))) [0..<n] @ [(a, put_head (int n) b (D a))] @
      map (\<lambda>k. (b k, V (b k))) [0..<k]) D"
  shows "head_ok a sz N E" and "\<And>m. m \<notin> {a..<a + sz} \<Longrightarrow> m \<notin> b ` {0..<n} \<Longrightarrow> E m = D m"
    and "\<And>m. m \<notin> {a..<a + sz} \<Longrightarrow> recovered a E m = V m"
proof -
  have t: "n < sz" "sz \<le> LOGSIZE" "N \<le> 2 ^ 32" "distinct (map b [0..<n])"
    "\<And>k. k < n \<Longrightarrow> b k \<notin> {a..<a + sz} \<and> b k < N" "\<And>m. m \<notin> {a..<a + sz} \<Longrightarrow> m \<notin> b ` {0..<n} \<Longrightarrow> V m = D m"
    using tx unfolding tx_setup_def by blast+
  have notb: "m \<notin> b ` {0..<k}" if "m \<in> {a..<a + sz}" for m using t(5) that k by force
  have Ea: "E a = put_head (int n) b (D a)" using notb [of a] t(1) by (simp add: E apply_home)
  have hn: "get_s32 (E a) 0 = int n" using put_head_get(1) [of "int n" b "D a"] t(1,2) by (simp add: Ea s32_id)
  then have n': "head_n a E = n" by (simp add: head_n_def)
  have b': "head_block a E i = b i" if "i < n" for i
    using put_head_get(2) [of i "int n" b "D a"] t(3) t(5) [OF that] that by (simp add: head_block_def Ea)
  have v': "E (a + i + 1) = V (b i)" if "i < n" for i
    using notb [of "a + i + 1"] apply_log_get [OF that, of a "\<lambda>k. V (b k)" D] that t(1)
    by (simp add: E apply_home)
  have eq: "map (head_block a E) [0..<n] = map b [0..<n]" using b' by simp
  show "head_ok a sz N E" unfolding head_ok_def n' eq using hn t(1,4,5) b' by simp
  have out: "E m = (if m \<in> b ` {0..<k} then V m else D m)" if "m \<notin> {a..<a + sz}" for m
  proof -
    have "m \<noteq> a" using that t(1) by auto
    then show ?thesis using apply_log [of m a sz n "\<lambda>k. V (b k)" D] that t(1) by (simp add: E apply_home)
  qed
  then show "E m = D m" if "m \<notin> {a..<a + sz}" "m \<notin> b ` {0..<n}" for m using that k by auto
  show "recovered a E m = V m" if m: "m \<notin> {a..<a + sz}" for m
  proof -
    have "m \<noteq> a" using m t(1) by auto
    from recovered_full [OF n' _ this, of b V] b' v'
    have "recovered a E m = (if m \<in> b ` {0..<n} then V m else E m)" by simp
    then show ?thesis using out [OF m] t(6) [OF m] by auto
  qed
qed

lemma crash_finished:
  assumes tx: "tx_setup a sz N n b D V" and E: "E = apply_writes (tx_writes a n b V h) D"
  shows "get_s32 (E a) 0 = 0" and "m \<notin> {a..<a + sz} \<Longrightarrow> E m = V m"
proof -
  show "get_s32 (E a) 0 = 0" by (simp add: E tx_writes_def get_put_s32 s32_id)
  assume m: "m \<notin> {a..<a + sz}"
  then have "m \<noteq> a" using tx by (auto simp: tx_setup_def)
  then show "E m = V m"
    using apply_log [of m a sz n "\<lambda>k. V (b k)" D] m tx
    by (simp add: E tx_writes_def apply_home tx_setup_def)
qed

text \<open>Whatever prefix of the writes reached the disk, recovery gives the old or the new contents.\<close>

lemma crash_disk:
  assumes tx: "tx_setup a sz N n b D V" and j: "j \<le> length (tx_writes a n b V (put_head (int n) b (D a)))"
    and E: "E = apply_writes (take j (tx_writes a n b V (put_head (int n) b (D a)))) D"
  shows "head_ok a sz N E \<and> (\<forall>m. m \<notin> {a..<a + sz} \<and> m \<notin> b ` {0..<n} \<longrightarrow> E m = D m) \<and>
    ((\<forall>m. m \<notin> {a..<a + sz} \<longrightarrow> recovered a E m = D m) \<or> (\<forall>m. m \<notin> {a..<a + sz} \<longrightarrow> recovered a E m = V m))"
proof -
  have sz: "0 < sz" "V m = D m" if "m \<notin> {a..<a + sz}" "m \<notin> b ` {0..<n}" for m
    using tx that by (auto simp: tx_setup_def)
  have pos: "0 < sz" using tx by (auto simp: tx_setup_def)
  from j show ?thesis
  proof (cases rule: take_tx_writes)
    case (logging k)
    note c = crash_logging [OF tx logging(1) E [unfolded logging(2)]]
    have "recovered a E m = D m" if "m \<notin> {a..<a + sz}" for m
    proof -
      have "m \<noteq> a" using that pos by auto
      then show ?thesis using recovered_empty(1) [of E a, OF c(1)] c(2) [OF that] by simp
    qed
    then show ?thesis using recovered_empty(2) [of E a, OF c(1)] c(2) pos by auto
  next
    case (installing k)
    note c = crash_installing [OF tx installing(1) E [unfolded installing(2)]]
    then show ?thesis by blast
  next
    case finished
    note c = crash_finished [OF tx E [unfolded finished]]
    have "recovered a E m = V m" if "m \<notin> {a..<a + sz}" for m
    proof -
      have "m \<noteq> a" using that pos by auto
      then show ?thesis using recovered_empty(1) [of E a, OF c(1)] c(2) [OF that] by simp
    qed
    then show ?thesis using recovered_empty(2) [of E a, OF c(1)] c(2) pos sz by auto
  qed
qed

section \<open>Recovery by the code\<close>

lemma advance_peek:
  assumes inv: "bio_inv s" "held s = {}" "pinned s = {}" and n: "n < disksize s"
  obtains i s1 s2 where "bread 1 n s = Inr (i, s1)" "b_data (bufs s1 i) = memdisk s n" "brelse i s1 = Inr s2"
    "advance [] s s2" "bio.more s1 = bio.more s" "bio_inv s1" "holds s1 i n" "held s1 = {n}" "pinned s1 = {}" "blk s1 = blk s"
    "memdisk s1 = memdisk s" "dwrites s1 = dwrites s" "disksize s1 = disksize s" "cur_pid s1 = cur_pid s"
proof -
  have r: "n \<notin> held s" "card (pinned s \<union> held s) < NBUF" using inv by simp_all
  have eq: "blk s n = memdisk s n" using clean_model [OF inv(1)] inv by simp
  obtain i s1 where 1: "bread 1 n s = Inr (i, s1)" "bio_inv s1" "holds s1 i n" "b_data (bufs s1 i) = blk s n" "blk s1 = blk s"
    "memdisk s1 = memdisk s" "dwrites s1 = dwrites s" "disksize s1 = disksize s" "(cur_pid s1, bio.more s1) = (cur_pid s, bio.more s)"
    "pinned s1 = pinned s" "held s1 = insert n (held s)"
    by (rule bc.read [OF inv(1) n r(1) disjI2 [OF r(2)]]) blast
  have "blk s1 n = memdisk s1 n" using 1(5,6) eq by simp
  then obtain s2 where 2: "brelse i s1 = Inr s2" "bio_inv s2" "blk s2 = blk s1" "memdisk s2 = memdisk s1" "dwrites s2 = dwrites s1"
    "disksize s2 = disksize s1" "(cur_pid s2, bio.more s2) = (cur_pid s1, bio.more s1)" "pinned s2 = pinned s1"
    "held s2 = held s1 - {n}" using bc.release_ok [OF 1(2,3)] by blast
  have "advance [] s s2" using 1 2 inv by (simp add: advance_def)
  then show thesis using 1 2 eq inv by (intro that [of i s1 s2]) simp_all
qed

lemma read_head_ok:
  assumes inv: "bio_inv s" "held s = {}" "pinned s = {}" and g: "log_geom s"
    and h: "get_s32 (memdisk s (log_start s)) 0 = int n" "n \<le> LOGSIZE"
  shows "\<exists>s'. read_head s = Inr s' \<and> advance [] (s\<lparr>lh_n := int n,
      lh_block := \<lambda>i. if i < n then head_block (log_start s) (memdisk s) i else lh_block s i\<rparr>) s'"
proof -
  have dev: "log_dev s = 1" and n: "log_start s < disksize s" using g by (auto simp: log_geom_def)
  let ?u = "\<lambda>t. t\<lparr>lh_n := int n, lh_block := \<lambda>i. if i < n then head_block (log_start s) (memdisk s) i else lh_block s i\<rparr>"
  obtain i s1 s2 where 1: "bread 1 (log_start s) s = Inr (i, s1)" "b_data (bufs s1 i) = memdisk s (log_start s)" "brelse i s1 = Inr s2"
    "advance [] s s2" "bio.more s1 = bio.more s" "bio_inv s1" "holds s1 i (log_start s)" "held s1 = {log_start s}" "pinned s1 = {}"
    "blk s1 = blk s" "memdisk s1 = memdisk s" "dwrites s1 = dwrites s" "disksize s1 = disksize s" "cur_pid s1 = cur_pid s"
    by (rule advance_peek [OF inv n])
  have fr: "bio_inv (?u s1)" "holds (?u s1) i (log_start s)" "held (?u s1) = {log_start s}" "pinned (?u s1) = {}" "blk (?u s1) = blk s"
    using 1 by simp_all
  have "blk (?u s1) (log_start s) = memdisk (?u s1) (log_start s)" using clean_model [OF inv(1)] inv 1(10,11) by simp
  then obtain s' where 2: "brelse i (?u s1) = Inr s'" "bio_inv s'" "blk s' = blk (?u s1)" "memdisk s' = memdisk (?u s1)"
    "dwrites s' = dwrites (?u s1)" "disksize s' = disksize (?u s1)" "(cur_pid s', bio.more s') = (cur_pid (?u s1), bio.more (?u s1))"
    "pinned s' = pinned (?u s1)" "held s' = held (?u s1) - {log_start s}" using bc.release_ok [OF fr(1,2)] by blast
  have "bio.more (?u s1) = bio.more (?u s)" using 1(5) by (cases s; cases s1) simp
  then have "advance [] (?u s) s'" using 1 2 inv by (simp add: advance_def)
  moreover have "read_head s = Inr s'"
    using 1(1,2) 2(1) h dev by (simp add: read_head_def Let_def log_more [OF 1(5)] head_block_def cong: if_cong)
  ultimately show ?thesis by blast
qed

lemma recover_ok:
  assumes inv: "bio_inv s" "held s = {}" "pinned s = {}" and g: "log_geom s"
    and h: "head_ok (log_start s) (nat (log_size s)) (disksize s) (memdisk s)"
  shows "\<exists>s'. recover_from_log s = Inr s' \<and> log_inv s' \<and> held s' = {} \<and> pinned s' = {} \<and>
    memdisk s' = recovered (log_start s) (memdisk s) \<and> blk s' = memdisk s' \<and>
    dwrites s' = dwrites s @ rec_writes (log_start s) (memdisk s) \<and> disksize s' = disksize s \<and> cur_pid s' = cur_pid s \<and>
    log_start s' = log_start s \<and> log_size s' = log_size s \<and> outstanding s' = outstanding s \<and> committing s' = committing s \<and>
    lh_n s' = 0 \<and> log_state.more s' = log_state.more s"
proof -
  let ?a = "log_start s" and ?n = "head_n (log_start s) (memdisk s)"
  have n: "get_s32 (memdisk s ?a) 0 = int ?n" "?n < nat (log_size s)" using h by (simp_all add: head_ok_def head_n_def)
  have "log_size s \<le> int LOGSIZE" using g by (simp add: log_geom_def)
  then have le: "?n \<le> LOGSIZE" using n(2) by linarith
  let ?u = "s\<lparr>lh_n := int ?n, lh_block := \<lambda>i. if i < ?n then head_block ?a (memdisk s) i else lh_block s i\<rparr>"
  obtain s1 where 1: "read_head s = Inr s1" "advance [] ?u s1" using read_head_ok [OF inv g n(1) le] by blast
  note l1 = advance_log [OF 1(2)] and d1 = advanceD [OF 1(2)]
  have blk: "blk s = memdisk s" using clean_model [OF inv(1)] inv by (simp add: fun_eq_iff)
  have geom: "log_geom s1" using g by (simp add: l1) (simp add: log_geom_def)
  have tx: "tx_blocks ?n s1" using h n(2) by (simp add: l1) (simp add: tx_blocks_def head_ok_def log_region_def)
  have eq: "map (lh_block s1) [0..<?n] = map (head_block ?a (memdisk s)) [0..<?n]" by (simp add: l1)
  have dis: "distinct (map (lh_block s1) [0..<?n])" unfolding eq using h by (simp add: head_ok_def)
  have p1: "pinned s1 = {}" using d1(9) inv(3) by simp
  obtain s2 where 2: "install_trans s1 = Inr s2" "advance (install_writes ?n s1) s1 s2"
    using install_trans_ok [OF d1(1,2) geom tx dis] p1 by auto
  have w: "install_writes ?n s1 = map (\<lambda>k. (head_block ?a (memdisk s) k, memdisk s (?a + k + 1))) [0..<?n]"
    using d1(3) by (simp add: l1 blk)
  note l2 = advance_log [OF 2(2)] and d2 = advanceD [OF 2(2) [unfolded w]]
  let ?t = "s2\<lparr>lh_n := 0\<rparr>"
  have "log_geom ?t" using geom log_more [OF d2(8)] d2(6) by (simp add: log_geom_def)
  moreover have p2: "pinned s2 = {}" using d2(9) p1 by simp
  moreover have "?a \<noteq> head_block ?a (memdisk s) k" if "k < ?n" for k using h n(2) that by (auto simp: head_ok_def)
  then have "?a \<notin> fst ` set (map (\<lambda>k. (head_block ?a (memdisk s) k, memdisk s (?a + k + 1))) [0..<?n])" by auto
  then have "blk s2 ?a = memdisk s ?a" using d2(3) d1(3) blk by (simp add: apply_writes_other)
  ultimately obtain s3 where 3: "write_head ?t = Inr s3" "advance [(?a, put_s32 0 (memdisk s ?a) 0)] ?t s3"
    using write_head_ok [of ?t] d2(1,2) by (auto simp: l2 l1 put_head_zero)
  note l3 = advance_log [OF 3(2)] and d3 = advanceD [OF 3(2)]
  have run: "recover_from_log s = Inr s3" using 1 2 3 by (simp add: recover_from_log_def)
  have mem: "memdisk s3 = recovered ?a (memdisk s)"
    using d3(4) d2(4) d1(4) by (simp add: recovered_def rec_writes_def)
  have blk3: "blk s3 = memdisk s3" using d3(3,4) d2(3,4) d1(3,4) blk by simp
  have "log_inv s3"
    unfolding log_inv_def tx_blocks_def
    using d3 p2 \<open>log_geom ?t\<close> l3 by (simp add: get_put_s32 s32_id l2 l1) (simp add: log_geom_def)
  moreover have "log_state.more s3 = log_state.more s" "outstanding s3 = outstanding s" "committing s3 = committing s"
    using log_more [OF d3(8)] log_more [OF d2(8)] log_more [OF d1(8)] by simp_all
  moreover have "dwrites s3 = dwrites s @ rec_writes ?a (memdisk s)"
    using d3(5) d2(5) d1(5) w by (simp add: rec_writes_def)
  moreover have "pinned s3 = {}" using d3(9) p2 by simp
  ultimately show ?thesis using run mem blk3 d3(2,6,7) d2(6,7) d1(6,7) by (simp add: l3 l2 l1)
qed

section \<open>Boot\<close>

text \<open>Kernel memory at boot, over a disk with contents \<open>D\<close>.\<close>

definition boot_log :: "(nat \<Rightarrow> block) \<Rightarrow> nat \<Rightarrow> log_state" where
  "boot_log D N = bio.extend (boot_bio D N)
     (log_state.fields 0 0 0 False 0 0 (\<lambda>_. 0))"

lemma boot_log_simps [simp]:
  "bufs (boot_log D N) = bufs (boot_bio D N)" "memdisk (boot_log D N) = D" "disksize (boot_log D N) = N"
  "dwrites (boot_log D N) = []" "outstanding (boot_log D N) = 0" "committing (boot_log D N) = False" "lh_n (boot_log D N) = 0"
  by (simp_all add: boot_log_def bio.defs log_state.defs boot_bio_def)

lemma bufs_zero_boot_log [simp]: "bufs_zero (boot_log D N)"
  using bufs_zero_boot [of D N] by (simp add: bufs_zero_def)

text \<open>The superblock puts the log into the \<open>sz\<close> blocks from \<open>a\<close> on.\<close>

definition sb_log :: "nat \<Rightarrow> nat \<Rightarrow> block \<Rightarrow> bool" where
  "sb_log a sz d \<longleftrightarrow> sb_logstart (sb_of d) = a \<and> s32 (int (sb_nlog (sb_of d))) = int sz"

lemma readsb_ok:
  assumes inv: "bio_inv s" "held s = {}" "pinned s = {}" and n: "1 < disksize s"
  shows "\<exists>s'. readsb 1 s = Inr (sb_of (memdisk s 1), s') \<and> advance [] s s'"
proof -
  obtain i s1 s2 where "bread 1 1 s = Inr (i, s1)" "b_data (bufs s1 i) = memdisk s 1" "brelse i s1 = Inr s2" "advance [] s s2"
    by (rule advance_peek [OF inv n])
  then show ?thesis by (simp add: readsb_def Let_def)
qed

lemma initlog_ok:
  assumes z: "bufs_zero s" and N: "1 < disksize s" "a + sz \<le> disksize s" "disksize s < 2 ^ 32" "0 < sz" "sz \<le> LOGSIZE"
    and sb: "sb_log a sz (memdisk s 1)" and h: "head_ok a sz (disksize s) (memdisk s)"
  shows "\<exists>r. initlog 1 (binit s) = Inr r \<and> log_inv r \<and> held r = {} \<and> pinned r = {} \<and>
    memdisk r = recovered a (memdisk s) \<and> blk r = memdisk r \<and> dwrites r = dwrites s @ rec_writes a (memdisk s) \<and>
    disksize r = disksize s \<and> cur_pid r = cur_pid s \<and> log_start r = a \<and> log_size r = int sz \<and>
    outstanding r = outstanding s \<and> committing r = committing s \<and> lh_n r = 0 \<and> log_state.more r = log_state.more s"
proof -
  note b = binit_establishes [OF z] and hb = held_binit [OF z]
  have "1 < disksize (binit s)" using N(1) b(7) by simp
  then obtain s1 where 1: "readsb 1 (binit s) = Inr (sb_of (memdisk s 1), s1)" "advance [] (binit s) s1"
    using readsb_ok [OF b(1) hb b(3)] b(6) by auto
  note d1 = advanceD [OF 1(2)] and m1 = log_more [OF d1(8)] log_more [OF b(10)]
  define t where "t = s1\<lparr>log_start := a, log_size := int sz, log_dev := 1\<rparr>"
  have t: "bio_inv t" "held t = {}" "pinned t = {}" using d1(1,2,9) b(3) by (simp_all add: t_def)
  have f: "log_start t = a" "log_size t = int sz" "memdisk t = memdisk s" "disksize t = disksize s" "dwrites t = dwrites s"
    "cur_pid t = cur_pid s" "outstanding t = outstanding s" "committing t = committing s" "log_state.more t = log_state.more s"
    using d1 b m1 by (simp_all add: t_def)
  have g: "log_geom t" using N f by (simp add: log_geom_def t_def)
  have "head_ok (log_start t) (nat (log_size t)) (disksize t) (memdisk t)" using h f by simp
  note rec = recover_ok [OF t g this]
  have "sb_logstart (sb_of (memdisk s 1)) = a" "s32 (int (sb_nlog (sb_of (memdisk s 1)))) = int sz"
    using sb by (simp_all add: sb_log_def)
  then have "initlog 1 (binit s) = recover_from_log t" unfolding initlog_def 1(1) by (simp add: t_def)
  with rec show ?thesis unfolding f by simp
qed

section \<open>Properties\<close>

lemma commit_setup:
  assumes inv: "log_inv s" and q: "held s = {}"
  shows "tx_setup (log_start s) (nat (log_size s)) (disksize s) (nat (lh_n s)) (lh_block s) (memdisk s) (blk s)"
    and "commit_writes s = tx_writes (log_start s) (nat (lh_n s)) (lh_block s) (blk s)
      (put_head (int (nat (lh_n s))) (lh_block s) (memdisk s (log_start s)))"
proof -
  note l = log_invD [OF inv]
  have "blk s m = memdisk s m" if "m \<notin> pinned s" for m using clean_model [OF l(1) that] q by simp
  moreover have "log_start s \<notin> pinned s" using l(2,7) by (auto simp: log_region_def log_geom_def)
  ultimately have e: "blk s (log_start s) = memdisk s (log_start s)" "\<And>m. m \<notin> lh_block s ` {0..<nat (lh_n s)} \<Longrightarrow> blk s m = memdisk s m"
    using l(6) by simp_all
  show "tx_setup (log_start s) (nat (log_size s)) (disksize s) (nat (lh_n s)) (lh_block s) (memdisk s) (blk s)"
    using l(2,4,5,12) e(2) by (auto simp: tx_setup_def tx_blocks_def log_geom_def log_region_def)
  show "commit_writes s = tx_writes (log_start s) (nat (lh_n s)) (lh_block s) (blk s)
      (put_head (int (nat (lh_n s))) (lh_block s) (memdisk s (log_start s)))"
    using l(3) by (simp add: commit_writes_def tx_writes_def Let_def e(1) put_head_zero)
qed

text \<open>Booting from the disk that a crash after \<open>j\<close> writes of a commit left behind.\<close>

lemma crash_boot:
  assumes inv: "log_inv s" and q: "held s = {}" and j: "j \<le> length (commit_writes s)"
    and sb: "sb_log (log_start s) (nat (log_size s)) (memdisk s 1)" "1 \<notin> log_region s" "1 \<notin> pinned s" "1 < disksize s"
  shows "\<exists>r. initlog 1 (binit (boot_log (apply_writes (take j (commit_writes s)) (memdisk s)) (disksize s))) = Inr r \<and> log_inv r \<and>
    ((\<forall>m. m \<notin> log_region s \<longrightarrow> blk r m = memdisk s m) \<or> (\<forall>m. m \<notin> log_region s \<longrightarrow> blk r m = blk s m))"
proof -
  note l = log_invD [OF inv] and c = commit_setup [OF inv q]
  define E where "E = apply_writes (take j (commit_writes s)) (memdisk s)"
  have R: "log_region s = {log_start s..<log_start s + nat (log_size s)}" by (simp add: log_region_def)
  from crash_disk [OF c(1) j [unfolded c(2)] E_def [unfolded c(2)]]
  have e: "head_ok (log_start s) (nat (log_size s)) (disksize s) E"
    "\<And>m. m \<notin> log_region s \<Longrightarrow> m \<notin> pinned s \<Longrightarrow> E m = memdisk s m"
    "(\<forall>m. m \<notin> log_region s \<longrightarrow> recovered (log_start s) E m = memdisk s m) \<or>
     (\<forall>m. m \<notin> log_region s \<longrightarrow> recovered (log_start s) E m = blk s m)"
    unfolding R l(6) by blast+
  have "sb_log (log_start s) (nat (log_size s)) (E 1)" using sb e(2) by simp
  moreover have "log_start s + nat (log_size s) \<le> disksize s" "disksize s < 2 ^ 32" "0 < nat (log_size s)" "nat (log_size s) \<le> LOGSIZE"
    using l(2) by (auto simp: log_geom_def)
  ultimately show ?thesis using initlog_ok [of "boot_log E (disksize s)" "log_start s" "nat (log_size s)"] sb(4) e(1,3)
    unfolding E_def [symmetric] by fastforce
qed

text \<open>C1: Crash atomicity of the log. A commit returns, and after a crash at any point during its
  disk writes the next boot recovers a file system in which either none or all of the blocks of
  the transaction have their new contents; once the commit is over the new contents are on the
  disk.\<close>

theorem log_crash_atomic:
  assumes "log_inv s" and "held s = {}" and "sb_log (log_start s) (nat (log_size s)) (memdisk s 1)"
    and "1 \<notin> log_region s" and "1 \<notin> pinned s" and "1 < disksize s"
  shows "\<exists>s' ws. commit s = Inr s' \<and> dwrites s' = dwrites s @ ws \<and>
    (\<forall>m. m \<notin> log_region s \<longrightarrow> memdisk s' m = blk s m) \<and>
    (\<forall>j\<le>length ws. \<exists>r. initlog 1 (binit (boot_log (apply_writes (take j ws) (memdisk s)) (disksize s))) = Inr r \<and>
       ((\<forall>m. m \<notin> log_region s \<longrightarrow> blk r m = memdisk s m) \<or> (\<forall>m. m \<notin> log_region s \<longrightarrow> blk r m = blk s m)))"
proof (cases "0 < lh_n s")
  case True
  obtain s' where s': "commit s = Inr s'" "dwrites s' = dwrites s @ commit_writes s"
    "memdisk s' = apply_writes (commit_writes s) (memdisk s)"
    using commit_ok [OF assms(1,2) True] by blast
  have "memdisk s' m = blk s m" if "m \<notin> log_region s" for m
    using crash_finished(2) [OF commit_setup(1) [OF assms(1,2)] s'(3) [unfolded commit_setup(2) [OF assms(1,2)]]] that
    by (simp add: log_region_def)
  then show ?thesis
    using s' crash_boot [OF assms(1,2) _ assms(3-6)] by (intro exI [of _ s'] exI [of _ "commit_writes s"]) blast
next
  case False
  then have z: "lh_n s = 0" using log_invD(3) [OF assms(1)] by simp
  then have "pinned s = {}" using log_invD(6) [OF assms(1)] by simp
  then have "blk s = memdisk s" using clean_model [OF log_invD(1) [OF assms(1)]] assms(2) by (simp add: fun_eq_iff)
  moreover have "commit s = Inr s" using z by (simp add: commit_def)
  ultimately show ?thesis using crash_boot [OF assms(1,2) _ assms(3-6), of 0]
    by (intro exI [of _ s] exI [of _ "[]"]) auto
qed

text \<open>A small disk: 200 blocks, the log in blocks 2 to 31, everything else empty.\<close>

definition small_disk :: "nat \<Rightarrow> block" where
  "small_disk = (\<lambda>_. zero_block)(1 := put_u32 2 (put_u32 30 zero_block 12) 16)"

lemma small_disk_sb: "sb_log 2 30 (small_disk 1)"
  by (simp add: sb_log_def sb_of_def small_disk_def field_defs le_get_put le_get_put_other s32_id)

lemma small_disk_log: "get_s32 (small_disk 2) 0 = 0"
  by (simp add: small_disk_def field_defs s32_id)

text \<open>A booted system inside its first transaction.\<close>

lemma sample_boot:
  obtains s :: log_state where "log_inv s" "held s = {}" "pinned s = {}" "blk s = memdisk s" "log_start s = 2" "log_size s = 30" "disksize s = 200"
    "outstanding s = 1" "\<not> committing s" "lh_n s = 0" "\<forall>m. m \<noteq> 2 \<longrightarrow> memdisk s m = small_disk m"
proof -
  let ?s = "boot_log small_disk 200"
  have "head_ok 2 30 200 small_disk" using recovered_empty(2) [of small_disk 2, OF small_disk_log] by simp
  then obtain r :: log_state where r: "log_inv r" "held r = {}" "pinned r = {}" "memdisk r = recovered 2 small_disk" "blk r = memdisk r"
    "disksize r = 200" "log_start r = 2" "log_size r = 30" "outstanding r = 0" "\<not> committing r" "lh_n r = 0"
    using initlog_ok [of ?s 2 30] small_disk_sb by auto
  have m: "memdisk r m = small_disk m" if "m \<noteq> 2" for m
    using recovered_empty(1) [of small_disk 2, OF small_disk_log that] r(4) by simp
  let ?t = "r\<lparr>outstanding := 1\<rparr>"
  have "log_inv ?t" using r(1) by (simp add: log_inv_def log_geom_def log_region_def tx_blocks_def)
  then show thesis using r m by (intro that [of ?t]) simp_all
qed

lemma sample_tx:
  obtains s :: log_state where "log_inv s" "held s = {}" "sb_log (log_start s) (nat (log_size s)) (memdisk s 1)" "1 \<notin> log_region s"
    "1 \<notin> pinned s" "1 < disksize s" "lh_n s = 1" "outstanding s = 1" "\<not> committing s" "100 \<notin> log_region s"
    "blk s 100 = (\<lambda>_. 7)" "memdisk s 100 = zero_block"
proof -
  obtain s :: log_state where s: "log_inv s" "held s = {}" "pinned s = {}" "blk s = memdisk s" "log_start s = 2" "log_size s = 30" "disksize s = 200"
    "outstanding s = 1" "\<not> committing s" "lh_n s = 0" "\<forall>m. m \<noteq> 2 \<longrightarrow> memdisk s m = small_disk m"
    by (rule sample_boot)
  have R: "log_region s = {2..<32}" using s by (simp add: log_region_def)
  have p: "may_read s 100" "0 < room s" "1 \<le> outstanding s" using s R by (simp_all add: room_def may_read_def)
  obtain i s1 s2 s3 where "bread 1 100 s = Inr (i, s1)" "b_data (bufs s1 i) = blk s 100"
    "log_write i (set_data i (\<lambda>_ _. 7) s1) = Inr s2" "brelse i s2 = Inr s3" and 3: "tx_step {100} s s3"
    "blk s3 = (blk s)(100 := (\<lambda>_. 7))" "100 \<in> pinned s3" and "log_state.more s3 = log_state.more s"
    "log_state.more s1 = log_state.more s" "log_state.more s2 = log_state.more s"
    by (rule log_update [OF s(1) p])
  note t = tx_stepD [OF 3(1)] tx_frameD [OF tx_stepD(2) [OF 3(1)]]
  have pin: "pinned s3 = {100}" using t(6) s(3) 3(3) by auto
  then have n: "lh_n s3 = 1" using log_invD(3,8) [OF t(1)] by simp
  have "memdisk s3 1 = small_disk 1" "memdisk s3 100 = zero_block" using t(9) s(11) by (simp_all add: small_disk_def)
  then show thesis using s(1-10) 3(2) t(1,3) t(8-18) R n pin small_disk_sb by (intro that [of s3]) simp_all
qed

theorem log_crash_atomic_witness:
  "\<exists>s s' :: log_state. \<exists>ws. memdisk s 100 = zero_block \<and> blk s 100 = (\<lambda>_. 7) \<and> commit s = Inr s' \<and> memdisk s' 100 = (\<lambda>_. 7) \<and>
    dwrites s' = dwrites s @ ws \<and>
    (\<forall>j\<le>length ws. \<exists>r. initlog 1 (binit (boot_log (apply_writes (take j ws) (memdisk s)) (disksize s))) = Inr r \<and>
       (blk r 100 = zero_block \<or> blk r 100 = (\<lambda>_. 7)))"
proof -
  obtain s :: log_state where s: "log_inv s" "held s = {}" "sb_log (log_start s) (nat (log_size s)) (memdisk s 1)" "1 \<notin> log_region s"
    "1 \<notin> pinned s" "1 < disksize s" "100 \<notin> log_region s" "blk s 100 = (\<lambda>_. 7)" "memdisk s 100 = zero_block"
    by (rule sample_tx) blast
  from log_crash_atomic [OF s(1-6)] obtain s' ws where c: "commit s = Inr s'" "dwrites s' = dwrites s @ ws"
    "\<forall>m. m \<notin> log_region s \<longrightarrow> memdisk s' m = blk s m"
    "\<forall>j\<le>length ws. \<exists>r. initlog 1 (binit (boot_log (apply_writes (take j ws) (memdisk s)) (disksize s))) = Inr r \<and>
       ((\<forall>m. m \<notin> log_region s \<longrightarrow> blk r m = memdisk s m) \<or> (\<forall>m. m \<notin> log_region s \<longrightarrow> blk r m = blk s m))"
    by blast
  have "\<exists>r. initlog 1 (binit (boot_log (apply_writes (take j ws) (memdisk s)) (disksize s))) = Inr r \<and>
       (blk r 100 = zero_block \<or> blk r 100 = (\<lambda>_. 7))" if "j \<le> length ws" for j
    using c(4) that s(7-9) by metis
  moreover have "memdisk s' 100 = (\<lambda>_. 7)" using c(3) s(7,8) by simp
  ultimately show ?thesis using c(1,2) s(8,9) by blast
qed

text \<open>A crash during recovery itself: the installed blocks are those of the completed recovery.\<close>

lemma rec_writes_home:
  assumes "head_ok a sz N D"
  shows "rec_writes a D = map (\<lambda>k. (head_block a D k, recovered a D (head_block a D k))) [0..<head_n a D] @ [(a, put_s32 0 (D a) 0)]"
proof -
  have d: "distinct (map (head_block a D) [0..<head_n a D])" and o: "\<And>k. k < head_n a D \<Longrightarrow> head_block a D k \<noteq> a"
    using assms by (force simp: head_ok_def)+
  have "recovered a D (head_block a D k) = D (a + k + 1)" if "k < head_n a D" for k
    using apply_writes_map [OF d, of k "\<lambda>k. D (a + k + 1)" D] o [OF that] that by (simp add: recovered_def rec_writes_def)
  then show ?thesis by (simp add: rec_writes_def)
qed

lemma recovered_again:
  assumes ok: "head_ok a sz N D" and j: "j \<le> length (rec_writes a D)" and E: "E = apply_writes (take j (rec_writes a D)) D"
  shows "head_ok a sz N E" and "recovered a E = recovered a D" and "m \<notin> {a..<a + sz} \<Longrightarrow> m \<notin> head_block a D ` {0..<head_n a D} \<Longrightarrow> E m = D m"
proof -
  let ?n = "head_n a D" and ?b = "head_block a D" and ?V = "recovered a D"
  note w = rec_writes_home [OF ok]
  have b: "?b k \<notin> {a..<a + sz}" if "k < ?n" for k using ok that by (simp add: head_ok_def)
  have n: "?n < sz" using ok by (simp add: head_ok_def)
  have V: "?V m = (if m = a then put_s32 0 (D a) 0 else if m \<in> ?b ` {0..<?n} then ?V m else D m)" for m
    using apply_home [of ?b ?V ?n D m] by (subst recovered_def, subst w) (simp add: fun_upd_def)
  consider k where "k \<le> ?n" "take j (rec_writes a D) = map (\<lambda>k. (?b k, ?V (?b k))) [0..<k]" | "take j (rec_writes a D) = rec_writes a D"
  proof -
    have "length (rec_writes a D) = Suc ?n" by (simp add: rec_writes_def)
    then consider "j \<le> ?n" | "j = length (rec_writes a D)" using j by linarith
    then show thesis using that by cases (simp_all add: w take_map)
  qed
  then have "head_ok a sz N E \<and> ?V = recovered a E \<and> (\<forall>m. m \<notin> {a..<a + sz} \<and> m \<notin> ?b ` {0..<?n} \<longrightarrow> E m = D m)"
  proof cases
    case (1 k)
    have Em: "E m = (if m \<in> ?b ` {0..<k} then ?V m else D m)" for m unfolding E 1(2) by (rule apply_home)
    have reg: "E m = D m" if "m \<in> {a..<a + sz}" for m using Em [of m] b 1(1) that by auto
    have Ea: "E a = D a" using reg [of a] n by simp
    have h: "head_n a E = ?n" by (simp add: head_n_def Ea)
    have hb: "head_block a E = ?b" by (rule ext) (simp add: head_block_def Ea)
    have "?V m = recovered a E m" for m
    proof (cases "m = a")
      case True
      have "recovered a E a = put_s32 0 (E a) 0" by (simp add: recovered_def rec_writes_def)
      then show ?thesis using V [of a] Ea True by simp
    next
      case False
      have v: "E (a + i + 1) = ?V (?b i)" if "i < ?n" for i
      proof -
        have "rec_writes a D = map (\<lambda>k. (?b k, D (a + k + 1))) [0..<?n] @ [(a, put_s32 0 (D a) 0)]" by (simp add: rec_writes_def)
        then have "D (a + i + 1) = ?V (?b i)" using w that by (simp add: map_eq_conv)
        then show ?thesis using reg [of "a + i + 1"] that n by simp
      qed
      have "recovered a E m = (if m \<in> ?b ` {0..<?n} then ?V m else E m)"
        by (rule recovered_full [OF h _ False]) (use hb v in simp)
      then show ?thesis using V [of m] Em [of m] 1(1) False by auto
    qed
    moreover have "head_ok a sz N E" using ok Ea h hb by (simp add: head_ok_def)
    ultimately show ?thesis using Em 1(1) by (auto simp: fun_eq_iff)
  next
    case 2
    then have EV: "E = ?V" by (simp add: E recovered_def)
    have z: "get_s32 (E a) 0 = 0" using V [of a] by (simp add: EV get_put_s32 s32_id)
    have "put_s32 0 (E a) 0 = E a"
    proof -
      have "put_s32 0 (put_s32 0 (D a) 0) 0 = put_s32 0 (D a) 0" by (simp add: field_defs)
      then show ?thesis using V [of a] by (simp add: EV)
    qed
    then have "recovered a E a = E a" using z by (simp add: recovered_def rec_writes_def head_n_def)
    then have "recovered a E = E" using recovered_empty(1) [of E a, OF z] by (metis ext)
    moreover have "E m = D m" if "m \<notin> {a..<a + sz}" "m \<notin> ?b ` {0..<?n}" for m using V [of m] that n EV by auto
    moreover have "head_ok a sz N E" using recovered_empty(2) [of E a, OF z] n by simp
    ultimately show ?thesis using EV by simp
  qed
  then show "head_ok a sz N E" "recovered a E = ?V" "m \<notin> {a..<a + sz} \<Longrightarrow> m \<notin> ?b ` {0..<?n} \<Longrightarrow> E m = D m"
    by simp_all
qed

text \<open>C6: Recovery is idempotent. If the machine crashes at any point while booting from a disk with
  a well-formed log header, the next boot leaves exactly the disk that the interrupted one would
  have left.\<close>

theorem recovery_idempotent:
  assumes "head_ok a sz N D" and "sb_log a sz (D 1)" and "1 \<notin> {a..<a + sz}" and "1 \<notin> head_block a D ` {0..<head_n a D}"
    and "1 < N" "a + sz \<le> N" "N < 2 ^ 32" "sz \<le> LOGSIZE"
  shows "\<exists>r. initlog 1 (binit (boot_log D N)) = Inr r \<and>
    (\<forall>j\<le>length (dwrites r). \<exists>r'. initlog 1 (binit (boot_log (apply_writes (take j (dwrites r)) D) N)) = Inr r' \<and>
       memdisk r' = memdisk r \<and> blk r' = blk r)"
proof -
  have sz: "0 < sz" using assms(1) by (simp add: head_ok_def)
  obtain r where r: "initlog 1 (binit (boot_log D N)) = Inr r" "memdisk r = recovered a D" "blk r = memdisk r" "dwrites r = rec_writes a D"
    using initlog_ok [of "boot_log D N" a sz] assms sz by auto
  have "\<exists>r'. initlog 1 (binit (boot_log (apply_writes (take j (rec_writes a D)) D) N)) = Inr r' \<and> memdisk r' = memdisk r \<and> blk r' = blk r"
    if "j \<le> length (rec_writes a D)" for j
  proof -
    define E where "E = apply_writes (take j (rec_writes a D)) D"
    note e = recovered_again [OF assms(1) that E_def]
    have "E 1 = D 1" by (rule e(3)) (use assms(3,4) in simp_all)
    then have "\<exists>r'. initlog 1 (binit (boot_log E N)) = Inr r' \<and> memdisk r' = recovered a E \<and> blk r' = memdisk r'"
      using initlog_ok [of "boot_log E N" a sz] assms sz e(1) by auto
    then show ?thesis unfolding E_def [symmetric] using e(2) r(2,3) by auto
  qed
  then show ?thesis using r(1,4) by auto
qed

lemma end_op_last:
  assumes "log_inv s" and "held s = {}" and "outstanding s = 1" and "\<not> committing s"
  shows "\<exists>s'. end_op s = Inr s' \<and> log_inv s' \<and> outstanding s' = 0 \<and> \<not> committing s' \<and> lh_n s' = 0 \<and> pinned s' = {} \<and>
    (\<forall>m. m \<notin> log_region s \<longrightarrow> memdisk s' m = blk s m \<and> blk s' m = blk s m)"
proof -
  let ?t = "s\<lparr>outstanding := 0, committing := True\<rparr>"
  have inv: "log_inv ?t" using assms(1) by (simp add: log_inv_def log_geom_def log_region_def tx_blocks_def)
  have h: "held ?t = {}" and b: "blk ?t = blk s" and R: "log_region ?t = log_region s"
    using assms(2) by (simp_all add: log_region_def)
  obtain s' where c: "commit ?t = Inr s'" "log_inv s'" "held s' = {}" "lh_n s' = 0" "outstanding s' = 0"
    and out: "\<And>m. m \<notin> log_region s \<Longrightarrow> memdisk s' m = blk s m"
  proof (cases "0 < lh_n s")
    case True
    then obtain s' where s': "commit ?t = Inr s'" "log_inv s'" "held s' = {}" "lh_n s' = 0"
      "memdisk s' = apply_writes (commit_writes ?t) (memdisk ?t)" "bio.more s' = bio.more (?t\<lparr>lh_n := 0\<rparr>)"
      using commit_ok [OF inv h] by auto
    have "outstanding s' = 0" using log_more(3) [OF s'(6)] by simp
    moreover have "memdisk s' m = blk s m" if "m \<notin> log_region s" for m
      using crash_finished(2) [OF commit_setup(1) [OF inv h] s'(5) [unfolded commit_setup(2) [OF inv h]], of m] that R
      by (simp add: log_region_def)
    ultimately show thesis using that s' by blast
  next
    case False
    then have z: "lh_n s = 0" using log_invD(3) [OF assms(1)] by simp
    then have "pinned s = {}" using log_invD(6) [OF assms(1)] by simp
    then have "memdisk s = blk s" using clean_model [OF log_invD(1) [OF assms(1)]] assms(2) by (simp add: fun_eq_iff)
    then show thesis using that [of ?t] z inv h by (simp add: commit_def)
  qed
  let ?r = "s'\<lparr>committing := False\<rparr>"
  have p: "pinned s' = {}" using log_invD(6) [OF c(2)] c(4) by simp
  have "end_op s = Inr ?r" using c(1) assms(3,4) by (simp add: end_op_def)
  moreover have "log_inv ?r" using c(2) by (simp add: log_inv_def log_geom_def log_region_def tx_blocks_def)
  moreover have "blk s' m = memdisk s' m" for m using clean_model [OF log_invD(1) [OF c(2)]] p c(3) by simp
  ultimately show ?thesis using c p out by (intro exI [of _ ?r]) simp
qed

text \<open>C13: The last operation of a transaction makes it durable: \<^verbatim>\<open>end_op\<close> returns, the disk then
  holds what the file system sees, and the log is empty and open for the next transaction.\<close>

theorem end_op_durable:
  assumes "log_inv s" and "held s = {}" and "outstanding s = 1" and "\<not> committing s"
  shows "\<exists>s'. end_op s = Inr s' \<and> log_inv s' \<and> outstanding s' = 0 \<and> \<not> committing s' \<and> lh_n s' = 0 \<and> pinned s' = {} \<and>
    (\<forall>m. m \<notin> log_region s \<longrightarrow> memdisk s' m = blk s m \<and> blk s' m = blk s m)"
  by (rule end_op_last [OF assms])

theorem end_op_durable_witness:
  "\<exists>s s' :: log_state. memdisk s 100 = zero_block \<and> end_op s = Inr s' \<and> memdisk s' 100 = (\<lambda>_. 7) \<and> outstanding s' = 0 \<and> lh_n s' = 0"
proof -
  obtain s :: log_state where s: "log_inv s" "held s = {}" "outstanding s = 1" "\<not> committing s" "100 \<notin> log_region s"
    "blk s 100 = (\<lambda>_. 7)" "memdisk s 100 = zero_block"
    by (rule sample_tx) blast
  from end_op_durable [OF s(1-4)] s(5-7) show ?thesis by metis
qed

theorem recovery_idempotent_witness:
  "\<exists>r. initlog 1 (binit (boot_log small_disk 200)) = Inr r \<and>
    (\<forall>j\<le>length (dwrites r). \<exists>r'. initlog 1 (binit (boot_log (apply_writes (take j (dwrites r)) small_disk) 200)) = Inr r' \<and>
       memdisk r' = memdisk r \<and> blk r' = blk r)"
  by (rule recovery_idempotent [of 2 30])
    (use recovered_empty(2) [of small_disk 2, OF small_disk_log] small_disk_sb small_disk_log in \<open>simp_all add: head_n_def\<close>)

end
