(* ===== verification/Reserve.thy ===== *)
theory Reserve
  imports Crash
begin

text \<open>
  Log space under concurrent file-system calls. Each call in progress has the number of blocks it
  may still log under the comment in \<^verbatim>\<open>param.h\<close> (\<^verbatim>\<open>MAXOPBLOCKS\<close>: \<open>max # of blocks any FS op
  writes\<close>); the steps of different calls interleave freely, each operation of \<^verbatim>\<open>log.c\<close> and
  \<^verbatim>\<open>bio.c\<close> being one step.
\<close>

inductive ops_step :: "(nat \<rightharpoonup> nat) \<times> log_state \<Rightarrow> (nat \<rightharpoonup> nat) \<times> log_state \<Rightarrow> bool" where
  begin_op: "w p = None \<Longrightarrow> begin_op s = Inr s' \<Longrightarrow> ops_step (w, s) (w(p \<mapsto> MAXOPBLOCKS), s')"
| put: "w p = Some (Suc k) \<Longrightarrow> holds s i n \<Longrightarrow> n < disksize s \<Longrightarrow> n \<notin> log_region s \<Longrightarrow>
    log_write i (set_data i f s) = Inr s' \<Longrightarrow> ops_step (w, s) (w(p \<mapsto> k), s')"
| read: "may_read s n \<Longrightarrow> bread 1 n s = Inr (i, s') \<Longrightarrow> ops_step (w, s) (w, s')"
| release: "holds s i n \<Longrightarrow> n \<in> pinned s \<or> blk s n = memdisk s n \<Longrightarrow> brelse i s = Inr s' \<Longrightarrow> ops_step (w, s) (w, s')"
| end_op: "w p = Some k \<Longrightarrow> held s = {} \<Longrightarrow> end_op s = Inr s' \<Longrightarrow> ops_step (w, s) (w(p := None), s')"

definition reserved :: "(nat \<rightharpoonup> nat) \<Rightarrow> nat" where
  "reserved w = (\<Sum>p\<in>dom w. the (w p))"

definition ops_inv :: "(nat \<rightharpoonup> nat) \<times> log_state \<Rightarrow> bool" where
  "ops_inv = (\<lambda>(w, s). log_inv s \<and> \<not> committing s \<and> finite (dom w) \<and> outstanding s = int (card (dom w)) \<and>
     lh_n s + int (reserved w) \<le> int LOGSIZE \<and> (\<forall>k\<in>ran w. k \<le> MAXOPBLOCKS))"

lemma reserved_upd: "finite (dom w) \<Longrightarrow> w p = None \<Longrightarrow> reserved (w(p \<mapsto> k)) = reserved w + k"
  by (auto simp: reserved_def domIff intro!: sum.cong)

lemma reserved_del: "finite (dom w) \<Longrightarrow> w p = Some k \<Longrightarrow> reserved w = reserved (w(p := None)) + k"
proof -
  assume a: "finite (dom w)" "w p = Some k"
  have "w = (w(p := None))(p \<mapsto> k)" using a(2) by (simp add: fun_upd_idem)
  then show ?thesis using reserved_upd [of "w(p := None)" p k] a(1) by simp
qed

lemma reserved_put: "finite (dom w) \<Longrightarrow> w p = Some (Suc k) \<Longrightarrow> reserved w = Suc (reserved (w(p \<mapsto> k)))"
  using reserved_del [of w p "Suc k"] reserved_del [of "w(p \<mapsto> k)" p k] by simp

lemma ops_inv_step:
  assumes "ops_step x y" and "ops_inv x"
  shows "ops_inv y"
  using assms
proof (induction rule: ops_step.induct)
  case (begin_op w p s s')
  then have s': "s' = s\<lparr>outstanding := outstanding s + 1\<rparr>"
    and le: "lh_n s + (outstanding s + 1) * int MAXOPBLOCKS \<le> int LOGSIZE"
    by (auto simp: begin_op_def split: if_splits)
  have i: "log_inv s" "finite (dom w)" "outstanding s = int (card (dom w))" "\<forall>k\<in>ran w. k \<le> MAXOPBLOCKS"
    using begin_op.prems by (simp_all add: ops_inv_def)
  have "reserved w \<le> (\<Sum>p\<in>dom w. MAXOPBLOCKS)"
    unfolding reserved_def using i(4) by (intro sum_mono) (auto simp: ran_def)
  then have "int (reserved w) \<le> outstanding s * int MAXOPBLOCKS" using i(3) by simp
  with le have "lh_n s + int (reserved w + MAXOPBLOCKS) \<le> int LOGSIZE" by simp
  moreover have "log_inv s'" using i(1) by (simp add: s' log_inv_def log_geom_def log_region_def tx_blocks_def)
  moreover have "card (dom (w(p \<mapsto> MAXOPBLOCKS))) = Suc (card (dom w))" using begin_op.hyps(1) i(2) by (simp add: domIff)
  moreover have "ran (w(p \<mapsto> MAXOPBLOCKS)) \<subseteq> insert MAXOPBLOCKS (ran w)" using begin_op.hyps(1) by simp
  ultimately show ?case using begin_op.prems i begin_op.hyps(1)
    by (auto simp: ops_inv_def s' reserved_upd)
next
  case (put w p k s i n f s')
  have i: "log_inv s" "finite (dom w)" "outstanding s = int (card (dom w))" "\<forall>k\<in>ran w. k \<le> MAXOPBLOCKS"
    "lh_n s + int (reserved w) \<le> int LOGSIZE" "\<not> committing s"
    using put.prems by (simp_all add: ops_inv_def)
  let ?t = "set_data i f s"
  have more: "bio.more ?t = bio.more s" by simp
  have "\<not> lh_n ?t \<ge> log_size ?t - 1" "\<not> outstanding ?t < 1" using put.hyps(5) by (auto simp: log_write_def split: if_splits)
  then have r: "0 < room s" "1 \<le> outstanding s" by (simp_all add: room_def log_more [OF more])
  obtain s2 where 2: "log_write i ?t = Inr s2" "log_inv s2" "holds s2 = holds s" "held s2 = held s"
    "blk s2 = (blk s)(n := f (blk s n))" "pinned s2 = insert n (pinned s)"
    "lh_n s2 = (if n \<in> pinned s then lh_n s else lh_n s + 1)" "tx_frame s2 = tx_frame s" "log_state.more s2 = log_state.more s"
    by (rule log_put [OF i(1) put.hyps(2) r put.hyps(3,4), where f = f])
  have "ran (w(p \<mapsto> k)) \<subseteq> insert k (ran w)" by (auto simp: ran_def)
  moreover have "Suc k \<in> ran w" using put.hyps(1) by (rule ranI)
  then have "k \<le> MAXOPBLOCKS" using i(4) by fastforce
  moreover have "dom (w(p \<mapsto> k)) = dom w" using put.hyps(1) by auto
  ultimately show ?case
    using i 2 put.hyps(1,5) reserved_put [OF i(2) put.hyps(1)] tx_frameD [OF 2(8)] by (auto simp: ops_inv_def)
next
  case (read s n i s' w)
  have i: "log_inv s" using read.prems by (simp add: ops_inv_def)
  have "\<exists>s1. bread 1 n s = Inr (i, s1) \<and> log_inv s1 \<and> tx_frame s1 = tx_frame s \<and> lh_n s1 = lh_n s"
    using log_read [OF i, of n] read.hyps unfolding may_read_def by (metis Pair_inject sum.inject(2))
  then show ?case using read tx_frameD [of s' s] by (auto simp: ops_inv_def)
next
  case (release s i n s' w)
  have i: "log_inv s" using release.prems by (simp add: ops_inv_def)
  have "\<exists>s1. brelse i s = Inr s1 \<and> log_inv s1 \<and> tx_frame s1 = tx_frame s \<and> lh_n s1 = lh_n s"
    using log_release [OF i release.hyps(1,2)] by metis
  then show ?case using release tx_frameD [of s' s] by (auto simp: ops_inv_def)
next
  case (end_op w p k s s')
  have i: "log_inv s" "finite (dom w)" "outstanding s = int (card (dom w))" "\<forall>k\<in>ran w. k \<le> MAXOPBLOCKS"
    "lh_n s + int (reserved w) \<le> int LOGSIZE" "\<not> committing s"
    using end_op.prems by (simp_all add: ops_inv_def)
  have c: "card (dom w) = Suc (card (dom (w(p := None))))"
    using card_Suc_Diff1 [OF i(2) domI [of w p k, OF end_op.hyps(1)]] by simp
  have le: "reserved (w(p := None)) \<le> reserved w" using reserved_del [OF i(2) end_op.hyps(1)] by simp
  have ran: "ran (w(p := None)) \<subseteq> ran w" by (auto simp: ran_def)
  show ?case
  proof (cases "outstanding s = 1")
    case True
    from end_op_last [OF i(1) end_op.hyps(2) True i(6)] end_op.hyps(3)
    have "log_inv s'" "outstanding s' = 0" "\<not> committing s'" "lh_n s' = 0" by auto
    then show ?thesis using i c le ran True log_invD(3) [OF i(1)] by (auto simp: ops_inv_def)
  next
    case False
    then have s': "s' = s\<lparr>outstanding := outstanding s - 1\<rparr>" using end_op.hyps(3) i(6) by (simp add: end_op_def)
    have "log_inv s'" using i(1) by (simp add: s' log_inv_def log_geom_def log_region_def tx_blocks_def)
    then show ?thesis using i c le ran by (auto simp: ops_inv_def s')
  qed
qed

definition ops_reach :: "log_state \<Rightarrow> (nat \<rightharpoonup> nat) \<Rightarrow> log_state \<Rightarrow> bool" where
  "ops_reach s0 w s \<longleftrightarrow> ops_step\<^sup>*\<^sup>* (\<lambda>_. None, s0) (w, s)"

lemma ops_inv_reach:
  assumes "ops_reach s0 w s" and "log_inv s0" and "outstanding s0 = 0" and "\<not> committing s0"
  shows "ops_inv (w, s)"
proof -
  have "ops_step\<^sup>*\<^sup>* (\<lambda>_. None, s0) (w, s)" using assms(1) by (simp add: ops_reach_def)
  then show ?thesis
  proof (induction rule: rtranclp_induct)
    case base
    have "lh_n s0 \<le> int LOGSIZE" using log_invD(2,4) [OF assms(2)] by (auto simp: log_geom_def tx_blocks_def)
    then show ?case using assms(2-4) by (simp add: ops_inv_def reserved_def)
  next
    case (step y z)
    then show ?case using ops_inv_step by blast
  qed
qed


text \<open>The reservations of three calls after \<open>k\<close> blocks were logged, call by call.\<close>

definition shares :: "nat \<Rightarrow> nat \<rightharpoonup> nat" where
  "shares k = (\<lambda>p. if p < 3 then Some (if p < k div 10 then 0 else if p = k div 10 then 10 - k mod 10 else 10) else None)"

lemma shares_Suc: "k < 30 \<Longrightarrow> shares (Suc k) = (shares k)(k div 10 \<mapsto> 9 - k mod 10)"
  by (rule ext) (auto simp: shares_def div_Suc mod_Suc)

lemma shares_get: "k < 30 \<Longrightarrow> shares k (k div 10) = Some (Suc (9 - k mod 10))"
proof -
  assume "k < 30"
  then have "k div 10 < 3" by linarith
  moreover have "10 - k mod 10 = Suc (9 - k mod 10)" using mod_less_divisor [of 10 k] by linarith
  ultimately show ?thesis by (simp add: shares_def)
qed

lemma reach_step: "ops_reach s0 w s \<Longrightarrow> ops_step (w, s) (w', s') \<Longrightarrow> ops_reach s0 w' s'"
  unfolding ops_reach_def by (rule rtranclp.rtrancl_into_rtrancl)

lemma fill_log:
  assumes s0: "log_inv s0" "held s0 = {}" "pinned s0 = {}" "lh_n s0 = 0" "outstanding s0 = 0" "\<not> committing s0"
    "log_start s0 = 2" "log_size s0 = 30" "disksize s0 = 200" and "k \<le> 29"
  shows "\<exists>s. ops_reach s0 (shares k) s \<and> log_inv s \<and> held s = {} \<and> pinned s = {100..<100 + k} \<and> outstanding s = 3 \<and>
    log_start s = 2 \<and> log_size s = 30 \<and> disksize s = 200"
  using assms(10)
proof (induction k)
  case 0
  let ?o = "\<lambda>n. s0\<lparr>outstanding := n\<rparr>"
  have o: "?o 0 = s0" using s0(5) by simp
  have st: "ops_step (w, ?o n) (w(p \<mapsto> 10), ?o (n + 1))" if "w p = None" "n < 3" for w p n
    by (rule ops_step.begin_op) (use that s0 in \<open>auto simp: begin_op_def\<close>)
  have "ops_reach s0 ((\<lambda>_. None)(0 \<mapsto> 10)) (?o 1)"
    using st [of "\<lambda>_. None" 0 0] o by (simp add: ops_reach_def r_into_rtranclp)
  then have "ops_reach s0 ((\<lambda>_. None)(0 \<mapsto> 10, 1 \<mapsto> 10)) (?o 2)"
    using st [of "(\<lambda>_. None)(0 \<mapsto> 10)" 1 1] by (auto intro: reach_step)
  then have "ops_reach s0 ((\<lambda>_. None)(0 \<mapsto> 10, 1 \<mapsto> 10, 2 \<mapsto> 10)) (?o 3)"
    using st [of "(\<lambda>_. None)(0 \<mapsto> 10, 1 \<mapsto> 10)" 2 2] by (auto intro: reach_step)
  moreover have "(\<lambda>_. None)(0 \<mapsto> 10, 1 \<mapsto> 10, 2 \<mapsto> 10) = shares 0" by (rule ext) (auto simp: shares_def)
  moreover have "log_inv (?o 3)" using s0(1) by (simp add: log_inv_def log_geom_def log_region_def tx_blocks_def)
  ultimately show ?case using s0 by (intro exI [of _ "?o 3"]) simp
next
  case (Suc k)
  then obtain s where s: "ops_reach s0 (shares k) s" "log_inv s" "held s = {}" "pinned s = {100..<100 + k}" "outstanding s = 3"
    "log_start s = 2" "log_size s = 30" "disksize s = 200" by auto
  have n: "lh_n s = int k" using log_invD(3,8) [OF s(2)] s(4) by simp
  have m: "may_read s (100 + k)" using s Suc.prems by (simp add: may_read_def log_region_def)
  obtain i s1 where 1: "bread 1 (100 + k) s = Inr (i, s1)" "log_inv s1" "holds s1 i (100 + k)" "pinned s1 = pinned s"
    "held s1 = {100 + k}" "tx_frame s1 = tx_frame s" "lh_n s1 = lh_n s"
    using log_read [OF s(2), of "100 + k"] m s(3) unfolding may_read_def by metis
  note t1 = tx_frameD [OF 1(6)]
  have r: "0 < room s1" "1 \<le> outstanding s1" "100 + k < disksize s1" "100 + k \<notin> log_region s1"
    using s t1 1(7) n Suc.prems by (simp_all add: room_def log_region_def)
  obtain s2 where 2: "log_write i (set_data i (\<lambda>d. d) s1) = Inr s2" "log_inv s2" "holds s2 = holds s1" "held s2 = held s1"
    "blk s2 = (blk s1)(100 + k := blk s1 (100 + k))" "pinned s2 = insert (100 + k) (pinned s1)"
    "lh_n s2 = (if 100 + k \<in> pinned s1 then lh_n s1 else lh_n s1 + 1)" "tx_frame s2 = tx_frame s1" "log_state.more s2 = log_state.more s1"
    by (rule log_put [OF 1(2,3) r, where f = "\<lambda>d. d"])
  have h2: "holds s2 i (100 + k)" "100 + k \<in> pinned s2 \<or> blk s2 (100 + k) = memdisk s2 (100 + k)" using 1(3) 2(3,6) by simp_all
  obtain s3 where 3: "brelse i s2 = Inr s3" "log_inv s3" "pinned s3 = pinned s2" "held s3 = held s2 - {100 + k}" "tx_frame s3 = tx_frame s2"
    using log_release [OF 2(2) h2] by metis
  note t = tx_frameD [OF 3(5)] tx_frameD [OF 2(8)] t1
  have k: "k < 30" using Suc.prems by simp
  have "ops_reach s0 (shares k) s1" by (rule reach_step [OF s(1) ops_step.read [OF m 1(1)]])
  then have "ops_reach s0 (shares (Suc k)) s2"
    using ops_step.put [of "shares k" "k div 10" "9 - k mod 10", OF shares_get [OF k] 1(3) r(3,4) 2(1)] by (auto simp: shares_Suc [OF k] intro: reach_step)
  then have "ops_reach s0 (shares (Suc k)) s3" by (rule reach_step [OF _ ops_step.release [OF h2 3(1)]])
  moreover have "pinned s3 = {100..<100 + Suc k}" using 3(3) 2(6) 1(4) s(4) by auto
  ultimately show ?case using 3 2(4) 1(5) s t by (intro exI [of _ s3]) simp
qed

text \<open>C19: The reservation is one block short for the log that \<^verbatim>\<open>mkfs\<close> makes (\<^verbatim>\<open>nlog = LOGSIZE\<close>). From a
  fresh boot, three calls may run at once, each within its share, until the last of them panics in
  \<^verbatim>\<open>log_write\<close> with \<open>too big a transaction\<close> while it is still entitled to another block.\<close>

theorem log_reservation_short:
  "\<exists>s0 w s i n. log_inv s0 \<and> log_size s0 = int LOGSIZE \<and> outstanding s0 = 0 \<and> \<not> committing s0 \<and> ops_reach s0 w s \<and>
    w 2 = Some 1 \<and> holds s i n \<and> n < disksize s \<and> n \<notin> log_region s \<and> log_write i s = Inl (Panic ''too big a transaction'')"
proof -
  obtain b :: log_state where b: "log_inv b" "held b = {}" "pinned b = {}" "blk b = memdisk b" "log_start b = 2" "log_size b = 30" "disksize b = 200"
    "outstanding b = 1" "\<not> committing b" "lh_n b = 0" "\<forall>m. m \<noteq> 2 \<longrightarrow> memdisk b m = small_disk m"
    by (rule sample_boot)
  define s0 where "s0 = b\<lparr>outstanding := 0\<rparr>"
  have s0: "log_inv s0" "held s0 = {}" "pinned s0 = {}" "lh_n s0 = 0" "outstanding s0 = 0" "\<not> committing s0"
    "log_start s0 = 2" "log_size s0 = 30" "disksize s0 = 200"
    using b by (simp_all add: s0_def log_inv_def log_geom_def log_region_def tx_blocks_def)
  obtain s where s: "ops_reach s0 (shares 29) s" "log_inv s" "held s = {}" "pinned s = {100..<129}" "outstanding s = 3"
    "log_start s = 2" "log_size s = 30" "disksize s = 200" using fill_log [OF s0, of 29] by auto
  have n: "lh_n s = 29" using log_invD(3,8) [OF s(2)] s(4) by simp
  have m: "may_read s 150" using s by (simp add: may_read_def log_region_def)
  obtain i s1 where 1: "bread 1 150 s = Inr (i, s1)" "holds s1 i 150" "tx_frame s1 = tx_frame s" "lh_n s1 = lh_n s"
    using log_read [OF s(2), of 150] m s(3) unfolding may_read_def by metis
  note t1 = tx_frameD [OF 1(3)]
  have "ops_reach s0 (shares 29) s1" by (rule reach_step [OF s(1) ops_step.read [OF m 1(1)]])
  moreover have "shares 29 2 = Some 1" by (simp add: shares_def)
  moreover have "log_write i s1 = Inl (Panic ''too big a transaction'')" using n t1 1(4) s by (simp add: log_write_def)
  moreover have "150 < disksize s1" "150 \<notin> log_region s1" using t1 s by (simp_all add: log_region_def)
  ultimately show ?thesis using s0 1(2) by (intro exI [of _ s0] exI [of _ "shares 29"] exI [of _ s1] exI [of _ i] exI [of _ 150]) simp
qed


end
