(* ===== verification/Kstring.thy ===== *)
theory Kstring
  imports Prelude
begin

text \<open>
  The string functions of the kernel (\<^verbatim>\<open>string.c\<close>) and of the user library (\<^verbatim>\<open>ulib.c\<close>). Memory is
  a map from addresses to bytes, pointers are addresses; loops that run to a NUL byte are partial
  functions, so that an unterminated string gives \<open>None\<close>. The functions return their first
  argument in C; the model returns the memory they leave behind, or the value they compute.
\<close>

section \<open>Memory\<close>

type_synonym mem = "nat \<Rightarrow> byte"

text \<open>\<^verbatim>\<open>rep stosb\<close> and \<^verbatim>\<open>rep stosl\<close> of \<^verbatim>\<open>x86.h\<close>.\<close>

fun stosb :: "nat \<Rightarrow> byte \<Rightarrow> nat \<Rightarrow> mem \<Rightarrow> mem" where
  "stosb addr data 0 m = m"
| "stosb addr data (Suc cnt) m = stosb (addr + 1) data cnt (m(addr := data))"

fun stosl :: "nat \<Rightarrow> 32 word \<Rightarrow> nat \<Rightarrow> mem \<Rightarrow> mem" where
  "stosl addr data 0 m = m"
| "stosl addr data (Suc cnt) m = stosl (addr + 4) data cnt (le_put 4 (unat data) m addr)"

definition memset :: "nat \<Rightarrow> 32 word \<Rightarrow> nat \<Rightarrow> mem \<Rightarrow> mem" where
  "memset dst c n m =
     (if dst mod 4 = 0 \<and> n mod 4 = 0
      then let c = c AND 0xFF
           in stosl dst (push_bit 24 c OR push_bit 16 c OR push_bit 8 c OR c) (n div 4) m
      else stosb dst (ucast c) n m)"

fun memcmp :: "nat \<Rightarrow> nat \<Rightarrow> nat \<Rightarrow> mem \<Rightarrow> int" where
  "memcmp s1 s2 0 m = 0"
| "memcmp s1 s2 (Suc n) m = (if m s1 \<noteq> m s2 then uint (m s1) - uint (m s2) else memcmp (s1 + 1) (s2 + 1) n m)"

text \<open>The two loops of \<^verbatim>\<open>memmove\<close>.\<close>

fun copy_down :: "nat \<Rightarrow> nat \<Rightarrow> nat \<Rightarrow> mem \<Rightarrow> mem" where
  "copy_down d s 0 m = m"
| "copy_down d s (Suc n) m = copy_down d s n (m(d + n := m (s + n)))"

fun copy_up :: "nat \<Rightarrow> nat \<Rightarrow> nat \<Rightarrow> mem \<Rightarrow> mem" where
  "copy_up d s 0 m = m"
| "copy_up d s (Suc n) m = copy_up (d + 1) (s + 1) n (m(d := m s))"

definition memmove :: "nat \<Rightarrow> nat \<Rightarrow> nat \<Rightarrow> mem \<Rightarrow> mem" where
  "memmove dst src n m = (if src < dst \<and> src + n > dst then copy_down dst src n m else copy_up dst src n m)"

definition memcpy :: "nat \<Rightarrow> nat \<Rightarrow> nat \<Rightarrow> mem \<Rightarrow> mem" where
  "memcpy dst src n m = memmove dst src n m"

fun strncmp :: "nat \<Rightarrow> nat \<Rightarrow> nat \<Rightarrow> mem \<Rightarrow> int" where
  "strncmp p q 0 m = 0"
| "strncmp p q (Suc n) m =
     (if m p \<noteq> 0 \<and> m p = m q then strncmp (p + 1) (q + 1) n m else uint (m p) - uint (m q))"

fun strncpy :: "nat \<Rightarrow> nat \<Rightarrow> nat \<Rightarrow> mem \<Rightarrow> mem" where
  "strncpy s t 0 m = m"
| "strncpy s t (Suc n) m =
     (let c = m t; m = m(s := c) in if c \<noteq> 0 then strncpy (s + 1) (t + 1) n m else stosb (s + 1) 0 n m)"

text \<open>The loop of \<^verbatim>\<open>safestrcpy\<close> after its first test, with \<open>n\<close> bytes left including the NUL.\<close>

fun safestrcpy_loop :: "nat \<Rightarrow> nat \<Rightarrow> nat \<Rightarrow> mem \<Rightarrow> mem" where
  "safestrcpy_loop s t 0 m = m(s := 0)"
| "safestrcpy_loop s t (Suc n) m =
     (let c = m t; m = m(s := c) in if c \<noteq> 0 then safestrcpy_loop (s + 1) (t + 1) n m else m(s + 1 := 0))"

definition safestrcpy :: "nat \<Rightarrow> nat \<Rightarrow> int \<Rightarrow> mem \<Rightarrow> mem" where
  "safestrcpy s t n m = (if n \<le> 0 then m else safestrcpy_loop s t (nat (n - 1)) m)"

partial_function (option) strlen_from :: "nat \<Rightarrow> nat \<Rightarrow> mem \<Rightarrow> nat option" where
  "strlen_from s n m = (if m (s + n) \<noteq> 0 then strlen_from s (n + 1) m else Some n)"

definition strlen :: "nat \<Rightarrow> mem \<Rightarrow> nat option" where
  "strlen s m = strlen_from s 0 m"

section \<open>User library\<close>

partial_function (option) strcpy :: "nat \<Rightarrow> nat \<Rightarrow> mem \<Rightarrow> mem option" where
  "strcpy s t m = (let c = m t; m' = m(s := c) in if c \<noteq> 0 then strcpy (s + 1) (t + 1) m' else Some m')"

partial_function (option) strcmp :: "nat \<Rightarrow> nat \<Rightarrow> mem \<Rightarrow> int option" where
  "strcmp p q m = (if m p \<noteq> 0 \<and> m p = m q then strcmp (p + 1) (q + 1) m else Some (uint (m p) - uint (m q)))"

text \<open>\<^verbatim>\<open>strchr\<close> returns a pointer or NULL.\<close>

partial_function (option) strchr :: "nat \<Rightarrow> byte \<Rightarrow> mem \<Rightarrow> nat option option" where
  "strchr s c m = (if m s = 0 then Some None else if m s = c then Some (Some s) else strchr (s + 1) c m)"

definition u_memset :: "nat \<Rightarrow> 32 word \<Rightarrow> nat \<Rightarrow> mem \<Rightarrow> mem" where
  "u_memset dst c n m = stosb dst (ucast c) n m"

definition u_memmove :: "nat \<Rightarrow> nat \<Rightarrow> nat \<Rightarrow> mem \<Rightarrow> mem" where
  "u_memmove dst src n m = copy_up dst src n m"

definition is_digit :: "byte \<Rightarrow> bool" where
  "is_digit c \<longleftrightarrow> 48 \<le> sint c \<and> sint c \<le> 57"

partial_function (option) atoi_from :: "nat \<Rightarrow> int \<Rightarrow> mem \<Rightarrow> int option" where
  "atoi_from s n m = (if is_digit (m s) then atoi_from (s + 1) (s32 (n * 10 + sint (m s) - 48)) m else Some n)"

definition atoi :: "nat \<Rightarrow> mem \<Rightarrow> int option" where
  "atoi s m = atoi_from s 0 m"

text \<open>
  \<^verbatim>\<open>gets\<close>: \<open>rd\<close> is the system call \<^verbatim>\<open>read(0, &c, 1)\<close> on a state \<open>x\<close>; \<open>None\<close> is a result below 1.
  \<open>n\<close> counts the bytes the buffer still takes.
\<close>

fun gets_loop :: "('x \<Rightarrow> byte option \<times> 'x) \<Rightarrow> nat \<Rightarrow> nat \<Rightarrow> mem \<Rightarrow> 'x \<Rightarrow> mem \<times> 'x" where
  "gets_loop rd i 0 m x = (m(i := 0), x)"
| "gets_loop rd i (Suc n) m x =
     (case rd x of
        (None, x) \<Rightarrow> (m(i := 0), x)
      | (Some c, x) \<Rightarrow>
          (let m = m(i := c) in
           if c = 10 \<or> c = 13 then (m(i + 1 := 0), x) else gets_loop rd (i + 1) n m x))"

definition gets :: "('x \<Rightarrow> byte option \<times> 'x) \<Rightarrow> nat \<Rightarrow> int \<Rightarrow> mem \<Rightarrow> 'x \<Rightarrow> mem \<times> 'x" where
  "gets rd buf mx m x = gets_loop rd buf (nat (mx - 1)) m x"

section \<open>Filling and copying\<close>

lemma stosb_eq: "stosb a d n m = (\<lambda>i. if a \<le> i \<and> i < a + n then d else m i)"
proof (induction n arbitrary: a m)
  case 0
  show ?case by (rule ext) auto
next
  case (Suc n)
  show ?case by (rule ext) (auto simp: Suc)
qed

text \<open>The four bytes of the word that \<^verbatim>\<open>memset\<close> stores are all the same.\<close>

lemma le_put_bytes:
  "le_put 4 v m a = m(a := word_of_nat v, a + 1 := word_of_nat (v div 2 ^ 8), a + 2 := word_of_nat (v div 2 ^ 16),
     a + 3 := word_of_nat (v div 2 ^ 24))"
proof -
  have four: "4 = Suc (Suc (Suc (Suc 0)))" by simp
  show ?thesis unfolding four le_put.simps by (rule ext) (simp add: div_mult2_eq [symmetric])
qed

lemma byte_of_word: "(word_of_nat (unat (w :: 32 word) div 2 ^ k) :: byte) = ucast (drop_bit k w)"
  by (simp only: drop_bit_eq_div [symmetric] unat_drop_bit_eq [symmetric] of_nat_unat)

lemma memset_word:
  fixes c :: "32 word"
  defines "w \<equiv> push_bit 24 (c AND 0xFF) OR push_bit 16 (c AND 0xFF) OR push_bit 8 (c AND 0xFF) OR (c AND 0xFF)"
  shows "le_put 4 (unat w) m a = (\<lambda>i. if a \<le> i \<and> i < a + 4 then ucast c else m i)"
proof -
  have ff: "(0xFF :: 32 word) = mask 8" by (simp add: mask_eq_exp_minus_1)
  have b: "(ucast w :: byte) = ucast c" "(ucast (drop_bit 8 w) :: byte) = ucast c" "(ucast (drop_bit 16 w) :: byte) = ucast c"
    "(ucast (drop_bit 24 w) :: byte) = ucast c"
    by (rule bit_word_eqI, simp add: w_def ff bit_simps; fail)+
  have z: "(word_of_nat (unat w) :: byte) = ucast c" using b(1) by (simp only: of_nat_unat)
  show ?thesis
    unfolding le_put_bytes byte_of_word b z by (rule ext) auto
qed

lemma stosl_eq:
  assumes "\<And>m a. le_put 4 (unat w) m a = (\<lambda>i. if a \<le> i \<and> i < a + 4 then b else m i)"
  shows "stosl a w n m = (\<lambda>i. if a \<le> i \<and> i < a + 4 * n then b else m i)"
proof (induction n arbitrary: a m)
  case 0
  show ?case by (rule ext) auto
next
  case (Suc n)
  show ?case by (rule ext) (auto simp: Suc assms simp del: le_put.simps)
qed

text \<open>Both branches of \<^verbatim>\<open>memset\<close> fill the region.\<close>

lemma memset_eq: "memset dst c n m = (\<lambda>i. if dst \<le> i \<and> i < dst + n then ucast c else m i)"
proof (cases "dst mod 4 = 0 \<and> n mod 4 = 0")
  case True
  then have n: "4 * (n div 4) = n" by auto
  show ?thesis unfolding memset_def if_P [OF True] Let_def stosl_eq [OF memset_word] n ..
next
  case False
  then show ?thesis by (auto simp: memset_def stosb_eq)
qed

lemma copy_down_eq:
  assumes "s \<le> d"
  shows "copy_down d s n m = (\<lambda>i. if d \<le> i \<and> i < d + n then m (s + (i - d)) else m i)"
proof (induction n arbitrary: m)
  case 0
  show ?case by (rule ext) auto
next
  case (Suc n)
  show ?case
  proof
    fix i
    consider "i = d + n" | "d \<le> i" "i < d + n" | "i < d" | "d + n < i" by linarith
    then show "copy_down d s (Suc n) m i = (if d \<le> i \<and> i < d + Suc n then m (s + (i - d)) else m i)"
      by cases (use assms in \<open>auto simp: Suc\<close>)
  qed
qed

lemma copy_up_eq:
  assumes "d \<le> s \<or> s + n \<le> d"
  shows "copy_up d s n m = (\<lambda>i. if d \<le> i \<and> i < d + n then m (s + (i - d)) else m i)"
  using assms
proof (induction n arbitrary: d s m)
  case 0
  show ?case by (rule ext) auto
next
  case (Suc n)
  then have ih: "copy_up (d + 1) (s + 1) n (m(d := m s)) =
      (\<lambda>i. if d + 1 \<le> i \<and> i < d + 1 + n then (m(d := m s)) (s + 1 + (i - (d + 1))) else (m(d := m s)) i)"
    by (intro Suc.IH) auto
  show ?case
  proof
    fix i
    consider "i = d" | "d < i" "i < d + Suc n" | "i < d" | "d + n < i" by linarith
    then show "copy_up d s (Suc n) m i = (if d \<le> i \<and> i < d + Suc n then m (s + (i - d)) else m i)"
      by cases (use Suc.prems in \<open>auto simp: ih [simplified] Suc_diff_Suc\<close>)
  qed
qed

lemma memmove_eq: "memmove dst src n m = (\<lambda>i. if dst \<le> i \<and> i < dst + n then m (src + (i - dst)) else m i)"
  by (auto simp: memmove_def copy_down_eq copy_up_eq)

section \<open>Strings in memory\<close>

text \<open>The string at \<open>s\<close>: the bytes before the first NUL, of which there are \<open>length xs\<close>.\<close>

fun str_at :: "mem \<Rightarrow> nat \<Rightarrow> byte list \<Rightarrow> bool" where
  "str_at m s [] = (m s = 0)"
| "str_at m s (x # xs) = (x \<noteq> 0 \<and> m s = x \<and> str_at m (Suc s) xs)"

lemma str_at_unique: "str_at m s xs \<Longrightarrow> str_at m s ys \<Longrightarrow> xs = ys"
proof (induction xs arbitrary: s ys)
  case Nil
  then show ?case by (cases ys) auto
next
  case (Cons x xs)
  then show ?case by (cases ys) auto
qed

lemma strlen_at: "str_at m s xs \<Longrightarrow> strlen s m = Some (length xs)"
proof -
  have "str_at m (s + n) xs \<Longrightarrow> strlen_from s n m = Some (n + length xs)" for n
  proof (induction xs arbitrary: n)
    case Nil
    then show ?case by (simp add: strlen_from.simps)
  next
    case (Cons x xs)
    then show ?case by (subst strlen_from.simps) simp
  qed
  from this [of 0] show "str_at m s xs \<Longrightarrow> strlen s m = Some (length xs)" by (simp add: strlen_def)
qed

text \<open>\<^verbatim>\<open>strncmp\<close> compares what is before the first NUL, at most \<open>n\<close> bytes of it.\<close>

lemma strncmp_eq:
  assumes "str_at m p xs" and "str_at m q ys"
  shows "strncmp p q n m = 0 \<longleftrightarrow> take n xs = take n ys"
  using assms
proof (induction n arbitrary: p q xs ys)
  case 0
  then show ?case by simp
next
  case (Suc n)
  then show ?case by (cases xs; cases ys) (auto simp: uint_0_iff simp flip: word_uint_eq_iff)
qed

text \<open>\<^verbatim>\<open>strncpy\<close> copies at most \<open>n\<close> bytes and pads with NUL.\<close>

lemma str_at_upd: "str_at m t xs \<Longrightarrow> s < t \<or> t + length xs < s \<Longrightarrow> str_at (m(s := c)) t xs"
  by (induction xs arbitrary: t) auto

lemma strncpy_eq:
  assumes "str_at m t xs" and "t + length xs < s \<or> s + n \<le> t"
  shows "strncpy s t n m = (\<lambda>i. if s \<le> i \<and> i < s + n then (if i - s < length xs then xs ! (i - s) else 0) else m i)"
  using assms
proof (induction n arbitrary: s t m xs)
  case 0
  show ?case by (rule ext) auto
next
  case (Suc n)
  show ?case
  proof (cases xs)
    case Nil
    then show ?thesis using Suc.prems by (intro ext) (auto simp: stosb_eq)
  next
    case (Cons x ys)
    have "str_at (m(s := x)) (t + 1) ys" using Suc.prems Cons by (intro str_at_upd) auto
    then have "strncpy (s + 1) (t + 1) n (m(s := x)) =
        (\<lambda>i. if s + 1 \<le> i \<and> i < s + 1 + n then (if i - (s + 1) < length ys then ys ! (i - (s + 1)) else 0) else (m(s := x)) i)"
      by (rule Suc.IH) (use Suc.prems(2) Cons in auto)
    then show ?thesis using Suc.prems(1) Cons by (intro ext) (auto simp: nth_Cons' Let_def)
  qed
qed

text \<open>\<^verbatim>\<open>atoi\<close> of a decimal numeral.\<close>

definition dec_value :: "nat list \<Rightarrow> nat" where
  "dec_value ds = foldl (\<lambda>n d. 10 * n + d) 0 ds"

definition digit_byte :: "nat \<Rightarrow> byte" where
  "digit_byte d = word_of_nat (48 + d)"

lemma digit_byte:
  assumes "d < 10"
  shows "is_digit (digit_byte d)" and "sint (digit_byte d) = 48 + int d" and "digit_byte d \<noteq> 0"
proof -
  have "d \<in> {0,1,2,3,4,5,6,7,8,9}" using assms by auto
  then show "is_digit (digit_byte d)" "sint (digit_byte d) = 48 + int d" "digit_byte d \<noteq> 0"
    by (auto simp: is_digit_def digit_byte_def)
qed

lemma foldl_dec_mono: "n \<le> foldl (\<lambda>n d. 10 * n + d) n (ds :: nat list)"
proof (induction ds arbitrary: n)
  case Nil
  then show ?case by simp
next
  case (Cons d ds)
  have "n \<le> 10 * n + d" by simp
  also have "\<dots> \<le> foldl (\<lambda>n d. 10 * n + d) (10 * n + d) ds" by (rule Cons.IH)
  finally show ?case by simp
qed

lemma atoi_from_digits:
  assumes "str_at m s (map digit_byte ds @ rest)" and "\<forall>d\<in>set ds. d < 10" and "rest = [] \<or> \<not> is_digit (hd rest)"
    and "foldl (\<lambda>n d. 10 * n + d) n ds < 2 ^ 31"
  shows "atoi_from s (int n) m = Some (int (foldl (\<lambda>n d. 10 * n + d) n ds))"
  using assms
proof (induction ds arbitrary: s n)
  case Nil
  then have "\<not> is_digit (m s)" by (cases rest) (auto simp: is_digit_def)
  then show ?case by (simp add: atoi_from.simps)
next
  case (Cons d ds)
  have d: "d < 10" "m s = digit_byte d" using Cons.prems by auto
  have le: "10 * n + d < 2 ^ 31" using foldl_dec_mono [of "10 * n + d" ds] Cons.prems(4) by simp
  have "s32 (int n * 10 + sint (m s) - 48) = int (10 * n + d)"
    using le digit_byte(2) [OF d(1)] by (simp add: d(2) s32_id)
  moreover have "atoi_from (s + 1) (int (10 * n + d)) m = Some (int (foldl (\<lambda>n d. 10 * n + d) (10 * n + d) ds))"
    by (rule Cons.IH) (use Cons.prems in auto)
  ultimately show ?case using digit_byte(1) [OF d(1)] by (subst atoi_from.simps) (simp add: d(2))
qed

text \<open>A name field of \<open>n\<close> bytes: padded with NUL when the name is short, not terminated when it is not.\<close>

definition field_at :: "mem \<Rightarrow> nat \<Rightarrow> nat \<Rightarrow> byte list \<Rightarrow> bool" where
  "field_at m q n xs \<longleftrightarrow> 0 \<notin> set xs \<and> (\<forall>i<n. m (q + i) = (if i < length xs then xs ! i else 0))"

lemma field_at_Suc:
  "field_at m q (Suc n) xs \<longleftrightarrow>
    (case xs of [] \<Rightarrow> m q = 0 \<and> field_at m (q + 1) n [] | x # ys \<Rightarrow> x \<noteq> 0 \<and> m q = x \<and> field_at m (q + 1) n ys)"
proof -
  have "(\<forall>i<Suc n. P i) \<longleftrightarrow> P 0 \<and> (\<forall>i<n. P (Suc i))" for P using less_Suc_eq_0_disj by auto
  then show ?thesis by (auto simp: field_at_def split: list.splits)
qed

lemma str_at_nonzero: "str_at m p xs \<Longrightarrow> 0 \<notin> set xs"
  by (induction xs arbitrary: p) auto

lemma strncmp_field:
  assumes "str_at m p ys" and "field_at m q n xs"
  shows "strncmp p q n m = 0 \<longleftrightarrow> take n ys = take n xs"
  using assms
proof (induction n arbitrary: p q xs ys)
  case 0
  then show ?case by simp
next
  case (Suc n)
  then show ?case
    by (cases xs; cases ys) (auto simp: field_at_Suc uint_0_iff simp flip: word_uint_eq_iff)
qed

section \<open>Properties\<close>

text \<open>C22: \<^verbatim>\<open>memmove\<close> of the kernel copies correctly however source and destination overlap: every
  destination byte gets the value its source byte had before the call, and nothing else changes.\<close>

theorem memmove_overlap_safe:
  "memmove dst src n m i = (if dst \<le> i \<and> i < dst + n then m (src + (i - dst)) else m i)"
  by (simp add: memmove_eq)


text \<open>C24: A name stored by \<^verbatim>\<open>strncpy\<close> into a field of \<open>n\<close> bytes is found again by \<^verbatim>\<open>strncmp\<close> with
  the same bound exactly under the names that agree with it in their first \<open>n\<close> bytes, whether or
  not the field is NUL-terminated.\<close>

theorem strncpy_strncmp_roundtrip:
  assumes "str_at m t xs" and "str_at m p ys" and "t + length xs < s \<or> s + n \<le> t" and "p + length ys < s \<or> s + n \<le> p"
  shows "strncmp p s n (strncpy s t n m) = 0 \<longleftrightarrow> take n ys = take n xs"
proof (rule strncmp_field)
  note e = strncpy_eq [OF assms(1,3)]
  show "field_at (strncpy s t n m) s n xs" using str_at_nonzero [OF assms(1)] by (simp add: field_at_def e)
  have "str_at (strncpy s t n m) q zs" if "str_at m q zs" "q + length zs < s \<or> s + n \<le> q" for q zs
    using that unfolding e by (induction zs arbitrary: q) auto
  then show "str_at (strncpy s t n m) p ys" using assms(2,4) by blast
qed

definition sample_mem :: mem where
  "sample_mem = (\<lambda>i. if i = 0 then 97 else if i = 1 then 98 else if i = 10 then 97 else if i = 11 then 98 else 0)"

theorem strncpy_strncmp_roundtrip_witness:
  "strncmp 10 20 14 (strncpy 20 0 14 sample_mem) = 0 \<longleftrightarrow> take 14 [97, 98 :: byte] = take 14 [97, 98]"
  by (rule strncpy_strncmp_roundtrip) (simp_all add: sample_mem_def)

text \<open>The \<^verbatim>\<open>memmove\<close> of the user library copies upwards only: moving a region up by less than its
  length repeats its first bytes.\<close>

theorem u_memmove_overlap:
  "u_memmove 1 0 3 (\<lambda>i. word_of_nat i) 3 = 0 \<and> memmove 1 0 3 (\<lambda>i. word_of_nat i) 3 = 2"
  by (simp add: u_memmove_def memmove_eq numeral_eq_Suc)

end
