(* ===== verification/Ring.thy ===== *)
theory Ring
  imports Prelude
begin

text \<open>
  Ring buffers with free-running unsigned counters, as the pipe and the console input keep them:
  \<^verbatim>\<open>buf[w++ % N]\<close> stores, \<^verbatim>\<open>buf[r++ % N]\<close> fetches. The counters wrap at \<open>2 ^ 32\<close>; \<open>N\<close> divides it.
  The contract of such a queue is the locale \<open>fifo\<close>.
\<close>

definition ring_list :: "nat \<Rightarrow> (nat \<Rightarrow> 'b) \<Rightarrow> 32 word \<Rightarrow> 32 word \<Rightarrow> 'b list" where
  "ring_list N d r w = map (\<lambda>k. d ((unat r + k) mod N)) [0..<unat (w - r)]"

lemma length_ring [simp]: "length (ring_list N d r w) = unat (w - r)"
  by (simp add: ring_list_def)

lemma ring_empty: "ring_list N d r w = [] \<longleftrightarrow> r = w"
  by (auto simp: ring_list_def unat_eq_0)

lemma unat_add1: "unat (x :: 32 word) + 1 < 2 ^ 32 \<Longrightarrow> unat (x + 1) = unat x + 1"
  by (simp add: unat_word_ariths)

lemma unat_succ_diff:
  fixes r w :: "32 word"
  assumes "unat (w - r) < N" and "N \<le> 2 ^ 31"
  shows "unat (w + 1 - r) = unat (w - r) + 1"
proof -
  have eq: "w + 1 - r = (w - r) + 1" by simp
  show ?thesis unfolding eq by (rule unat_add1) (use assms in simp)
qed

lemma unat_index:
  fixes r w :: "32 word"
  assumes "N dvd 2 ^ 32"
  shows "unat w mod N = (unat r + unat (w - r)) mod N"
proof -
  have "r + (w - r) = w" by simp
  then have "unat w = (unat r + unat (w - r)) mod 2 ^ 32" using unat_word_ariths(1) [of r "w - r"] by simp
  then show ?thesis using mod_mod_cancel [OF assms] by simp
qed

lemma ring_put:
  assumes "unat (w - r) < N" and "N dvd 2 ^ 32" and "N \<le> 2 ^ 31"
  shows "ring_list N (d(unat w mod N := c)) r (w + 1) = ring_list N d r w @ [c]"
proof -
  let ?n = "unat (w - r)"
  have idx: "unat w mod N = (unat r + ?n) mod N" by (rule unat_index [OF assms(2)])
  have "(unat r + k) mod N \<noteq> unat w mod N" if "k < ?n" for k
  proof
    assume "(unat r + k) mod N = unat w mod N"
    then have "(unat r + k) mod N = (unat r + ?n) mod N" by (simp add: idx)
    then have "N dvd (unat r + ?n) - (unat r + k)" using that by (intro mod_eq_dvd_iff_nat [THEN iffD1]) auto
    then have "N dvd ?n - k" by simp
    then show False using that assms(1) by (auto dest!: dvd_imp_le)
  qed
  then have "map (\<lambda>k. (d(unat w mod N := c)) ((unat r + k) mod N)) [0..<?n] = ring_list N d r w"
    by (auto simp: ring_list_def)
  then show ?thesis by (simp add: ring_list_def unat_succ_diff [OF assms(1,3)] idx)
qed

lemma ring_get:
  assumes "r \<noteq> w" and "N dvd 2 ^ 32"
  shows "ring_list N d r w = d (unat r mod N) # ring_list N d (r + 1) w"
proof -
  have pos: "0 < unat (w - r)" using assms(1) by (simp add: unat_gt_0)
  have "unat (w - (r + 1)) = unat (w - r) - 1"
  proof -
    have eq: "w - (r + 1) = (w - r) - 1" by simp
    show ?thesis unfolding eq by (rule unat_minus_one) (use assms(1) in simp)
  qed
  moreover have "(unat (r + 1) + k) mod N = (unat r + Suc k) mod N" for k
  proof -
    have "unat (r + 1) mod N = (unat r + 1) mod N"
      using unat_index [OF assms(2), of "r + 1" r] by simp
    from mod_add_cong [OF this refl, of k] show ?thesis by simp
  qed
  ultimately show ?thesis
    using pos unfolding ring_list_def by (cases "unat (w - r)") (simp_all add: map_upt_Suc del: upt_Suc)
qed

lemma ring_drop:
  assumes "r \<noteq> w"
  shows "ring_list N d r (w - 1) = butlast (ring_list N d r w)"
proof -
  have eq: "w - 1 - r = (w - r) - 1" by simp
  have "unat (w - 1 - r) = unat (w - r) - 1" unfolding eq by (rule unat_minus_one) (use assms in simp)
  moreover have "butlast [0..<n] = [0..<n - 1]" for n by (cases n) simp_all
  ultimately show ?thesis unfolding ring_list_def map_butlast [symmetric] by simp
qed

text \<open>The interface of a bounded byte queue.\<close>

locale fifo =
  fixes ok :: "'q \<Rightarrow> bool" and elems :: "'q \<Rightarrow> 'b list" and cap :: nat
    and full :: "'q \<Rightarrow> bool" and empty :: "'q \<Rightarrow> bool" and put :: "'b \<Rightarrow> 'q \<Rightarrow> 'q" and get :: "'q \<Rightarrow> 'b \<times> 'q"
  assumes full: "ok q \<Longrightarrow> full q \<longleftrightarrow> length (elems q) = cap" and bound: "ok q \<Longrightarrow> length (elems q) \<le> cap"
    and empty: "ok q \<Longrightarrow> empty q \<longleftrightarrow> elems q = []"
    and put: "ok q \<Longrightarrow> \<not> full q \<Longrightarrow> ok (put c q) \<and> elems (put c q) = elems q @ [c]"
    and get: "ok q \<Longrightarrow> \<not> empty q \<Longrightarrow> ok (snd (get q)) \<and> elems q = fst (get q) # elems (snd (get q))"
begin

text \<open>Putting and getting many elements, until the queue is full or empty.\<close>

fun put_all :: "'b list \<Rightarrow> 'q \<Rightarrow> nat \<times> 'q" where
  "put_all [] q = (0, q)"
| "put_all (c # cs) q = (if full q then (0, q) else let (k, q) = put_all cs (put c q) in (Suc k, q))"

fun get_many :: "nat \<Rightarrow> 'q \<Rightarrow> 'b list \<times> 'q" where
  "get_many 0 q = ([], q)"
| "get_many (Suc n) q = (if empty q then ([], q) else let (c, q) = get q; (cs, q) = get_many n q in (c # cs, q))"

lemma put_all_elems:
  assumes "ok q" and "put_all cs q = (k, q')"
  shows "ok q' \<and> k \<le> length cs \<and> elems q' = elems q @ take k cs \<and> (k < length cs \<longrightarrow> full q')"
  using assms
proof (induction cs arbitrary: q k)
  case Nil
  then show ?case by simp
next
  case (Cons c cs)
  show ?case
  proof (cases "full q")
    case True
    then show ?thesis using Cons.prems by auto
  next
    case False
    obtain k0 where k0: "put_all cs (put c q) = (k0, q')" "k = Suc k0"
      using Cons.prems(2) False by (auto split: prod.splits)
    have p: "ok (put c q)" "elems (put c q) = elems q @ [c]" using put [OF Cons.prems(1) False, of c] by simp_all
    show ?thesis using Cons.IH [OF p(1) k0(1)] k0(2) p(2) by simp
  qed
qed

lemma get_many_elems:
  assumes "ok q" and "get_many n q = (cs, q')"
  shows "ok q' \<and> elems q = cs @ elems q' \<and> length cs = min n (length (elems q))"
  using assms
proof (induction n arbitrary: q cs)
  case 0
  then show ?case by simp
next
  case (Suc n)
  show ?case
  proof (cases "empty q")
    case True
    then show ?thesis using Suc.prems empty by auto
  next
    case False
    obtain c q1 where g: "get q = (c, q1)" by (cases "get q")
    obtain cs1 q2 where m: "get_many n q1 = (cs1, q2)" by (cases "get_many n q1")
    then have r: "get_many n q1 = (cs1, q')" "cs = c # cs1" using Suc.prems(2) False g by simp_all
    have p: "ok q1" "elems q = c # elems q1" using get [OF Suc.prems(1) False] g by simp_all
    have i: "ok q'" "elems q1 = cs1 @ elems q'" "length cs1 = min n (length (elems q1))"
      using Suc.IH [OF p(1) r(1)] by blast+
    have "elems q = cs @ elems q'" using r(2) p(2) i(2) by simp
    moreover have "length cs = min (Suc n) (length (elems q))" unfolding r(2) p(2) using i(3) by simp
    ultimately show ?thesis using i(1) by blast
  qed
qed

end

end
