(* ===== verification/Pipe.thy ===== *)
theory Pipe
  imports Ring
begin

text \<open>
  The data path of pipes, \<^verbatim>\<open>pipe.c\<close>. A call works under \<^verbatim>\<open>p->lock\<close> until it returns or sleeps, so
  one turn of a call is one step; a sleeping writer remembers how many bytes it has written
  (\<open>Wait i\<close>) and goes on from there when it is woken. \<open>killed\<close> is \<^verbatim>\<open>proc->killed\<close> of the caller.
\<close>

section \<open>State and operations\<close>

abbreviation (input) PIPESIZE :: nat where "PIPESIZE \<equiv> 512"

record pipe =
  p_data :: "nat \<Rightarrow> byte"
  nread :: "32 word"
  nwrite :: "32 word"
  readopen :: bool
  writeopen :: bool

datatype 'a turn = Done 'a | Wait nat

text \<open>\<^verbatim>\<open>pipealloc\<close>: the fields of a new pipe; \<open>d\<close> is what the page holds.\<close>

definition pipe_init :: "(nat \<Rightarrow> byte) \<Rightarrow> pipe" where
  "pipe_init d = \<lparr>p_data = d, nread = 0, nwrite = 0, readopen = True, writeopen = True\<rparr>"

text \<open>\<^verbatim>\<open>pipeclose\<close>: the pipe, and whether its page is freed.\<close>

definition pipeclose :: "bool \<Rightarrow> pipe \<Rightarrow> bool \<times> pipe" where
  "pipeclose writable p =
     (let p = (if writable then p\<lparr>writeopen := False\<rparr> else p\<lparr>readopen := False\<rparr>)
      in (\<not> readopen p \<and> \<not> writeopen p, p))"

definition pipe_full :: "pipe \<Rightarrow> bool" where
  "pipe_full p \<longleftrightarrow> nwrite p = nread p + 512"

definition pipe_empty :: "pipe \<Rightarrow> bool" where
  "pipe_empty p \<longleftrightarrow> nread p = nwrite p"

definition pipe_put :: "byte \<Rightarrow> pipe \<Rightarrow> pipe" where
  "pipe_put c p = p\<lparr>p_data := (p_data p)(unat (nwrite p) mod PIPESIZE := c), nwrite := nwrite p + 1\<rparr>"

definition pipe_get :: "pipe \<Rightarrow> byte \<times> pipe" where
  "pipe_get p = (p_data p (unat (nread p) mod PIPESIZE), p\<lparr>nread := nread p + 1\<rparr>)"

text \<open>The loop of \<^verbatim>\<open>pipewrite\<close> from index \<open>i\<close> on, with the bytes still to write.\<close>

fun pipewrite_from :: "bool \<Rightarrow> int \<Rightarrow> nat \<Rightarrow> byte list \<Rightarrow> pipe \<Rightarrow> int turn \<times> pipe" where
  "pipewrite_from killed n i [] p = (Done n, p)"
| "pipewrite_from killed n i (c # cs) p =
     (if pipe_full p then (if \<not> readopen p \<or> killed then (Done (- 1), p) else (Wait i, p))
      else pipewrite_from killed n (Suc i) cs (pipe_put c p))"

definition pipewrite :: "bool \<Rightarrow> (nat \<Rightarrow> byte) \<Rightarrow> int \<Rightarrow> pipe \<Rightarrow> int turn \<times> pipe" where
  "pipewrite killed addr n p = pipewrite_from killed n 0 (map addr [0..<nat n]) p"

text \<open>The copy loop of \<^verbatim>\<open>piperead\<close>.\<close>

fun piperead_copy :: "nat \<Rightarrow> pipe \<Rightarrow> byte list \<times> pipe" where
  "piperead_copy 0 p = ([], p)"
| "piperead_copy (Suc n) p =
     (if pipe_empty p then ([], p)
      else let (c, p) = pipe_get p; (cs, p) = piperead_copy n p in (c # cs, p))"

definition piperead :: "bool \<Rightarrow> int \<Rightarrow> pipe \<Rightarrow> (int \<times> byte list) turn \<times> pipe" where
  "piperead killed n p =
     (if pipe_empty p \<and> writeopen p then (if killed then (Done (- 1, []), p) else (Wait 0, p))
      else let (cs, p) = piperead_copy (nat n) p in (Done (int (length cs), cs), p))"

section \<open>The pipe as a queue\<close>

definition pipe_list :: "pipe \<Rightarrow> byte list" where
  "pipe_list p = ring_list PIPESIZE (p_data p) (nread p) (nwrite p)"

definition pipe_ok :: "pipe \<Rightarrow> bool" where
  "pipe_ok p \<longleftrightarrow> unat (nwrite p - nread p) \<le> PIPESIZE"

lemma pipe_full_iff: "pipe_full p \<longleftrightarrow> unat (nwrite p - nread p) = PIPESIZE"
proof -
  have "pipe_full p \<longleftrightarrow> nwrite p - nread p = 512" by (auto simp: pipe_full_def algebra_simps)
  also have "\<dots> \<longleftrightarrow> unat (nwrite p - nread p) = PIPESIZE"
    using unat_eq_nat_uint [of "512 :: 32 word"] word_unat_eq_iff [of "nwrite p - nread p" 512] by simp
  finally show ?thesis .
qed

interpretation pq: fifo pipe_ok pipe_list PIPESIZE pipe_full pipe_empty pipe_put pipe_get
proof unfold_locales
  fix q :: pipe and c
  assume ok: "pipe_ok q"
  show "pipe_full q \<longleftrightarrow> length (pipe_list q) = PIPESIZE" by (simp add: pipe_full_iff pipe_list_def)
  show "length (pipe_list q) \<le> PIPESIZE" using ok by (simp add: pipe_list_def pipe_ok_def)
  show "pipe_empty q \<longleftrightarrow> pipe_list q = []" by (auto simp: pipe_empty_def pipe_list_def ring_empty)
  show "pipe_ok (pipe_put c q) \<and> pipe_list (pipe_put c q) = pipe_list q @ [c]" if "\<not> pipe_full q"
  proof -
    have lt: "unat (nwrite q - nread q) < PIPESIZE" using ok that by (simp add: pipe_full_iff pipe_ok_def)
    then show ?thesis
      using ring_put [OF lt, of "p_data q" c] unat_succ_diff [OF lt] by (simp add: pipe_ok_def pipe_list_def pipe_put_def)
  qed
  show "pipe_ok (snd (pipe_get q)) \<and> pipe_list q = fst (pipe_get q) # pipe_list (snd (pipe_get q))" if "\<not> pipe_empty q"
  proof -
    have ne: "nread q \<noteq> nwrite q" using that by (simp add: pipe_empty_def)
    note g = ring_get [OF ne, of PIPESIZE "p_data q"]
    have "unat (nwrite q - nread q) = Suc (unat (nwrite q - (nread q + 1)))"
      using arg_cong [OF g, of length] by simp
    then show ?thesis using g ok by (simp add: pipe_ok_def pipe_list_def pipe_get_def)
  qed
qed

lemma pipe_put_frame [simp]: "readopen (pipe_put c p) = readopen p" "nwrite (pipe_put c p) = nwrite p + 1"
  "nread (pipe_put c p) = nread p"
  by (simp_all add: pipe_put_def)

lemma pipewrite_from_eq:
  "pipewrite_from killed n i cs p = (case pq.put_all cs p of (k, p') \<Rightarrow>
     (if k = length cs then Done n else if \<not> readopen p \<or> killed then Done (- 1) else Wait (i + k), p'))"
  by (induction cs arbitrary: i p) (auto split: prod.splits)

lemma put_all_nwrite: "pq.put_all cs p = (k, p') \<Longrightarrow> nwrite p' = nwrite p + of_nat k \<and> nread p' = nread p"
  by (induction cs arbitrary: p k) (auto split: prod.splits if_splits simp: algebra_simps)

lemma piperead_copy_eq: "piperead_copy n p = pq.get_many n p"
  by (induction n arbitrary: p) (auto split: prod.splits)

text \<open>The bytes that one turn of a writer put into the pipe.\<close>

definition written :: "pipe \<Rightarrow> pipe \<Rightarrow> nat" where
  "written p p' = unat (nwrite p' - nwrite p)"

lemma pipewrite_from_elems:
  assumes "pipe_ok p" and "pipewrite_from killed n i cs p = (r, p')"
  shows "pipe_ok p' \<and> pipe_list p' = pipe_list p @ take (written p p') cs \<and>
    (case r of Done v \<Rightarrow> v = n \<and> written p p' = length cs \<or> v = - 1 \<and> (\<not> readopen p \<or> killed)
     | Wait j \<Rightarrow> j = i + written p p' \<and> written p p' < length cs \<and> pipe_full p')"
proof -
  obtain k where k: "pq.put_all cs p = (k, p')" using assms(2) by (auto simp: pipewrite_from_eq split: prod.splits)
  note e = pq.put_all_elems [OF assms(1) k]
  have "k \<le> PIPESIZE"
  proof -
    have "length (pipe_list p') \<le> PIPESIZE" using e pq.bound by blast
    then show ?thesis using e by simp
  qed
  then have w: "written p p' = k" using put_all_nwrite [OF k] by (simp add: written_def unat_of_nat)
  show ?thesis unfolding w using e assms(2) k by (auto simp: pipewrite_from_eq split: if_splits)
qed

lemma piperead_elems:
  assumes "pipe_ok p" and "piperead killed n p = (r, p')"
  shows "pipe_ok p' \<and> (case r of
      Done (v, cs) \<Rightarrow> pipe_list p = cs @ pipe_list p' \<and> (v = int (length cs) \<and> length cs = min (nat n) (length (pipe_list p)) \<or> v = - 1 \<and> killed \<and> cs = [])
    | Wait _ \<Rightarrow> p' = p \<and> pipe_list p = [] \<and> writeopen p)"
proof (cases "pipe_empty p \<and> writeopen p")
  case True
  then show ?thesis using assms pq.empty [OF assms(1)] by (auto simp: piperead_def split: if_splits)
next
  case False
  obtain cs where cs: "pq.get_many (nat n) p = (cs, p')" "r = Done (int (length cs), cs)"
    using assms(2) False by (auto simp: piperead_def piperead_copy_eq split: prod.splits)
  show ?thesis unfolding cs(2) using pq.get_many_elems [OF assms(1) cs(1)] by (simp only: turn.case prod.case) blast
qed

text \<open>Any number of readers and writers at one pipe, with the bytes put in and taken out so far. A writer
  may go on with the rest of its buffer at any later time.\<close>

inductive pipe_step :: "byte list \<times> byte list \<times> pipe \<Rightarrow> byte list \<times> byte list \<times> pipe \<Rightarrow> bool" where
  writes: "pipewrite_from killed n i cs p = (r, p') \<Longrightarrow> pipe_step (sent, got, p) (sent @ take (written p p') cs, got, p')"
| reads: "piperead killed n p = (Done (v, cs), p') \<Longrightarrow> pipe_step (sent, got, p) (sent, got @ cs, p')"
| closes: "pipeclose w p = (b, p') \<Longrightarrow> pipe_step (sent, got, p) (sent, got, p')"

lemma pipe_step_inv:
  assumes "pipe_step x y" and "case x of (sent, got, p) \<Rightarrow> pipe_ok p \<and> sent = got @ pipe_list p"
  shows "case y of (sent, got, p) \<Rightarrow> pipe_ok p \<and> sent = got @ pipe_list p"
  using assms
proof (induction rule: pipe_step.induct)
  case (writes killed n i cs p r p' sent got)
  then show ?case using pipewrite_from_elems [OF _ writes(1)] by simp
next
  case (reads killed n p v cs p' sent got)
  then show ?case using piperead_elems [OF _ reads(1)] by auto
next
  case (closes w p b p' sent got)
  then show ?case by (auto simp: pipeclose_def Let_def pipe_ok_def pipe_list_def)
qed

text \<open>C3: a pipe is a bounded byte stream: however the turns of readers, writers and closers interleave, and
  however often the 32-bit counters wrap around, the bytes read are a prefix of the bytes written, in
  order and without loss, and at most 512 bytes are in flight.\<close>

theorem pipe_is_fifo:
  assumes "pipe_step\<^sup>*\<^sup>* ([], [], pipe_init d) (sent, got, p)"
  shows "sent = got @ pipe_list p \<and> length (pipe_list p) \<le> PIPESIZE"
proof -
  have "case (sent, got, p) of (sent, got, p) \<Rightarrow> pipe_ok p \<and> sent = got @ pipe_list p"
    using assms
  proof (induction rule: rtranclp_induct)
    case base
    then show ?case by (simp add: pipe_init_def pipe_ok_def pipe_list_def ring_empty)
  next
    case (step y z)
    show ?case by (rule pipe_step_inv [OF step.hyps(2) step.IH])
  qed
  then show ?thesis using pq.bound by auto
qed

theorem pipe_is_fifo_witness:
  "\<exists>sent got p. sent = [1, 2, 3] \<and> got = [1 :: byte, 2] \<and> sent = got @ pipe_list p \<and> length (pipe_list p) \<le> PIPESIZE"
proof -
  let ?p1 = "\<lparr>p_data = (\<lambda>_. 0)(0 := 1, 1 := 2, 2 := 3), nread = 0, nwrite = 3, readopen = True, writeopen = True\<rparr> :: pipe"
  have p1: "pipewrite_from False 3 0 [1, 2, 3] (pipe_init (\<lambda>_. 0)) = (Done 3, ?p1)" "written (pipe_init (\<lambda>_. 0)) ?p1 = 3"
    by (simp_all add: pipe_init_def pipe_full_def pipe_put_def written_def)
  have two: "nat 2 = Suc (Suc 0)" by simp
  obtain p2 where p2: "piperead False 2 ?p1 = (Done (2, [1, 2]), p2)"
    unfolding piperead_def two by (simp add: pipe_empty_def pipe_get_def)
  have "pipe_step\<^sup>*\<^sup>* ([], [], pipe_init (\<lambda>_. 0)) ([1, 2, 3], [1, 2], p2)"
    using pipe_step.writes [OF p1(1), of "[]" "[]"] pipe_step.reads [OF p2, of "[1, 2, 3]" "[]"] p1(2) by simp
  from pipe_is_fifo [OF this] show ?thesis by auto
qed


lemma full_pipe:
  "pipewrite_from False 1 0 [7] (pipe_init d\<lparr>nwrite := 512\<rparr>) = (Wait 0, pipe_init d\<lparr>nwrite := 512\<rparr>)"
  by (simp add: pipe_full_def pipe_init_def)


end
