(* ===== verification/Kalloc.thy ===== *)
theory Kalloc
  imports Kstring
begin

text \<open>
  The physical page allocator, \<^verbatim>\<open>kalloc.c\<close>. The free list is the one of the source: the first eight
  bytes of a free page hold the address of the next one. Addresses are natural numbers below
  \<open>2 ^ 64\<close>, NULL is 0; the linker symbol \<^verbatim>\<open>end\<close> is the parameter \<open>kend\<close>.
\<close>

section \<open>Addresses\<close>

abbreviation (input) PGSIZE :: nat where "PGSIZE \<equiv> 4096"
abbreviation (input) KERNBASE :: nat where "KERNBASE \<equiv> 0xFFFF800000000000"
abbreviation (input) PHYSTOP :: nat where "PHYSTOP \<equiv> 0xE000000"

definition V2P :: "nat \<Rightarrow> nat" where
  "V2P a = (a + 2 ^ 64 - KERNBASE) mod 2 ^ 64"

definition P2V :: "nat \<Rightarrow> nat" where
  "P2V a = (a + KERNBASE) mod 2 ^ 64"

definition PGROUNDUP :: "nat \<Rightarrow> nat" where
  "PGROUNDUP a = (a + (PGSIZE - 1)) div PGSIZE * PGSIZE"

definition PGROUNDDOWN :: "nat \<Rightarrow> nat" where
  "PGROUNDDOWN a = a div PGSIZE * PGSIZE"

section \<open>Operations\<close>

record kmem =
  use_lock :: bool
  freelist :: nat
  kmemory :: mem

definition kfree :: "nat \<Rightarrow> nat \<Rightarrow> 'a kmem_scheme \<Rightarrow> 'a kmem_scheme res" where
  "kfree kend v s =
     (if v mod PGSIZE \<noteq> 0 \<or> v < kend \<or> PHYSTOP \<le> V2P v then Inl (Panic ''kfree'')
      else let m = memset v 1 PGSIZE (kmemory s)
           in Inr (s\<lparr>kmemory := le_put 8 (freelist s) m v, freelist := v\<rparr>))"

definition kalloc :: "'a kmem_scheme \<Rightarrow> nat \<times> 'a kmem_scheme" where
  "kalloc s = (let r = freelist s in (r, if r \<noteq> 0 then s\<lparr>freelist := le_get 8 (kmemory s) r\<rparr> else s))"

function freerange_loop :: "nat \<Rightarrow> nat \<Rightarrow> nat \<Rightarrow> 'a kmem_scheme \<Rightarrow> 'a kmem_scheme res" where
  "freerange_loop kend p vend s =
     (if p + PGSIZE \<le> vend then bnd (kfree kend p s) (freerange_loop kend (p + PGSIZE) vend) else Inr s)"
  by pat_completeness auto
termination by (relation "measure (\<lambda>(_, p, vend, _). vend - p)") auto

declare freerange_loop.simps [simp del]

definition freerange :: "nat \<Rightarrow> nat \<Rightarrow> nat \<Rightarrow> 'a kmem_scheme \<Rightarrow> 'a kmem_scheme res" where
  "freerange kend vstart vend s = freerange_loop kend (PGROUNDUP vstart) vend s"

definition kinit1 :: "nat \<Rightarrow> nat \<Rightarrow> nat \<Rightarrow> 'a kmem_scheme \<Rightarrow> 'a kmem_scheme res" where
  "kinit1 kend vstart vend s = freerange kend vstart vend (s\<lparr>use_lock := False, freelist := 0\<rparr>)"

definition kinit2 :: "'a kmem_scheme \<Rightarrow> 'a kmem_scheme" where
  "kinit2 s = s\<lparr>use_lock := True\<rparr>"

section \<open>The free list\<close>

fun free_list :: "mem \<Rightarrow> nat \<Rightarrow> nat list \<Rightarrow> bool" where
  "free_list m r [] = (r = 0)"
| "free_list m r (x # xs) = (r = x \<and> x \<noteq> 0 \<and> free_list m (le_get 8 m x) xs)"

text \<open>A page that \<^verbatim>\<open>kfree\<close> accepts.\<close>

definition page_ok :: "nat \<Rightarrow> nat \<Rightarrow> bool" where
  "page_ok kend v \<longleftrightarrow> v mod PGSIZE = 0 \<and> kend \<le> v \<and> V2P v < PHYSTOP \<and> 0 < v \<and> v < 2 ^ 64"

definition kinv :: "nat \<Rightarrow> 'a kmem_scheme \<Rightarrow> nat list \<Rightarrow> bool" where
  "kinv kend s xs \<longleftrightarrow> free_list (kmemory s) (freelist s) xs \<and> distinct xs \<and> (\<forall>x\<in>set xs. page_ok kend x)"

lemma free_list_cong:
  assumes "\<And>x. x \<in> set xs \<Longrightarrow> le_get 8 m' x = le_get 8 m x"
  shows "free_list m' r xs = free_list m r xs"
  using assms by (induction xs arbitrary: r) auto

lemma pages_apart:
  assumes "x mod PGSIZE = 0" "v mod PGSIZE = 0" "x \<noteq> (v :: nat)"
  shows "x + PGSIZE \<le> v \<or> v + PGSIZE \<le> x"
proof -
  obtain a b where "x = PGSIZE * a" "v = PGSIZE * b" using assms(1,2) by (metis mod_0_imp_dvd dvdE)
  then show ?thesis using assms(3) by (cases "a < b") auto
qed

lemma kfree_ok:
  assumes inv: "kinv kend s xs" and v: "page_ok kend v" "v \<notin> set xs"
  shows "\<exists>s'. kfree kend v s = Inr s' \<and> kinv kend s' (v # xs) \<and> (\<forall>i. i < v \<or> v + PGSIZE \<le> i \<longrightarrow> kmemory s' i = kmemory s i) \<and>
    use_lock s' = use_lock s \<and> kmem.more s' = kmem.more s"
proof -
  let ?m = "memset v 1 PGSIZE (kmemory s)"
  let ?s = "s\<lparr>kmemory := le_put 8 (freelist s) ?m v, freelist := v\<rparr>"
  have run: "kfree kend v s = Inr ?s" using v(1) by (simp add: kfree_def page_ok_def Let_def)
  have out: "le_put 8 (freelist s) ?m v i = kmemory s i" if "i < v \<or> v + PGSIZE \<le> i" for i
    using that by (auto simp: memset_eq)
  have eq: "le_get 8 (le_put 8 (freelist s) ?m v) x = le_get 8 (kmemory s) x" if "x \<in> set xs" for x
  proof (rule le_get_cong)
    fix i assume i: "x \<le> i" "i < x + 8"
    have "x mod PGSIZE = 0" "x \<noteq> v" using inv that v(2) by (auto simp: kinv_def page_ok_def)
    then have "x + PGSIZE \<le> v \<or> v + PGSIZE \<le> x" using pages_apart v(1) by (auto simp: page_ok_def)
    then show "le_put 8 (freelist s) ?m v i = kmemory s i" using i by (intro out) auto
  qed
  have "freelist s < 256 ^ 8"
  proof (cases xs)
    case Nil
    then show ?thesis using inv by (simp add: kinv_def)
  next
    case (Cons x ys)
    then show ?thesis using inv by (simp add: kinv_def page_ok_def)
  qed
  then have "le_get 8 (le_put 8 (freelist s) ?m v) v = freelist s" by (simp add: le_get_put)
  then have "kinv kend ?s (v # xs)"
    using inv v free_list_cong [OF eq] by (simp add: kinv_def page_ok_def)
  with run out show ?thesis by (intro exI [of _ ?s]) simp
qed

lemma kalloc_ok:
  assumes "kinv kend s xs"
  shows "case xs of [] \<Rightarrow> kalloc s = (0, s)
    | x # ys \<Rightarrow> \<exists>s'. kalloc s = (x, s') \<and> kinv kend s' ys \<and> kmemory s' = kmemory s \<and> use_lock s' = use_lock s \<and> kmem.more s' = kmem.more s"
  using assms by (auto simp: kinv_def kalloc_def Let_def split: list.split)

text \<open>A client's steps: it allocates pages and frees pages it holds.\<close>

inductive client :: "('s \<Rightarrow> 'p option \<times> 's) \<Rightarrow> ('p \<Rightarrow> 's \<Rightarrow> 's res) \<Rightarrow> 'p set \<times> 's \<Rightarrow> 'p set \<times> 's \<Rightarrow> bool"
  for alloc release where
  takes: "alloc s = (Some p, s') \<Longrightarrow> client alloc release (A, s) (insert p A, s')"
| gives: "p \<in> A \<Longrightarrow> release p s = Inr s' \<Longrightarrow> client alloc release (A, s) (A - {p}, s')"

inductive_cases client_E: "client alloc release (A, s) y"

text \<open>The interface of a page allocator over the set of its free pages.\<close>

locale page_allocator =
  fixes ok :: "'s \<Rightarrow> 'p set \<Rightarrow> bool" and usable :: "'p \<Rightarrow> bool" and alloc :: "'s \<Rightarrow> 'p option \<times> 's"
    and release :: "'p \<Rightarrow> 's \<Rightarrow> 's res"
  assumes finite_free: "ok s F \<Longrightarrow> finite F"
    and alloc_none: "ok s {} \<Longrightarrow> alloc s = (None, s)"
    and alloc_some: "ok s F \<Longrightarrow> F \<noteq> {} \<Longrightarrow> \<exists>p s'. alloc s = (Some p, s') \<and> p \<in> F \<and> ok s' (F - {p})"
    and free_ok: "ok s F \<Longrightarrow> usable p \<Longrightarrow> p \<notin> F \<Longrightarrow> \<exists>s'. release p s = Inr s' \<and> ok s' (insert p F)"
    and usable: "ok s F \<Longrightarrow> F \<subseteq> Collect usable"
begin

lemma client_step:
  assumes "client alloc release (A, s) y" and "A \<subseteq> P" and "ok s (P - A)" and "P \<subseteq> Collect usable"
  shows "fst y \<subseteq> P \<and> ok (snd y) (P - fst y)"
proof -
  consider (takes) p s' where "alloc s = (Some p, s')" "y = (insert p A, s')"
    | (gives) p s' where "p \<in> A" "release p s = Inr s'" "y = (A - {p}, s')"
    using assms(1) by (rule client_E)
  then show ?thesis
  proof cases
  case (takes p s')
  then have "P - A \<noteq> {}" using alloc_none [of s] assms(3) by force
  then obtain q t where q: "alloc s = (Some q, t)" "q \<in> P - A" "ok t (P - A - {q})" using alloc_some [OF assms(3)] by blast
  moreover have "P - A - {q} = P - insert q A" by blast
  ultimately show ?thesis using takes assms(2) by simp
next
  case (gives p s')
  then have "usable p" "p \<notin> P - A" using assms(2,4) by auto
  then obtain t where "release p s = Inr t" "ok t (insert p (P - A))" using free_ok [OF assms(3)] by blast
  moreover have "insert p (P - A) = P - (A - {p})" using gives(1) assms(2) by blast
  ultimately show ?thesis using gives assms(2) by auto
  qed
qed

lemma page_client_inv:
  assumes "(client alloc release)\<^sup>*\<^sup>* ({}, s0) y" and "ok s0 P"
  shows "fst y \<subseteq> P \<and> ok (snd y) (P - fst y)"
  using assms(1)
proof (induction rule: rtranclp_induct)
  case base
  then show ?case using assms(2) by simp
next
  case (step y z)
  then show ?case using client_step [of "fst y" "snd y" z P] usable [OF assms(2)] by simp
qed

text \<open>What a client is given is a page it does not hold, and it is refused only when it holds all.\<close>

lemma client_alloc:
  assumes "(client alloc release)\<^sup>*\<^sup>* ({}, s0) (A, s)" and "ok s0 P"
  shows "case alloc s of (None, _) \<Rightarrow> A = P | (Some p, _) \<Rightarrow> p \<in> P - A"
proof -
  have inv: "A \<subseteq> P" "ok s (P - A)" using page_client_inv [OF assms] by simp_all
  show ?thesis
  proof (cases "P - A = {}")
    case True
    then show ?thesis using inv alloc_none [of s] by auto
  next
    case False
    then show ?thesis using alloc_some [OF inv(2)] by auto
  qed
qed

end

definition kalloc_page :: "'a kmem_scheme \<Rightarrow> nat option \<times> 'a kmem_scheme" where
  "kalloc_page s = (case kalloc s of (p, s') \<Rightarrow> (if p = 0 then None else Some p, s'))"

definition kfree_pages :: "nat \<Rightarrow> 'a kmem_scheme \<Rightarrow> nat set \<Rightarrow> bool" where
  "kfree_pages kend s F \<longleftrightarrow> (\<exists>xs. kinv kend s xs \<and> set xs = F)"

interpretation pa: page_allocator "kfree_pages kend" "page_ok kend" kalloc_page "kfree kend" for kend
proof unfold_locales
  fix s :: "'a kmem_scheme" and F p
  assume ok: "kfree_pages kend s F"
  then obtain xs where xs: "kinv kend s xs" "set xs = F" by (auto simp: kfree_pages_def)
  show "finite F" using xs(2) by auto
  show "F \<subseteq> Collect (page_ok kend)" using xs by (auto simp: kinv_def)
  show "\<exists>p s'. kalloc_page s = (Some p, s') \<and> p \<in> F \<and> kfree_pages kend s' (F - {p})" if "F \<noteq> {}"
  proof -
    obtain x ys where x: "xs = x # ys" using \<open>F \<noteq> {}\<close> xs(2) by (cases xs) auto
    obtain s' where s': "kalloc s = (x, s')" "kinv kend s' ys" using kalloc_ok [OF xs(1)] x by auto
    have "x \<noteq> 0" "set ys = F - {x}" using xs x by (auto simp: kinv_def page_ok_def)
    then show ?thesis using s' xs(2) x by (auto simp: kalloc_page_def kfree_pages_def)
  qed
  show "\<exists>s'. kfree kend p s = Inr s' \<and> kfree_pages kend s' (insert p F)" if p: "page_ok kend p" "p \<notin> F"
  proof -
    obtain s' where "kfree kend p s = Inr s'" "kinv kend s' (p # xs)" using kfree_ok [OF xs(1) p(1)] p(2) xs(2) by blast
    then show ?thesis using xs(2) by (auto simp: kfree_pages_def)
  qed
next
  fix s :: "'a kmem_scheme"
  assume "kfree_pages kend s {}"
  then show "kalloc_page s = (None, s)" using kalloc_ok [of kend s "[]"] by (auto simp: kfree_pages_def kalloc_page_def)
qed

section \<open>Start-up\<close>

definition pages :: "nat \<Rightarrow> nat \<Rightarrow> nat set" where
  "pages vstart vend = {p. p mod PGSIZE = 0 \<and> vstart \<le> p \<and> p + PGSIZE \<le> vend}"

text \<open>What the kernel's memory map grants: the range lies between \<^verbatim>\<open>end\<close> and \<^verbatim>\<open>P2V(PHYSTOP)\<close>.\<close>

definition kernel_range :: "nat \<Rightarrow> nat \<Rightarrow> nat \<Rightarrow> bool" where
  "kernel_range kend vstart vend \<longleftrightarrow> KERNBASE \<le> kend \<and> kend \<le> vstart \<and> vend \<le> KERNBASE + PHYSTOP"

lemma kernel_range_page:
  assumes "kernel_range kend vstart vend" and "p mod PGSIZE = 0" and "vstart \<le> p" and "p + PGSIZE \<le> vend"
  shows "page_ok kend p"
proof -
  obtain d where d: "p = KERNBASE + d" using assms(1,3) by (auto simp: kernel_range_def intro: that [of "p - KERNBASE"])
  then have "d < PHYSTOP" using assms(1,4) by (simp add: kernel_range_def)
  then have "V2P p = d" by (simp add: V2P_def d)
  then show ?thesis using assms \<open>d < PHYSTOP\<close> by (simp add: kernel_range_def page_ok_def d)
qed

lemma pages_step:
  assumes "p mod PGSIZE = (0 :: nat)" and "p + PGSIZE \<le> vend"
  shows "pages p vend = insert p (pages (p + PGSIZE) vend)"
proof (rule set_eqI)
  fix q
  show "q \<in> pages p vend \<longleftrightarrow> q \<in> insert p (pages (p + PGSIZE) vend)"
  proof (cases "q \<noteq> p \<and> q mod PGSIZE = 0")
    case True
    then have "q + PGSIZE \<le> p \<or> p + PGSIZE \<le> q" by (intro pages_apart) (use assms(1) in simp_all)
    then have "p \<le> q \<longleftrightarrow> p + PGSIZE \<le> q" by linarith
    then show ?thesis using True by (simp add: pages_def)
  next
    case False
    then show ?thesis using assms by (auto simp: pages_def)
  qed
qed

lemma freerange_loop_ok:
  assumes "kinv kend s xs" and "\<forall>x\<in>set xs. x < p" and "p mod PGSIZE = 0" and "kernel_range kend p vend"
  shows "\<exists>s' ys. freerange_loop kend p vend s = Inr s' \<and> kinv kend s' ys \<and> set ys = set xs \<union> pages p vend \<and> use_lock s' = use_lock s"
  using assms
proof (induction kend p vend s arbitrary: xs rule: freerange_loop.induct)
  case (1 kend p vend s)
  show ?case
  proof (cases "p + PGSIZE \<le> vend")
    case True
    have "page_ok kend p" using kernel_range_page [OF 1(5,4) _ True] by simp
    moreover have "p \<notin> set xs" using 1(3) by auto
    ultimately obtain s1 where s1: "kfree kend p s = Inr s1" "kinv kend s1 (p # xs)" "use_lock s1 = use_lock s" using kfree_ok [OF 1(2)] by blast
    have "\<exists>s' ys. freerange_loop kend (p + PGSIZE) vend s1 = Inr s' \<and> kinv kend s' ys \<and>
        set ys = set (p # xs) \<union> pages (p + PGSIZE) vend \<and> use_lock s' = use_lock s1"
      by (rule 1(1) [OF True s1(1,2)]) (use 1 in \<open>auto simp: kernel_range_def\<close>)
    then show ?thesis using True s1 pages_step [OF 1(4) True] by (auto simp: freerange_loop.simps [of kend p])
  next
    case False
    then show ?thesis using 1(2) by (auto simp: freerange_loop.simps [of kend p] pages_def)
  qed
qed

lemma PGROUNDUP_least: "PGROUNDUP a mod PGSIZE = 0" "a \<le> PGROUNDUP a" "a \<le> p \<Longrightarrow> p mod PGSIZE = 0 \<Longrightarrow> PGROUNDUP a \<le> p"
proof -
  show "PGROUNDUP a mod PGSIZE = 0" by (simp add: PGROUNDUP_def)
  show "a \<le> PGROUNDUP a" using div_mult_mod_eq [of "a + (PGSIZE - 1)" PGSIZE] mod_less_divisor [of PGSIZE "a + (PGSIZE - 1)"]
    unfolding PGROUNDUP_def by linarith
  show "PGROUNDUP a \<le> p" if p: "a \<le> p" "p mod PGSIZE = 0"
  proof -
    obtain k where k: "p = PGSIZE * k" using p(2) by (metis mod_0_imp_dvd dvdE)
    then have "(a + (PGSIZE - 1)) div PGSIZE < k + 1" using p(1) by (simp add: div_less_iff_less_mult)
    then show ?thesis by (simp add: PGROUNDUP_def k)
  qed
qed

lemma kinit1_pages:
  assumes "kernel_range kend vstart vend"
  shows "\<exists>s'. kinit1 kend vstart vend s = Inr s' \<and> kfree_pages kend s' (pages vstart vend) \<and> \<not> use_lock s'"
proof -
  have "kinv kend (s\<lparr>use_lock := False, freelist := 0\<rparr>) []" by (simp add: kinv_def)
  moreover have "kernel_range kend (PGROUNDUP vstart) vend" using assms PGROUNDUP_least(2) [of vstart] by (auto simp: kernel_range_def)
  moreover have "pages (PGROUNDUP vstart) vend = pages vstart vend" using PGROUNDUP_least [of vstart] by (auto simp: pages_def dest: le_trans)
  ultimately show ?thesis
    using freerange_loop_ok [of kend _ "[]" "PGROUNDUP vstart" vend] PGROUNDUP_least(1) [of vstart]
    by (fastforce simp: kinit1_def freerange_def kfree_pages_def)
qed

text \<open>C4: after \<^verbatim>\<open>kinit1\<close> on a range of kernel memory, whatever pages are allocated and freed, \<^verbatim>\<open>kalloc\<close>
  returns an aligned page of that range that nobody holds, and NULL only when every page is held.\<close>

theorem kalloc_exclusive:
  assumes "kernel_range kend vstart vend" and "kinit1 kend vstart vend s0 = Inr s1"
    and "(client kalloc_page (kfree kend))\<^sup>*\<^sup>* ({}, s1) (A, s)"
  shows "if fst (kalloc s) = 0 then A = pages vstart vend else fst (kalloc s) \<in> pages vstart vend - A"
proof -
  have "kfree_pages kend s1 (pages vstart vend)" using kinit1_pages [OF assms(1), of s0] assms(2) by auto
  from pa.client_alloc [OF assms(3) this] show ?thesis by (auto simp: kalloc_page_def split: prod.splits if_splits)
qed

definition demo_kmem :: kmem where
  "demo_kmem = \<lparr>use_lock = True, freelist = 7, kmemory = (\<lambda>_. 0)\<rparr>"

theorem kalloc_exclusive_witness:
  "\<exists>s1. kinit1 (KERNBASE + 100) (KERNBASE + 100) (KERNBASE + 3 * PGSIZE) demo_kmem = Inr s1 \<and>
    (if fst (kalloc s1) = 0 then {} = pages (KERNBASE + 100) (KERNBASE + 3 * PGSIZE)
     else fst (kalloc s1) \<in> pages (KERNBASE + 100) (KERNBASE + 3 * PGSIZE) - {})"
proof -
  have r: "kernel_range (KERNBASE + 100) (KERNBASE + 100) (KERNBASE + 3 * PGSIZE)" by (simp add: kernel_range_def)
  then obtain s1 where "kinit1 (KERNBASE + 100) (KERNBASE + 100) (KERNBASE + 3 * PGSIZE) demo_kmem = Inr s1" using kinit1_pages by blast
  with kalloc_exclusive [OF r this, of "{}" s1] show ?thesis by blast
qed

text \<open>C25: a page that \<^verbatim>\<open>kfree\<close> takes back is the next one \<^verbatim>\<open>kalloc\<close> returns, filled with 1s but for the
  link in its first eight bytes, and the free list is then what it was.\<close>

theorem kfree_kalloc_roundtrip:
  assumes "kinv kend s xs" and "page_ok kend v" and "v \<notin> set xs"
  shows "\<exists>s' s''. kfree kend v s = Inr s' \<and> kalloc s' = (v, s'') \<and> kinv kend s'' xs \<and> freelist s'' = freelist s \<and>
    (\<forall>i. v + 8 \<le> i \<and> i < v + PGSIZE \<longrightarrow> kmemory s'' i = 1)"
proof -
  obtain s' where s': "kfree kend v s = Inr s'" "kinv kend s' (v # xs)" using kfree_ok [OF assms] by blast
  obtain s'' where s'': "kalloc s' = (v, s'')" "kinv kend s'' xs" "kmemory s'' = kmemory s'" using kalloc_ok [OF s'(2)] by auto
  have "freelist s'' = freelist s"
  proof -
    have "free_list m r xs \<Longrightarrow> r = (case xs of [] \<Rightarrow> 0 | x # _ \<Rightarrow> x)" for m r by (cases xs) simp_all
    then show ?thesis using s''(2) assms(1) by (metis kinv_def)
  qed
  moreover have "kmemory s'' i = 1" if "v + 8 \<le> i" "i < v + PGSIZE" for i
  proof -
    have "kmemory s' = le_put 8 (freelist s) (memset v 1 PGSIZE (kmemory s)) v"
      using s'(1) by (auto simp: kfree_def Let_def split: if_splits)
    then show ?thesis using that s''(3) by (simp add: memset_eq)
  qed
  ultimately show ?thesis using s' s'' by blast
qed

theorem kfree_kalloc_roundtrip_witness:
  "\<exists>s' s''. kfree KERNBASE (KERNBASE + PGSIZE) (demo_kmem\<lparr>freelist := 0\<rparr>) = Inr s' \<and> kalloc s' = (KERNBASE + PGSIZE, s'') \<and>
    kinv KERNBASE s'' [] \<and> freelist s'' = freelist (demo_kmem\<lparr>freelist := 0\<rparr>) \<and>
    kmemory s'' (KERNBASE + PGSIZE + 100) = 1"
proof -
  have "kinv KERNBASE (demo_kmem\<lparr>freelist := 0\<rparr>) []" "page_ok KERNBASE (KERNBASE + PGSIZE)" "KERNBASE + PGSIZE \<notin> set []"
    by (simp_all add: kinv_def page_ok_def V2P_def)
  from kfree_kalloc_roundtrip [OF this] show ?thesis by fastforce
qed

end
