(* ===== verification/Sh.thy ===== *)
theory Sh
  imports Prelude
begin

text \<open>
  The shell, \<^verbatim>\<open>sh.c\<close>: its tokenizer, the recursive-descent parser with \<^verbatim>\<open>nulterminate\<close>, and \<^verbatim>\<open>runcmd\<close>.
  The command line is a string without NUL (\<^verbatim>\<open>es\<close> is its length); pointers into it are indices. Since
  \<^verbatim>\<open>runcmd\<close> only makes system calls, it is a tree of calls with their continuations. The mutually recursive
  parser takes fuel; that the fuel of \<^verbatim>\<open>parsecmd\<close> is enough is proved.
\<close>

section \<open>Tokens\<close>

definition whitespace :: string where
  "whitespace = [CHR '' '', CHR 0x09, CHR 0x0D, CHR 0x0A, CHR 0x0B]"

definition symbols :: string where
  "symbols = ''<|>&;()''"

text \<open>\<^verbatim>\<open>*s\<close>, where the byte at \<^verbatim>\<open>es\<close> is NUL.\<close>

definition cur :: "string \<Rightarrow> nat \<Rightarrow> char" where
  "cur b s = (if s < length b then b ! s else CHR 0x00)"

text \<open>The loops \<^verbatim>\<open>while(s < es && P(*s)) s++\<close>.\<close>

definition skip :: "(char \<Rightarrow> bool) \<Rightarrow> string \<Rightarrow> nat \<Rightarrow> nat" where
  "skip P b s = s + length (takeWhile P (drop s b))"

abbreviation (input) is_space :: "char \<Rightarrow> bool" where
  "is_space c \<equiv> c \<in> set whitespace"

abbreviation (input) is_word :: "char \<Rightarrow> bool" where
  "is_word c \<equiv> c \<notin> set whitespace \<and> c \<notin> set symbols"

definition gettoken :: "string \<Rightarrow> nat \<Rightarrow> char \<times> nat \<times> nat \<times> nat" where
  "gettoken b s =
     (let s = skip is_space b s; q = s; c = cur b s;
          (ret, s) =
            (if c = CHR 0x00 then (c, s)
             else if c \<in> set ''|();&<'' then (c, s + 1)
             else if c = CHR ''>'' then (if cur b (s + 1) = CHR ''>'' then (CHR ''+'', s + 2) else (c, s + 1))
             else (CHR ''a'', skip is_word b s));
          eq = s; s = skip is_space b s
      in (ret, q, eq, s))"

definition peek :: "string \<Rightarrow> nat \<Rightarrow> string \<Rightarrow> bool \<times> nat" where
  "peek b s toks = (let s = skip is_space b s in (cur b s \<noteq> CHR 0x00 \<and> cur b s \<in> set toks, s))"

section \<open>Commands\<close>

datatype cmd =
    EXEC "(nat \<times> nat) list"
  | REDIR cmd nat nat int int
  | PIPE cmd cmd
  | LIST cmd cmd
  | BACK cmd

abbreviation (input) O_RDONLY :: int where "O_RDONLY \<equiv> 0x000"
abbreviation (input) O_WRONLY :: int where "O_WRONLY \<equiv> 0x001"
abbreviation (input) O_RDWR :: int where "O_RDWR \<equiv> 0x002"
abbreviation (input) O_CREATE :: int where "O_CREATE \<equiv> 0x200"

text \<open>\<^verbatim>\<open>parseexec\<close> fills \<^verbatim>\<open>cmd->argv\<close> of the \<^verbatim>\<open>execcmd\<close> while \<^verbatim>\<open>ret\<close> already wraps it.\<close>

fun add_arg :: "cmd \<Rightarrow> nat \<times> nat \<Rightarrow> cmd" where
  "add_arg (EXEC as) a = EXEC (as @ [a])"
| "add_arg (REDIR c q eq m fd) a = REDIR (add_arg c a) q eq m fd"
| "add_arg c a = c"

section \<open>Progress of the tokenizer\<close>

lemma skip_ge [simp, intro]: "s \<le> skip P b s"
  by (simp add: skip_def)

lemma skip_geI [intro]: "i \<le> j \<Longrightarrow> i \<le> skip P b j" and skip_gtI [intro]: "i < j \<Longrightarrow> i < skip P b j"
  by (simp_all add: skip_def)

lemma skip_le [intro]: "s \<le> length b \<Longrightarrow> skip P b s \<le> length b"
  using length_takeWhile_le [of P "drop s b"] by (simp add: skip_def)

lemma skip_stop: "skip P b s < length b \<Longrightarrow> \<not> P (b ! skip P b s)"
  using nth_length_takeWhile [of P "drop s b"] by (simp add: skip_def)

lemma skip_all: "s \<le> i \<Longrightarrow> i < skip P b s \<Longrightarrow> i < length b \<and> P (b ! i)"
proof -
  assume i: "s \<le> i" "i < skip P b s"
  then have k: "i - s < length (takeWhile P (drop s b))" by (simp add: skip_def)
  then have "P (takeWhile P (drop s b) ! (i - s))" using set_takeWhileD [OF nth_mem] by blast
  moreover have "i < length b" using k length_takeWhile_le [of P "drop s b"] i by simp
  ultimately show ?thesis using k i by (simp add: takeWhile_nth)
qed

lemma skip_step: "s < length b \<Longrightarrow> P (b ! s) \<Longrightarrow> s < skip P b s"
  by (simp add: skip_def Cons_nth_drop_Suc [symmetric])

lemma skip_end [simp]: "length b \<le> s \<Longrightarrow> skip P b s = s"
  by (simp add: skip_def)

lemma skip_same: "\<not> P (cur b s) \<Longrightarrow> skip P b s = s"
  by (cases "s < length b") (simp_all add: skip_def cur_def Cons_nth_drop_Suc [symmetric])

lemma cur_skip: "\<not> P (CHR 0x00) \<Longrightarrow> \<not> P (cur b (skip P b s))"
  using skip_stop [of P b s] by (simp add: cur_def)

lemma peek_ge: "peek b s toks = (r, s') \<Longrightarrow> s \<le> s'"
  by (auto simp: peek_def Let_def)

lemma peek_le: "peek b s toks = (r, s') \<Longrightarrow> s \<le> length b \<Longrightarrow> s' \<le> length b"
  by (auto simp: peek_def Let_def)

lemma peek_more: "peek b s toks = (True, s') \<Longrightarrow> s' < length b"
  by (auto simp: peek_def Let_def cur_def split: if_splits)

text \<open>A token of kind \<^verbatim>\<open>'a'\<close>: a maximal run of word characters, not empty.\<close>

definition word_at :: "string \<Rightarrow> nat \<times> nat \<Rightarrow> bool" where
  "word_at b = (\<lambda>(q, eq). q < eq \<and> eq \<le> length b \<and> (\<forall>i. q \<le> i \<and> i < eq \<longrightarrow> is_word (b ! i)) \<and>
     (eq < length b \<longrightarrow> \<not> is_word (b ! eq)))"

lemma gettoken_spec:
  assumes "gettoken b s = (ret, q, eq, s')" and "s \<le> length b" and "CHR 0x00 \<notin> set b"
  shows "s \<le> q \<and> q \<le> eq \<and> eq \<le> s' \<and> s' \<le> length b \<and> (ret \<noteq> CHR 0x00 \<longrightarrow> q < eq) \<and> (ret = CHR 0x00 \<longleftrightarrow> q = length b) \<and>
    (ret = CHR ''a'' \<longrightarrow> word_at b (q, eq))"
proof -
  define t where "t = skip is_space b s"
  have t: "s \<le> t" "t \<le> length b" using assms(2) skip_le by (auto simp: t_def)
  show ?thesis
  proof (cases "t < length b")
    case False
    then have "cur b t = CHR 0x00" "t = length b" using t by (simp_all add: cur_def)
    then show ?thesis using assms(1) t by (auto simp: gettoken_def Let_def t_def [symmetric])
  next
    case True
    then have c: "cur b t = b ! t" "b ! t \<noteq> CHR 0x00" using assms(3) by (auto simp: cur_def in_set_conv_nth)
    have sp: "b ! t \<notin> set whitespace" using skip_stop [of is_space b s] True by (simp add: t_def)
    consider (sym) "b ! t \<in> set ''|();&<''" | (gt) "b ! t = CHR ''>''" | (wd) "b ! t \<notin> set symbols"
      by (auto simp: symbols_def)
    then show ?thesis
    proof cases
      case sym
      then show ?thesis using assms(1) t True c skip_ge [of "t + 1" is_space b] skip_le [of "t + 1" b is_space]
        by (auto simp: gettoken_def Let_def t_def [symmetric])
    next
      case gt
      have "t + 1 < length b" if "cur b (t + 1) = CHR ''>''" using that by (auto simp: cur_def split: if_splits)
      then show ?thesis using gt assms(1) t True c skip_ge [of "t + 1" is_space b] skip_le [of "t + 1" b is_space]
          skip_ge [of "t + 2" is_space b] skip_le [of "t + 2" b is_space]
        by (auto simp: gettoken_def Let_def t_def [symmetric] split: if_splits)
    next
      case wd
      define e where "e = skip is_word b t"
      have e: "t < e" "e \<le> length b" using skip_step [OF True, of is_word] sp wd skip_le [OF t(2)] by (auto simp: e_def)
      have w: "word_at b (t, e)"
        using e skip_all [of t _ is_word b] skip_stop [of is_word b t] by (auto simp: word_at_def e_def)
      have "b ! t \<notin> set ''|();&<''" "b ! t \<noteq> CHR ''>''" using wd by (auto simp: symbols_def)
      then show ?thesis using assms(1) t True c e w skip_ge [of e is_space b] skip_le [OF e(2), of is_space]
        by (simp add: gettoken_def Let_def t_def [symmetric] e_def [symmetric]) auto
    qed
  qed
qed

text \<open>After a successful \<^verbatim>\<open>peek\<close> the next token is not empty.\<close>

lemma peek_gettoken:
  assumes "peek b s toks = (True, s')" and "gettoken b s' = (ret, q, eq, s'')"
  shows "s' < s''"
proof -
  have c: "cur b s' \<noteq> CHR 0x00" "\<not> is_space (cur b s')"
    using assms(1) cur_skip [of is_space b s] by (auto simp: peek_def Let_def whitespace_def)
  have "s' < length b" using peek_more [OF assms(1)] .
  then have "s' < skip is_word b s'" if "cur b s' \<notin> set symbols"
    using skip_step [of s' b is_word] that c by (simp add: cur_def)
  moreover have "cur b s' \<in> set symbols \<longleftrightarrow> cur b s' \<in> set ''|();&<'' \<or> cur b s' = CHR ''>''" by (auto simp: symbols_def)
  ultimately show ?thesis
    using assms(2) c skip_same [of is_space, OF c(2)] by (auto simp: gettoken_def Let_def skip_gtI split: if_splits)
qed

lemma gettoken_mono: "gettoken b s = (ret, q, eq, s') \<Longrightarrow> s \<le> s'"
proof -
  assume g: "gettoken b s = (ret, q, eq, s')"
  define t where "t = skip is_space b s"
  have "s \<le> t" by (simp add: t_def)
  then show ?thesis
    using g by (auto simp: gettoken_def Let_def t_def [symmetric] skip_geI split: if_splits)
qed

lemma peek_token_less:
  assumes "(True, s1) = peek b s toks" and "(t, q, e, s2) = gettoken b s1"
  shows "length b - s2 < length b - s"
  using peek_gettoken [OF assms [symmetric]] peek_more [OF assms(1) [symmetric]] peek_ge [OF assms(1) [symmetric]] by linarith

lemma peek_token2_less:
  assumes "(True, s1) = peek b s toks" and "(t, q, e, s2) = gettoken b s1" and "(t', q', e', s3) = gettoken b s2"
  shows "length b - s3 < length b - s"
  using peek_token_less [OF assms(1,2)] gettoken_mono [OF assms(3) [symmetric]] by linarith

section \<open>The parser\<close>

function parseredirs :: "string \<Rightarrow> cmd \<Rightarrow> nat \<Rightarrow> (cmd \<times> nat) res" where
  "parseredirs b c s = (case peek b s ''<>'' of
     (False, s) \<Rightarrow> Inr (c, s)
   | (True, s) \<Rightarrow> (case gettoken b s of (tok, _, _, s1) \<Rightarrow> (case gettoken b s1 of (tok2, q, eq, s2) \<Rightarrow>
       if tok2 \<noteq> CHR ''a'' then Inl (Panic ''missing file for redirection'')
       else parseredirs b (if tok = CHR ''<'' then REDIR c q eq O_RDONLY 0
              else if tok = CHR ''>'' then REDIR c q eq (O_WRONLY + O_CREATE) 1
              else if tok = CHR ''+'' then REDIR c q eq (O_WRONLY + O_CREATE) 1 else c) s2)))"
  by pat_completeness auto
termination
  by (relation "measure (\<lambda>(b, _, s). length b - s)") (auto intro: peek_token2_less)

declare parseredirs.simps [simp del]

function parseback :: "string \<Rightarrow> cmd \<Rightarrow> nat \<Rightarrow> cmd \<times> nat" where
  "parseback b c s = (case peek b s ''&'' of
     (False, s) \<Rightarrow> (c, s)
   | (True, s) \<Rightarrow> (case gettoken b s of (_, _, _, s1) \<Rightarrow> parseback b (BACK c) s1))"
  by pat_completeness auto
termination
  by (relation "measure (\<lambda>(b, _, s). length b - s)") (auto intro: peek_token_less)

declare parseback.simps [simp del]

text \<open>The argument loop of \<^verbatim>\<open>parseexec\<close>; \<open>k\<close> more arguments fit into \<^verbatim>\<open>argv\<close>.\<close>

fun parseargs :: "nat \<Rightarrow> string \<Rightarrow> cmd \<Rightarrow> nat \<Rightarrow> (cmd \<times> nat) res" where
  "parseargs k b ret s = (case peek b s ''|)&;'' of
     (True, s) \<Rightarrow> Inr (ret, s)
   | (False, s) \<Rightarrow> (case gettoken b s of (tok, q, eq, s1) \<Rightarrow>
       if tok = CHR 0x00 then Inr (ret, s1)
       else if tok \<noteq> CHR ''a'' then Inl (Panic ''syntax'')
       else (case k of 0 \<Rightarrow> Inl (Panic ''too many args'')
         | Suc k \<Rightarrow> bnd (parseredirs b (add_arg ret (q, eq)) s1) (\<lambda>(ret, s). parseargs k b ret s))))"

declare parseargs.simps [simp del]

fun parseline :: "nat \<Rightarrow> string \<Rightarrow> nat \<Rightarrow> (cmd \<times> nat) res"
  and parsepipe :: "nat \<Rightarrow> string \<Rightarrow> nat \<Rightarrow> (cmd \<times> nat) res"
  and parseblock :: "nat \<Rightarrow> string \<Rightarrow> nat \<Rightarrow> (cmd \<times> nat) res"
  and parseexec :: "nat \<Rightarrow> string \<Rightarrow> nat \<Rightarrow> (cmd \<times> nat) res" where
  "parseline 0 b s = Inl Diverges"
| "parseline (Suc f) b s =
     bnd (parsepipe f b s) (\<lambda>(c, s). case parseback b c s of (c, s) \<Rightarrow> (case peek b s '';'' of
       (True, s) \<Rightarrow> (case gettoken b s of (_, _, _, s) \<Rightarrow> bnd (parseline f b s) (\<lambda>(c2, s). Inr (LIST c c2, s)))
     | (False, s) \<Rightarrow> Inr (c, s)))"
| "parsepipe 0 b s = Inl Diverges"
| "parsepipe (Suc f) b s =
     bnd (parseexec f b s) (\<lambda>(c, s). case peek b s ''|'' of
       (True, s) \<Rightarrow> (case gettoken b s of (_, _, _, s) \<Rightarrow> bnd (parsepipe f b s) (\<lambda>(c2, s). Inr (PIPE c c2, s)))
     | (False, s) \<Rightarrow> Inr (c, s))"
| "parseblock 0 b s = Inl Diverges"
| "parseblock (Suc f) b s = (case peek b s ''('' of
       (False, s) \<Rightarrow> Inl (Panic ''parseblock'')
     | (True, s) \<Rightarrow> (case gettoken b s of (_, _, _, s) \<Rightarrow> bnd (parseline f b s) (\<lambda>(c, s). case peek b s '')'' of
         (False, s) \<Rightarrow> Inl (Panic ''syntax - missing )'')
       | (True, s) \<Rightarrow> (case gettoken b s of (_, _, _, s) \<Rightarrow> parseredirs b c s))))"
| "parseexec 0 b s = Inl Diverges"
| "parseexec (Suc f) b s = (case peek b s ''('' of
       (True, s) \<Rightarrow> parseblock f b s
     | (False, s) \<Rightarrow> bnd (parseredirs b (EXEC []) s) (\<lambda>(ret, s). parseargs 9 b ret s))"

declare parseline.simps [simp del] parsepipe.simps [simp del] parseblock.simps [simp del] parseexec.simps [simp del]

text \<open>\<^verbatim>\<open>nulterminate\<close>; the byte at \<^verbatim>\<open>es\<close> is NUL already.\<close>

fun nulterminate :: "cmd \<Rightarrow> string \<Rightarrow> string" where
  "nulterminate (EXEC as) b = foldl (\<lambda>b a. b[snd a := CHR 0x00]) b as"
| "nulterminate (REDIR c q eq m fd) b = (nulterminate c b)[eq := CHR 0x00]"
| "nulterminate (PIPE l r) b = nulterminate r (nulterminate l b)"
| "nulterminate (LIST l r) b = nulterminate r (nulterminate l b)"
| "nulterminate (BACK c) b = nulterminate c b"

text \<open>\<^verbatim>\<open>parsecmd\<close>: what it prints, and the command with the terminated buffer.\<close>

definition parsecmd :: "string \<Rightarrow> string list \<times> (cmd \<times> string) res" where
  "parsecmd b = (case parseline (4 * length b + 4) b 0 of
     Inl e \<Rightarrow> ([], Inl e)
   | Inr (c, s) \<Rightarrow> (case peek b s '''' of (_, s) \<Rightarrow>
       if s \<noteq> length b then ([''leftovers: '' @ drop s b], Inl (Panic ''syntax''))
       else ([], Inr (c, nulterminate c b))))"

section \<open>What the parser returns\<close>

fun words :: "cmd \<Rightarrow> (nat \<times> nat) list" where
  "words (EXEC as) = as"
| "words (REDIR c q eq m fd) = words c @ [(q, eq)]"
| "words (PIPE l r) = words l @ words r"
| "words (LIST l r) = words l @ words r"
| "words (BACK c) = words c"

text \<open>The arguments of the \<^verbatim>\<open>execcmd\<close> that \<open>add_arg\<close> extends, and a bound on those of every \<^verbatim>\<open>execcmd\<close>.\<close>

fun nargs :: "cmd \<Rightarrow> nat" where
  "nargs (EXEC as) = length as"
| "nargs (REDIR c q eq m fd) = nargs c"
| "nargs c = 0"

fun max_args :: "cmd \<Rightarrow> nat" where
  "max_args (EXEC as) = length as"
| "max_args (REDIR c q eq m fd) = max_args c"
| "max_args (PIPE l r) = max (max_args l) (max_args r)"
| "max_args (LIST l r) = max (max_args l) (max_args r)"
| "max_args (BACK c) = max_args c"

definition good_cmd :: "string \<Rightarrow> cmd \<Rightarrow> bool" where
  "good_cmd b c \<longleftrightarrow> max_args c \<le> 9 \<and> (\<forall>w\<in>set (words c). word_at b w)"

lemma good_cmd_simps [simp]:
  "good_cmd b (REDIR c q eq m fd) \<longleftrightarrow> good_cmd b c \<and> word_at b (q, eq)"
  "good_cmd b (PIPE l r) \<longleftrightarrow> good_cmd b l \<and> good_cmd b r"
  "good_cmd b (LIST l r) \<longleftrightarrow> good_cmd b l \<and> good_cmd b r"
  "good_cmd b (BACK c) \<longleftrightarrow> good_cmd b c"
  "good_cmd b (EXEC [])"
  by (auto simp: good_cmd_def)

lemma add_arg_good: "good_cmd b c \<Longrightarrow> word_at b a \<Longrightarrow> nargs c < 9 \<Longrightarrow> good_cmd b (add_arg c a) \<and> nargs (add_arg c a) \<le> Suc (nargs c)"
  by (induction c a rule: add_arg.induct) (auto simp: good_cmd_def)

text \<open>The outcome of a parsing function started at \<open>s\<close>: it ends, and if without panic, at a later position.\<close>

definition good_res :: "string \<Rightarrow> nat \<Rightarrow> (cmd \<times> nat) res \<Rightarrow> bool" where
  "good_res b s r = (case r of Inl e \<Rightarrow> e \<noteq> Diverges | Inr (c, s') \<Rightarrow> s \<le> s' \<and> s' \<le> length b \<and> good_cmd b c)"

lemma good_res_simps [simp]:
  "good_res b s (Inl e) \<longleftrightarrow> e \<noteq> Diverges" "good_res b s (Inr (c, s')) \<longleftrightarrow> s \<le> s' \<and> s' \<le> length b \<and> good_cmd b c"
  by (simp_all add: good_res_def)

lemma good_res_bnd:
  assumes "good_res b s r" and "\<And>c s'. s \<le> s' \<Longrightarrow> s' \<le> length b \<Longrightarrow> good_cmd b c \<Longrightarrow> r = Inr (c, s') \<Longrightarrow> good_res b t (k (c, s'))"
  shows "good_res b t (bnd r k)"
  using assms by (cases r) (auto simp: good_res_def)

lemma good_res_le: "good_res b s r \<Longrightarrow> t \<le> s \<Longrightarrow> good_res b t r"
  by (auto simp: good_res_def split: sum.splits)

lemma peek_bounds: "peek b s toks = (r, s') \<Longrightarrow> s \<le> length b \<Longrightarrow> s \<le> s' \<and> s' \<le> length b"
  using peek_ge peek_le by blast

lemma parseredirs_good:
  assumes "CHR 0x00 \<notin> set b" and "s \<le> length b" and "good_cmd b c"
  shows "good_res b s (parseredirs b c s) \<and> (\<forall>c' s'. parseredirs b c s = Inr (c', s') \<longrightarrow> nargs c' = nargs c)"
  using assms
proof (induction "length b - s" arbitrary: c s rule: less_induct)
  case (less s c)
  note 1 = less
  obtain r s1 where p: "peek b s ''<>'' = (r, s1)" by (cases "peek b s ''<>''")
  have s1: "s \<le> s1" "s1 \<le> length b" using peek_bounds [OF p 1(3)] by simp_all
  obtain tok q e s2 where g: "gettoken b s1 = (tok, q, e, s2)" by (cases "gettoken b s1")
  obtain tok2 q2 e2 s3 where g2: "gettoken b s2 = (tok2, q2, e2, s3)" by (cases "gettoken b s2")
  have s2: "s1 \<le> s2" "s2 \<le> length b" using gettoken_spec [OF g s1(2) 1(2)] by auto
  have s3: "s2 \<le> s3" "s3 \<le> length b" "tok2 = CHR ''a'' \<Longrightarrow> word_at b (q2, e2)" using gettoken_spec [OF g2 s2(2) 1(2)] by auto
  show ?case
  proof (cases "r \<and> tok2 = CHR ''a''")
    case True
    define c' where "c' = (if tok = CHR ''<'' then REDIR c q2 e2 O_RDONLY 0 else if tok = CHR ''>'' then REDIR c q2 e2 (O_WRONLY + O_CREATE) 1
        else if tok = CHR ''+'' then REDIR c q2 e2 (O_WRONLY + O_CREATE) 1 else c)"
    have pt: "(True, s1) = peek b s ''<>''" using p True by simp
    have c': "good_cmd b c'" "nargs c' = nargs c" using 1(4) s3(3) True by (auto simp: c'_def)
    have eq: "parseredirs b c s = parseredirs b c' s3" by (subst parseredirs.simps) (simp add: p g g2 True c'_def)
    have "good_res b s3 (parseredirs b c' s3) \<and> (\<forall>c'' s'. parseredirs b c' s3 = Inr (c'', s') \<longrightarrow> nargs c'' = nargs c')"
      by (rule 1(1) [OF peek_token2_less [OF pt g [symmetric] g2 [symmetric]] 1(2) s3(2) c'(1)])
    then show ?thesis using c'(2) s1 s2 s3 by (auto simp: eq intro: good_res_le)
  next
    case False
    then show ?thesis using p g g2 s1 1(4) by (auto simp: parseredirs.simps [of b c s] split: bool.splits)
  qed
qed

lemma parseback_good:
  assumes "CHR 0x00 \<notin> set b" and "s \<le> length b" and "good_cmd b c" and "parseback b c s = (c', s')"
  shows "s \<le> s' \<and> s' \<le> length b \<and> good_cmd b c'"
  using assms
proof (induction "length b - s" arbitrary: c s rule: less_induct)
  case (less s c)
  obtain r s1 where p: "peek b s ''&'' = (r, s1)" by (cases "peek b s ''&''")
  have s1: "s \<le> s1" "s1 \<le> length b" using peek_bounds [OF p less(3)] by simp_all
  show ?case
  proof (cases r)
    case True
    obtain tok q e s2 where g: "gettoken b s1 = (tok, q, e, s2)" by (cases "gettoken b s1")
    have s2: "s1 \<le> s2" "s2 \<le> length b" using gettoken_spec [OF g s1(2) less(2)] by auto
    have lt: "length b - s2 < length b - s" using peek_token_less [OF _ g [symmetric]] p True by metis
    have "parseback b (BACK c) s2 = (c', s')" using less(5) p g True by (simp add: parseback.simps [of b c s])
    then show ?thesis using less(1) [OF lt less(2) s2(2), of "BACK c"] less(4) s1 s2 by auto
  next
    case False
    then show ?thesis using less p s1 by (simp add: parseback.simps [of b c s])
  qed
qed

lemma parseargs_good:
  assumes "CHR 0x00 \<notin> set b"
  shows "s \<le> length b \<Longrightarrow> good_cmd b c \<Longrightarrow> nargs c + k \<le> 9 \<Longrightarrow> good_res b s (parseargs k b c s)"
proof (induction k arbitrary: c s)
  case 0
  obtain r s1 where p: "peek b s ''|)&;'' = (r, s1)" by (cases "peek b s ''|)&;''")
  have s1: "s \<le> s1" "s1 \<le> length b" using peek_bounds [OF p 0(1)] by simp_all
  obtain tok q e s2 where g: "gettoken b s1 = (tok, q, e, s2)" by (cases "gettoken b s1")
  have "s1 \<le> s2" "s2 \<le> length b" using gettoken_spec [OF g s1(2) assms] by auto
  then show ?case using p g s1 0 by (auto simp: parseargs.simps [of 0] split: bool.splits)
next
  case (Suc k)
  obtain r s1 where p: "peek b s ''|)&;'' = (r, s1)" by (cases "peek b s ''|)&;''")
  have s1: "s \<le> s1" "s1 \<le> length b" using peek_bounds [OF p Suc(2)] by simp_all
  obtain tok q e s2 where g: "gettoken b s1 = (tok, q, e, s2)" by (cases "gettoken b s1")
  have s2: "s1 \<le> s2" "s2 \<le> length b" "tok = CHR ''a'' \<longrightarrow> word_at b (q, e)" using gettoken_spec [OF g s1(2) assms] by auto
  show ?case
  proof (cases "\<not> r \<and> tok = CHR ''a''")
    case True
    have a: "good_cmd b (add_arg c (q, e))" "nargs (add_arg c (q, e)) \<le> Suc (nargs c)"
      using add_arg_good [OF Suc(3), of "(q, e)"] s2(3) True Suc(4) by auto
    note pr = parseredirs_good [OF assms s2(2) a(1)]
    have "good_res b s2 (bnd (parseredirs b (add_arg c (q, e)) s2) (\<lambda>(ret, s). parseargs k b ret s))"
    proof (rule good_res_bnd)
      show "good_res b s2 (parseredirs b (add_arg c (q, e)) s2)" using pr by simp
      fix c' s'
      assume h: "s2 \<le> s'" "s' \<le> length b" "good_cmd b c'" "parseredirs b (add_arg c (q, e)) s2 = Inr (c', s')"
      then have "nargs c' + k \<le> 9" using pr a(2) Suc(4) by auto
      then show "good_res b s2 ((\<lambda>(ret, s). parseargs k b ret s) (c', s'))" using Suc.IH [OF h(2,3)] h(1) by (auto intro: good_res_le)
    qed
    then show ?thesis using True p g s1 s2 by (simp add: parseargs.simps [of "Suc k"]) (blast intro: good_res_le le_trans)
  next
    case False
    then show ?thesis using p g s1 s2 Suc(3) by (auto simp: parseargs.simps [of "Suc k"] split: bool.splits)
  qed
qed

text \<open>Fuel for the four mutually recursive functions: each level of nesting and each list or pipe element
  passes at most four calls and consumes a character.\<close>

definition enough :: "nat \<Rightarrow> string \<Rightarrow> nat \<Rightarrow> nat \<Rightarrow> bool" where
  "enough d b s f \<longleftrightarrow> 4 * (length b - s) + d \<le> f"

lemma peek_token_bounds:
  assumes "peek b s toks = (True, s1)" and "gettoken b s1 = (t, q, e, s2)" and "s \<le> length b" and "CHR 0x00 \<notin> set b"
  shows "s < s2 \<and> s2 \<le> length b \<and> s < length b"
  using peek_gettoken [OF assms(1,2)] gettoken_spec [OF assms(2) _ assms(4)] peek_bounds [OF assms(1,3)] peek_more [OF assms(1)] by auto

lemma parse_good:
  assumes "CHR 0x00 \<notin> set b"
  shows "s \<le> length b \<Longrightarrow> (enough 4 b s f \<longrightarrow> good_res b s (parseline f b s)) \<and> (enough 3 b s f \<longrightarrow> good_res b s (parsepipe f b s)) \<and>
    (enough 1 b s f \<longrightarrow> good_res b s (parseblock f b s)) \<and> (enough 2 b s f \<longrightarrow> good_res b s (parseexec f b s))"
proof (induction f arbitrary: s)
  case 0
  then show ?case by (simp add: enough_def)
next
  case (Suc f)
  note tok = peek_token_bounds [OF _ _ _ assms]
  have lineI: "good_res b s (parseline (Suc f) b s)" if "enough 4 b s (Suc f)"
    unfolding parseline.simps
  proof (rule good_res_bnd)
    show "good_res b s (parsepipe f b s)" using Suc that by (simp add: enough_def)
    fix c s1 assume h: "s \<le> s1" "s1 \<le> length b" "good_cmd b c"
    obtain c2 s2 where bk: "parseback b c s1 = (c2, s2)" by (cases "parseback b c s1")
    have s2: "s1 \<le> s2" "s2 \<le> length b" "good_cmd b c2" using parseback_good [OF assms h(2,3) bk] by auto
    obtain r s3 where p: "peek b s2 '';'' = (r, s3)" by (cases "peek b s2 '';''")
    obtain t q e s4 where g: "gettoken b s3 = (t, q, e, s4)" by (cases "gettoken b s3")
    show "good_res b s (case (c, s1) of (c, s) \<Rightarrow> case parseback b c s of (c, s) \<Rightarrow> (case peek b s '';'' of
       (True, s) \<Rightarrow> (case gettoken b s of (_, _, _, s) \<Rightarrow> bnd (parseline f b s) (\<lambda>(c2, s). Inr (LIST c c2, s)))
     | (False, s) \<Rightarrow> Inr (c, s)))"
    proof (cases r)
      case True
      have s4: "s2 < s4" "s4 \<le> length b" using tok [OF _ g s2(2)] p True by auto
      then have "enough 4 b s4 f" using that h s2 by (simp add: enough_def)
      then have "good_res b s4 (parseline f b s4)" using Suc.IH [OF s4(2)] by simp
      then have "good_res b s4 (bnd (parseline f b s4) (\<lambda>(c', s). Inr (LIST c2 c', s)))" by (rule good_res_bnd) (use s2 in simp)
      then show ?thesis using bk p g True good_res_le [of b s4 _ s] s4 h s2 by simp
    next
      case False
      then show ?thesis using bk p s2 h peek_bounds [OF p s2(2)] by simp
    qed
  qed
  have pipeI: "good_res b s (parsepipe (Suc f) b s)" if "enough 3 b s (Suc f)"
    unfolding parsepipe.simps
  proof (rule good_res_bnd)
    show "good_res b s (parseexec f b s)" using Suc that by (simp add: enough_def)
    fix c s1 assume h: "s \<le> s1" "s1 \<le> length b" "good_cmd b c"
    obtain r s3 where p: "peek b s1 ''|'' = (r, s3)" by (cases "peek b s1 ''|''")
    obtain t q e s4 where g: "gettoken b s3 = (t, q, e, s4)" by (cases "gettoken b s3")
    show "good_res b s (case (c, s1) of (c, s) \<Rightarrow> case peek b s ''|'' of
       (True, s) \<Rightarrow> (case gettoken b s of (_, _, _, s) \<Rightarrow> bnd (parsepipe f b s) (\<lambda>(c2, s). Inr (PIPE c c2, s)))
     | (False, s) \<Rightarrow> Inr (c, s))"
    proof (cases r)
      case True
      have s4: "s1 < s4" "s4 \<le> length b" using tok [OF _ g h(2)] p True by auto
      then have "enough 3 b s4 f" using that h by (simp add: enough_def)
      then have "good_res b s4 (parsepipe f b s4)" using Suc.IH [OF s4(2)] by simp
      then have "good_res b s4 (bnd (parsepipe f b s4) (\<lambda>(c', s). Inr (PIPE c c', s)))" by (rule good_res_bnd) (use h in simp)
      then show ?thesis using p g True good_res_le [of b s4 _ s] s4 h by simp
    next
      case False
      then show ?thesis using p h peek_bounds [OF p h(2)] by simp
    qed
  qed
  obtain r s1 where p: "peek b s ''('' = (r, s1)" by (cases "peek b s ''(''")
  have s1: "s \<le> s1" "s1 \<le> length b" using peek_bounds [OF p Suc(2)] by simp_all
  have blockI: "good_res b s (parseblock (Suc f) b s)" if "enough 1 b s (Suc f)"
  proof (cases r)
    case True
    obtain t q e s2 where g: "gettoken b s1 = (t, q, e, s2)" by (cases "gettoken b s1")
    have s2: "s < s2" "s2 \<le> length b" using tok [OF _ g Suc(2)] p True by auto
    then have "enough 4 b s2 f" using that by (simp add: enough_def)
    then have l: "good_res b s2 (parseline f b s2)" using Suc.IH [OF s2(2)] by simp
    have "good_res b s2 (bnd (parseline f b s2) (\<lambda>(c, s). case peek b s '')'' of
         (False, s) \<Rightarrow> Inl (Panic ''syntax - missing )'')
       | (True, s) \<Rightarrow> (case gettoken b s of (_, _, _, s) \<Rightarrow> parseredirs b c s)))"
    proof (rule good_res_bnd [OF l])
      fix c s3 assume h: "s2 \<le> s3" "s3 \<le> length b" "good_cmd b c"
      obtain r' s4 where p': "peek b s3 '')'' = (r', s4)" by (cases "peek b s3 '')''")
      obtain t q e s5 where g': "gettoken b s4 = (t, q, e, s5)" by (cases "gettoken b s4")
      have "s3 < s5" "s5 \<le> length b" if r' using tok [OF _ g' h(2)] p' that by auto
      then show "good_res b s2 (case (c, s3) of (c, s) \<Rightarrow> case peek b s '')'' of
         (False, s) \<Rightarrow> Inl (Panic ''syntax - missing )'')
       | (True, s) \<Rightarrow> (case gettoken b s of (_, _, _, s) \<Rightarrow> parseredirs b c s))"
        using p' g' h parseredirs_good [OF assms _ h(3), of s5] by (cases r') (auto intro: good_res_le)
    qed
    then show ?thesis using p g True s2 good_res_le [of b s2 _ s] by (simp add: parseblock.simps)
  next
    case False
    then show ?thesis using p by (simp add: parseblock.simps)
  qed
  have execI: "good_res b s (parseexec (Suc f) b s)" if "enough 2 b s (Suc f)"
  proof (cases r)
    case True
    have "enough 1 b s1 f" using that s1 by (simp add: enough_def)
    then show ?thesis using Suc.IH [OF s1(2)] p True s1 by (auto simp: parseexec.simps intro: good_res_le)
  next
    case False
    note pr = parseredirs_good [OF assms s1(2), of "EXEC []"]
    have "good_res b s1 (bnd (parseredirs b (EXEC []) s1) (\<lambda>(ret, s). parseargs 9 b ret s))"
    proof (rule good_res_bnd)
      show "good_res b s1 (parseredirs b (EXEC []) s1)" using pr by simp
      fix c s3 assume h: "s1 \<le> s3" "s3 \<le> length b" "good_cmd b c" "parseredirs b (EXEC []) s1 = Inr (c, s3)"
      then have "nargs c + 9 \<le> 9" using pr by simp
      then show "good_res b s1 (case (c, s3) of (ret, s) \<Rightarrow> parseargs 9 b ret s)" using parseargs_good [OF assms h(2,3)] h(1) by (auto intro: good_res_le)
    qed
    then show ?thesis using p False s1 good_res_le [of b s1 _ s] by (simp add: parseexec.simps)
  qed
  show ?case using lineI pipeI blockI execI by blast
qed

text \<open>The string at a position of the terminated buffer.\<close>

definition cstr :: "string \<Rightarrow> nat \<Rightarrow> string" where
  "cstr b q = takeWhile (\<lambda>c. c \<noteq> CHR 0x00) (drop q b)"

lemma foldl_nul:
  "length (foldl (\<lambda>b a. b[snd a := z]) b as) = length b \<and>
    (i < length b \<longrightarrow> foldl (\<lambda>b a. b[snd a := z]) b as ! i = (if i \<in> snd ` set as then z else b ! i))"
  by (induction as arbitrary: b) (auto simp: nth_list_update)

lemma nulterminate_nth:
  "length (nulterminate c b) = length b \<and>
    (i < length b \<longrightarrow> nulterminate c b ! i = (if i \<in> snd ` set (words c) then CHR 0x00 else b ! i))"
proof (induction c arbitrary: b)
  case (EXEC as)
  then show ?case using foldl_nul [of "CHR 0x00" b as i] by simp
next
  case (REDIR c q e m fd)
  show ?case using REDIR [of b] by (cases "i = e") (auto simp: nth_list_update)
qed auto

lemma nulterminate_word:
  assumes "good_cmd b c" and "CHR 0x00 \<notin> set b" and "(q, e) \<in> set (words c)"
  shows "cstr (nulterminate c b) q = take (e - q) (drop q b)"
proof -
  have w: "q < e" "e \<le> length b" "\<And>i. q \<le> i \<Longrightarrow> i < e \<Longrightarrow> is_word (b ! i)"
    using assms(1,3) by (auto simp: good_cmd_def word_at_def)
  have stop: "e' = length b \<or> \<not> is_word (b ! e')" if "e' \<in> snd ` set (words c)" for e'
    using assms(1) that by (auto simp: good_cmd_def word_at_def)
  have keep: "nulterminate c b ! i = b ! i" if "q \<le> i" "i < e" for i
  proof -
    have "i \<notin> snd ` set (words c)" using stop [of i] w(2,3) that by fastforce
    then show ?thesis using nulterminate_nth [of c b i] that w(2) by simp
  qed
  have nz: "b ! i \<noteq> CHR 0x00" if "i < length b" for i using assms(2) that by (auto simp: in_set_conv_nth)
  have len: "length (nulterminate c b) = length b" using nulterminate_nth by blast
  have "cstr (nulterminate c b) q = take (e - q) (drop q (nulterminate c b))"
    unfolding cstr_def
  proof (rule takeWhile_eq_take_P_nth)
    fix i assume "i < e - q" "i < length (drop q (nulterminate c b))"
    then show "drop q (nulterminate c b) ! i \<noteq> CHR 0x00" using keep [of "q + i"] nz [of "q + i"] len w by simp
  next
    assume "e - q < length (drop q (nulterminate c b))"
    moreover have "e \<in> snd ` set (words c)" using assms(3) by force
    ultimately show "\<not> drop q (nulterminate c b) ! (e - q) \<noteq> CHR 0x00" using nulterminate_nth [of c b e] w len by simp
  qed
  also have "\<dots> = take (e - q) (drop q b)" by (rule nth_equalityI) (use len keep w in auto)
  finally show ?thesis .
qed

text \<open>C17: the parser ends on every command line: the fuel that \<^verbatim>\<open>parsecmd\<close> is given is enough, so a line is
  either parsed or rejected with a message.\<close>

theorem parsecmd_terminates:
  assumes "CHR 0x00 \<notin> set b"
  shows "snd (parsecmd b) \<noteq> Inl Diverges"
  using parse_good [OF assms, of 0 "4 * length b + 4"]
  by (auto simp: parsecmd_def enough_def good_res_def split: sum.splits prod.splits)

theorem parsecmd_terminates_witness:
  "CHR 0x00 \<notin> set ''(ls)'' \<and> snd (parsecmd ''(ls)'') \<noteq> Inl Diverges"
  using parsecmd_terminates [of "''(ls)''"] by simp

text \<open>C12: the strings a parsed command names are the tokens of the line: after \<^verbatim>\<open>nulterminate\<close> every
  argument and every file name reads, as a C string, exactly the maximal run of word characters it was parsed
  from, and no command has more than the nine arguments that leave room for the final NULL of \<^verbatim>\<open>argv\<close>.\<close>

theorem parsecmd_words:
  assumes "CHR 0x00 \<notin> set b" and "parsecmd b = (out, Inr (c, b'))"
  shows "(\<forall>(q, e) \<in> set (words c). word_at b (q, e) \<and> cstr b' q = take (e - q) (drop q b)) \<and> max_args c \<le> 9"
proof -
  obtain s where p: "parseline (4 * length b + 4) b 0 = Inr (c, s)" "b' = nulterminate c b"
    using assms(2) by (auto simp: parsecmd_def split: sum.splits prod.splits if_splits)
  then have good: "good_cmd b c" using parse_good [OF assms(1), of 0 "4 * length b + 4"] by (simp add: enough_def)
  then show ?thesis using nulterminate_word [OF good assms(1)] p(2) by (auto simp: good_cmd_def)
qed

lemma parsecmd_ls: "parsecmd ''ls>f'' = ([], Inr (REDIR (EXEC [(0, 2)]) 3 4 513 1, ''ls'' @ [CHR 0x00] @ ''f''))"
  by code_simp

theorem parsecmd_words_witness:
  "cstr (''ls'' @ [CHR 0x00] @ ''f'') 0 = ''ls'' \<and> cstr (''ls'' @ [CHR 0x00] @ ''f'') 3 = ''f'' \<and> word_at ''ls>f'' (3, 4) \<and>
    max_args (REDIR (EXEC [(0, 2)]) 3 4 513 1) \<le> 9"
  using parsecmd_words [OF _ parsecmd_ls] by simp

section \<open>Running a command\<close>

text \<open>A process as the tree of its system calls; the last argument of a call is what follows its failure.\<close>

datatype prog =
    P_exit
  | P_close int prog
  | P_open string int prog prog
  | P_exec string "string list" prog
  | P_fork prog prog prog
  | P_pipe "int \<Rightarrow> int \<Rightarrow> prog" prog
  | P_dup int prog
  | P_wait prog
  | P_chdir string prog prog
  | P_print string prog

abbreviation (input) newline :: string where "newline \<equiv> [CHR 0x0A]"

definition sh_panic :: "string \<Rightarrow> prog" where
  "sh_panic s = P_print (s @ newline) P_exit"

definition fork1 :: "prog \<Rightarrow> prog \<Rightarrow> prog" where
  "fork1 child parent = P_fork child parent (sh_panic ''fork'')"

fun runcmd :: "string \<Rightarrow> cmd \<Rightarrow> prog" where
  "runcmd b (EXEC as) = (case as of [] \<Rightarrow> P_exit
     | a # _ \<Rightarrow> P_exec (cstr b (fst a)) (map (cstr b \<circ> fst) as) (P_print (''exec '' @ cstr b (fst a) @ '' failed'' @ newline) P_exit))"
| "runcmd b (REDIR c q eq mode fd) =
     P_close fd (P_open (cstr b q) mode (runcmd b c) (P_print (''open '' @ cstr b q @ '' failed'' @ newline) P_exit))"
| "runcmd b (LIST l r) = fork1 (runcmd b l) (P_wait (runcmd b r))"
| "runcmd b (PIPE l r) =
     P_pipe (\<lambda>p0 p1.
       fork1 (P_close 1 (P_dup p1 (P_close p0 (P_close p1 (runcmd b l)))))
        (fork1 (P_close 0 (P_dup p0 (P_close p0 (P_close p1 (runcmd b r)))))
          (P_close p0 (P_close p1 (P_wait (P_wait P_exit))))))
      (sh_panic ''pipe'')"
| "runcmd b (BACK c) = fork1 (runcmd b c) P_exit"

text \<open>The loop body of \<^verbatim>\<open>main\<close> on one line, and the loop on the lines that \<^verbatim>\<open>getcmd\<close> returns.\<close>

definition sh_child :: "string \<Rightarrow> prog" where
  "sh_child buf = (case parsecmd buf of (out, r) \<Rightarrow> foldr (\<lambda>l. P_print (l @ newline)) out
     (case r of Inr (c, b) \<Rightarrow> runcmd b c | Inl (Panic s) \<Rightarrow> sh_panic s | Inl _ \<Rightarrow> P_exit))"

fun sh_main :: "string list \<Rightarrow> prog" where
  "sh_main [] = P_exit"
| "sh_main (buf # lines) =
     (if take 3 buf = ''cd ''
      then (let dir = butlast (drop 3 buf)
            in P_chdir dir (sh_main lines) (P_print (''cannot cd '' @ dir @ newline) (sh_main lines)))
      else fork1 (sh_child buf) (P_wait (sh_main lines)))"

text \<open>What descriptors refer to, and the commands a process and its children execute when forks succeed,
  with the descriptors they start with. Pipes are numbered.\<close>

datatype fobj = Tty | File string int | ReadEnd nat | WriteEnd nat

type_synonym fds = "nat \<Rightarrow> fobj option"

definition lowfd :: "fds \<Rightarrow> nat option" where
  "lowfd f = find (\<lambda>i. f i = None) [0..<16]"

primrec execs :: "prog \<Rightarrow> nat \<Rightarrow> fds \<Rightarrow> (string list \<times> fds) list \<times> nat" where
  "execs P_exit n f = ([], n)"
| "execs (P_close fd k) n f = execs k n (f(nat fd := None))"
| "execs (P_open name mode k e) n f = (case lowfd f of None \<Rightarrow> execs e n f | Some d \<Rightarrow> execs k n (f(d \<mapsto> File name mode)))"
| "execs (P_exec path args e) n f = ([(args, f)], n)"
| "execs (P_fork c p e) n f = (case execs c n f of (xs, n) \<Rightarrow> (case execs p n f of (ys, n) \<Rightarrow> (xs @ ys, n)))"
| "execs (P_pipe k e) n f = (case lowfd f of None \<Rightarrow> execs e n f
     | Some p0 \<Rightarrow> (case lowfd (f(p0 \<mapsto> ReadEnd n)) of None \<Rightarrow> execs e n f
       | Some p1 \<Rightarrow> execs (k (int p0) (int p1)) (Suc n) (f(p0 \<mapsto> ReadEnd n, p1 \<mapsto> WriteEnd n))))"
| "execs (P_dup fd k) n f = (case lowfd f of None \<Rightarrow> execs k n f | Some d \<Rightarrow> execs k n (f(d := f (nat fd))))"
| "execs (P_wait k) n f = execs k n f"
| "execs (P_chdir dir k e) n f = execs k n f"
| "execs (P_print s k) n f = execs k n f"

text \<open>The intended wiring of a pipeline of simple commands.\<close>

fun pipeline :: "(nat \<times> nat) list list \<Rightarrow> cmd" where
  "pipeline [] = EXEC []"
| "pipeline [a] = EXEC a"
| "pipeline (a # as) = PIPE (EXEC a) (pipeline as)"

fun wiring :: "string \<Rightarrow> (nat \<times> nat) list list \<Rightarrow> nat \<Rightarrow> fds \<Rightarrow> (string list \<times> fds) list" where
  "wiring b [] n f = []"
| "wiring b [a] n f = [(map (cstr b \<circ> fst) a, f)]"
| "wiring b (a # as) n f = (map (cstr b \<circ> fst) a, f(1 \<mapsto> WriteEnd n)) # wiring b as (Suc n) (f(0 \<mapsto> ReadEnd n))"

definition std_fds :: "fds \<Rightarrow> bool" where
  "std_fds f \<longleftrightarrow> f 0 \<noteq> None \<and> f 1 \<noteq> None \<and> f 2 \<noteq> None \<and> (\<forall>i\<ge>3. f i = None)"

lemma lowfd_eqI:
  assumes "d < 16" and "f d = None" and "\<And>i. i < d \<Longrightarrow> f i \<noteq> None"
  shows "lowfd f = Some d"
  unfolding lowfd_def find_Some_iff using assms by (intro exI [of _ d]) auto

lemma std_fds_low:
  assumes "std_fds f"
  shows "lowfd f = Some 3" and "lowfd (f(3 \<mapsto> x)) = Some 4"
    and "lowfd (f(3 \<mapsto> x, 4 \<mapsto> y, 1 := None)) = Some 1" and "lowfd (f(3 \<mapsto> x, 4 \<mapsto> y, 0 := None)) = Some 0"
proof -
  have lt: "i < 3 \<Longrightarrow> f i \<noteq> None" "\<not> i < 3 \<Longrightarrow> f i = None" for i
    using assms by (auto simp: std_fds_def less_Suc_eq numeral_3_eq_3 numeral_2_eq_2)
  show "lowfd f = Some 3" by (rule lowfd_eqI) (use lt in auto)
  show "lowfd (f(3 \<mapsto> x)) = Some 4" by (rule lowfd_eqI) (use lt in \<open>auto simp: less_Suc_eq numeral_eq_Suc\<close>)
  show "lowfd (f(3 \<mapsto> x, 4 \<mapsto> y, 1 := None)) = Some 1" by (rule lowfd_eqI) (use lt in auto)
  show "lowfd (f(3 \<mapsto> x, 4 \<mapsto> y, 0 := None)) = Some 0" by (rule lowfd_eqI) auto
qed

lemma std_fds_close:
  assumes "std_fds f" and "d < 3"
  shows "f(3 \<mapsto> x, 4 \<mapsto> y, d := None, d := z, 3 := None, 4 := None) = f(d := z)"
  using assms by (auto simp: std_fds_def fun_eq_iff)

text \<open>C16: a pipeline of simple commands of any length is wired as intended: every command but the last
  writes to the write end of its own pipe, every command but the first reads from the pipe of its
  predecessor, all else is inherited, and no command keeps another end of a pipe open, so each reader
  sees the end of file when its writer exits.\<close>

theorem sh_pipeline_wired:
  assumes "std_fds f" and "\<forall>a\<in>set as. a \<noteq> []"
  shows "fst (execs (runcmd b (pipeline as)) n f) = wiring b as n f"
  using assms
proof (induction b as n f rule: wiring.induct)
  case (1 b n f)
  then show ?case by simp
next
  case (2 b a n f)
  then show ?case by (cases a) simp_all
next
  case (3 b a a' as n f)
  note low = std_fds_low [OF 3(2)]
  have l: "f(3 \<mapsto> ReadEnd n, 4 \<mapsto> WriteEnd n, 1 := None, 1 \<mapsto> WriteEnd n, 3 := None, 4 := None) = f(1 \<mapsto> WriteEnd n)"
    and r: "f(3 \<mapsto> ReadEnd n, 4 \<mapsto> WriteEnd n, 0 := None, 0 \<mapsto> ReadEnd n, 3 := None, 4 := None) = f(0 \<mapsto> ReadEnd n)"
    by (rule std_fds_close [OF 3(2)], simp)+
  have "std_fds (f(0 \<mapsto> ReadEnd n))" using 3(2) by (simp add: std_fds_def)
  then have ih: "fst (execs (runcmd b (pipeline (a' # as))) (Suc n) (f(0 \<mapsto> ReadEnd n))) = wiring b (a' # as) (Suc n) (f(0 \<mapsto> ReadEnd n))"
    using 3(1,3) by (simp add: fun_upd_def)
  obtain x xs where a: "a = x # xs" using 3(3) by (cases a) auto
  have "execs (runcmd b (EXEC a)) (Suc n) (f(1 \<mapsto> WriteEnd n)) = ([(map (cstr b \<circ> fst) a, f(1 \<mapsto> WriteEnd n))], Suc n)" by (simp add: a)
  moreover obtain ys m where "execs (runcmd b (pipeline (a' # as))) (Suc n) (f(0 \<mapsto> ReadEnd n)) = (ys, m)" "ys = wiring b (a' # as) (Suc n) (f(0 \<mapsto> ReadEnd n))"
    using ih by (cases "execs (runcmd b (pipeline (a' # as))) (Suc n) (f(0 \<mapsto> ReadEnd n))") simp
  ultimately show ?case using low l r by (simp add: fork1_def)
qed


theorem sh_pipeline_wired_witness:
  "fst (execs (runcmd (''ls'' @ [CHR 0x00] @ ''wc'') (pipeline [[(0, 2)], [(3, 5)]])) 0 ((\<lambda>_. None)(0 \<mapsto> Tty, 1 \<mapsto> Tty, 2 \<mapsto> Tty))) =
    wiring (''ls'' @ [CHR 0x00] @ ''wc'') [[(0, 2)], [(3, 5)]] 0 ((\<lambda>_. None)(0 \<mapsto> Tty, 1 \<mapsto> Tty, 2 \<mapsto> Tty))"
  by (rule sh_pipeline_wired) (simp_all add: std_fds_def)

end

