(* ===== verification/Fs.thy ===== *)
theory Fs
  imports Log Kstring
begin

text \<open>
  The file system, \<^verbatim>\<open>fs.c\<close>: block allocation, inodes, file contents, directories and path names, over the
  log and the buffer cache. The state extends the one of the log by the superblock and the inode cache;
  an inode pointer is its index in the cache. Operations that run under \<^verbatim>\<open>icache.lock\<close> are one step.
  Reading returns the bytes copied to the caller's buffer; \<open>devsw\<close> is the table of \<^verbatim>\<open>file.c\<close> whose entries the
  device drivers fill in. Loops whose bound is \<^verbatim>\<open>sb.size\<close>, \<^verbatim>\<open>sb.ninodes\<close> or \<^verbatim>\<open>dp->size\<close> take
  that bound as an argument, since their body does not assign to it.
\<close>

unbundle bit_operations_syntax

section \<open>State\<close>

record inode =
  i_dev :: nat
  i_inum :: nat
  i_ref :: int
  i_lock :: sleeplock
  i_flags :: "32 word"
  i_type :: int
  i_major :: int
  i_minor :: int
  i_nlink :: int
  i_size :: nat
  i_addrs :: "nat \<Rightarrow> nat"

abbreviation (input) I_VALID :: "32 word" where "I_VALID \<equiv> 0x2"
abbreviation (input) T_DIR :: int where "T_DIR \<equiv> 1"
abbreviation (input) T_FILE :: int where "T_FILE \<equiv> 2"
abbreviation (input) T_DEV :: int where "T_DEV \<equiv> 3"

record fs_state = log_state +
  fsb :: superblock
  icache :: "nat \<Rightarrow> inode"

record 's devsw =
  dev_read :: "int \<Rightarrow> (nat \<Rightarrow> nat \<Rightarrow> nat \<Rightarrow> 's \<Rightarrow> ((int \<times> byte list) \<times> 's) res) option"
  dev_write :: "int \<Rightarrow> (nat \<Rightarrow> nat \<Rightarrow> byte list \<Rightarrow> 's \<Rightarrow> (int \<times> 's) res) option"

definition upd_inode :: "nat \<Rightarrow> (inode \<Rightarrow> inode) \<Rightarrow> 'a fs_state_scheme \<Rightarrow> 'a fs_state_scheme" where
  "upd_inode ip f s = s\<lparr>icache := (icache s)(ip := f (icache s ip))\<rparr>"

abbreviation inode_of :: "'a fs_state_scheme \<Rightarrow> nat \<Rightarrow> inode" where
  "inode_of s ip \<equiv> icache s ip"

section \<open>Blocks\<close>

definition IBLOCK :: "nat \<Rightarrow> superblock \<Rightarrow> nat" where
  "IBLOCK i sb = u32 (i div IPB + sb_inodestart sb)"

definition BBLOCK :: "nat \<Rightarrow> superblock \<Rightarrow> nat" where
  "BBLOCK b sb = u32 (b div BPB + sb_bmapstart sb)"

definition bzero :: "nat \<Rightarrow> nat \<Rightarrow> 'a fs_state_scheme \<Rightarrow> 'a fs_state_scheme res" where
  "bzero dev bno s =
     bnd (bread dev bno s) (\<lambda>(bp, s).
     bnd (log_write bp (set_data bp (\<lambda>d. memfill d 0 0 BSIZE) s)) (brelse bp))"

text \<open>The bit of block \<open>bi\<close> in a bitmap block.\<close>

definition bm_test :: "block \<Rightarrow> nat \<Rightarrow> bool" where
  "bm_test d bi \<longleftrightarrow> d (bi div 8) AND push_bit (bi mod 8) 1 \<noteq> 0"

definition bm_set :: "nat \<Rightarrow> block \<Rightarrow> block" where
  "bm_set bi d = d(bi div 8 := d (bi div 8) OR push_bit (bi mod 8) 1)"

definition bm_clear :: "nat \<Rightarrow> block \<Rightarrow> block" where
  "bm_clear bi d = d(bi div 8 := d (bi div 8) AND NOT (push_bit (bi mod 8) 1))"

function balloc_loop :: "superblock \<Rightarrow> nat \<Rightarrow> nat \<Rightarrow> 'a fs_state_scheme \<Rightarrow> (nat \<times> 'a fs_state_scheme) res" where
  "balloc_loop sb dev b s =
     (if b < sb_size sb then
        bnd (bread dev (BBLOCK b sb) s) (\<lambda>(bp, s).
          case List.find (\<lambda>bi. \<not> bm_test (b_data (bufs s bp)) bi) [0..<min BPB (sb_size sb - b)] of
            Some bi \<Rightarrow>
              bnd (log_write bp (set_data bp (bm_set bi) s)) (\<lambda>s.
              bnd (brelse bp s) (\<lambda>s.
              bnd (bzero dev (b + bi) s) (\<lambda>s. Inr (b + bi, s))))
          | None \<Rightarrow> bnd (brelse bp s) (balloc_loop sb dev (b + BPB)))
      else Inl (Panic ''balloc: out of blocks''))"
  by pat_completeness auto
termination by (relation "measure (\<lambda>(sb, _, b, _). sb_size sb - b)") auto

declare balloc_loop.simps [simp del]

definition balloc :: "nat \<Rightarrow> 'a fs_state_scheme \<Rightarrow> (nat \<times> 'a fs_state_scheme) res" where
  "balloc dev s = balloc_loop (fsb s) dev 0 s"

definition bfree :: "nat \<Rightarrow> nat \<Rightarrow> 'a fs_state_scheme \<Rightarrow> 'a fs_state_scheme res" where
  "bfree dev b s =
     bnd (readsb dev s) (\<lambda>(sb, s).
     let s = s\<lparr>fsb := sb\<rparr> in
     bnd (bread dev (BBLOCK b (fsb s)) s) (\<lambda>(bp, s).
       let bi = b mod BPB in
       if \<not> bm_test (b_data (bufs s bp)) bi then Inl (Panic ''freeing free block'')
       else bnd (log_write bp (set_data bp (bm_clear bi) s)) (brelse bp)))"

section \<open>Inodes\<close>

definition iinit :: "nat \<Rightarrow> 'a fs_state_scheme \<Rightarrow> 'a fs_state_scheme res" where
  "iinit dev s =
     (let s = fold (\<lambda>i. upd_inode i (\<lambda>n. n\<lparr>i_lock := initsleeplock\<rparr>)) [0..<NINODE] s
      in bnd (readsb dev s) (\<lambda>(sb, s). Inr (s\<lparr>fsb := sb\<rparr>)))"

text \<open>\<^verbatim>\<open>struct dinode\<close>: 64 bytes at \<open>p\<close>.\<close>

definition dinode_at :: "nat \<Rightarrow> nat" where
  "dinode_at inum = inum mod IPB * 64"

definition put_dinode :: "nat \<Rightarrow> inode \<Rightarrow> block \<Rightarrow> block" where
  "put_dinode p n d =
     (let d = put_s16 (i_type n) d p;
          d = put_s16 (i_major n) d (p + 2);
          d = put_s16 (i_minor n) d (p + 4);
          d = put_s16 (i_nlink n) d (p + 6);
          d = put_u32 (i_size n) d (p + 8)
      in fold (\<lambda>k d. put_u32 (i_addrs n k) d (p + 12 + 4 * k)) [0..<NDIRECT + 1] d)"

definition get_dinode :: "nat \<Rightarrow> block \<Rightarrow> inode \<Rightarrow> inode" where
  "get_dinode p d n = n\<lparr>i_type := get_s16 d p, i_major := get_s16 d (p + 2), i_minor := get_s16 d (p + 4),
     i_nlink := get_s16 d (p + 6), i_size := get_u32 d (p + 8),
     i_addrs := (\<lambda>k. if k < NDIRECT + 1 then get_u32 d (p + 12 + 4 * k) else i_addrs n k)\<rparr>"

definition iupdate :: "nat \<Rightarrow> 'a fs_state_scheme \<Rightarrow> 'a fs_state_scheme res" where
  "iupdate ip s =
     (let n = inode_of s ip in
      bnd (bread (i_dev n) (IBLOCK (i_inum n) (fsb s)) s) (\<lambda>(bp, s).
      bnd (log_write bp (set_data bp (put_dinode (dinode_at (i_inum n)) n) s)) (brelse bp)))"

definition iget :: "nat \<Rightarrow> nat \<Rightarrow> 'a fs_state_scheme \<Rightarrow> (nat \<times> 'a fs_state_scheme) res" where
  "iget dev inum s =
     (case List.find (\<lambda>ip. i_ref (inode_of s ip) > 0 \<and> i_dev (inode_of s ip) = dev \<and> i_inum (inode_of s ip) = inum) [0..<NINODE] of
        Some ip \<Rightarrow> Inr (ip, upd_inode ip (\<lambda>n. n\<lparr>i_ref := i_ref n + 1\<rparr>) s)
      | None \<Rightarrow> (case List.find (\<lambda>ip. i_ref (inode_of s ip) = 0) [0..<NINODE] of
          None \<Rightarrow> Inl (Panic ''iget: no inodes'')
        | Some ip \<Rightarrow> Inr (ip, upd_inode ip (\<lambda>n. n\<lparr>i_dev := dev, i_inum := inum, i_ref := 1, i_flags := 0\<rparr>) s)))"

function ialloc_loop :: "superblock \<Rightarrow> nat \<Rightarrow> int \<Rightarrow> nat \<Rightarrow> 'a fs_state_scheme \<Rightarrow> (nat \<times> 'a fs_state_scheme) res" where
  "ialloc_loop sb dev type inum s =
     (if inum < sb_ninodes sb then
        bnd (bread dev (IBLOCK inum sb) s) (\<lambda>(bp, s).
          if get_s16 (b_data (bufs s bp)) (dinode_at inum) = 0 then
            bnd (log_write bp (set_data bp (\<lambda>d. put_s16 type (memfill d (dinode_at inum) 0 64) (dinode_at inum)) s)) (\<lambda>s.
            bnd (brelse bp s) (\<lambda>s. iget dev inum s))
          else bnd (brelse bp s) (ialloc_loop sb dev type (inum + 1)))
      else Inl (Panic ''ialloc: no inodes''))"
  by pat_completeness auto
termination by (relation "measure (\<lambda>(sb, _, _, inum, _). sb_ninodes sb - inum)") auto

declare ialloc_loop.simps [simp del]

definition ialloc :: "nat \<Rightarrow> int \<Rightarrow> 'a fs_state_scheme \<Rightarrow> (nat \<times> 'a fs_state_scheme) res" where
  "ialloc dev type s = ialloc_loop (fsb s) dev type 1 s"

definition idup :: "nat \<Rightarrow> 'a fs_state_scheme \<Rightarrow> 'a fs_state_scheme" where
  "idup ip s = upd_inode ip (\<lambda>n. n\<lparr>i_ref := i_ref n + 1\<rparr>) s"

definition ilock :: "nat \<Rightarrow> 'a fs_state_scheme \<Rightarrow> 'a fs_state_scheme res" where
  "ilock ip s =
     (if i_ref (inode_of s ip) < 1 then Inl (Panic ''ilock'')
      else bnd (acquiresleep (cur_pid s) (i_lock (inode_of s ip))) (\<lambda>lk.
        let s = upd_inode ip (\<lambda>n. n\<lparr>i_lock := lk\<rparr>) s; n = inode_of s ip in
        if i_flags n AND I_VALID = 0 then
          bnd (bread (i_dev n) (IBLOCK (i_inum n) (fsb s)) s) (\<lambda>(bp, s).
            let s = upd_inode ip (get_dinode (dinode_at (i_inum n)) (b_data (bufs s bp))) s in
            bnd (brelse bp s) (\<lambda>s.
              let s = upd_inode ip (\<lambda>n. n\<lparr>i_flags := i_flags n OR I_VALID\<rparr>) s in
              if i_type (inode_of s ip) = 0 then Inl (Panic ''ilock: no type'') else Inr s))
        else Inr s))"

definition iunlock :: "nat \<Rightarrow> 'a fs_state_scheme \<Rightarrow> 'a fs_state_scheme res" where
  "iunlock ip s =
     (if \<not> holdingsleep (i_lock (inode_of s ip)) \<or> i_ref (inode_of s ip) < 1 then Inl (Panic ''iunlock'')
      else Inr (upd_inode ip (\<lambda>n. n\<lparr>i_lock := releasesleep (i_lock n)\<rparr>) s))"

section \<open>File contents\<close>

text \<open>Entry \<open>bn\<close> of the indirect block at \<open>addr\<close>, allocated if it is missing.\<close>

definition bmap_indirect :: "nat \<Rightarrow> nat \<Rightarrow> nat \<Rightarrow> 'a fs_state_scheme \<Rightarrow> (nat \<times> 'a fs_state_scheme) res" where
  "bmap_indirect dev addr bn s =
     bnd (bread dev addr s) (\<lambda>(bp, s).
       let addr = get_u32 (b_data (bufs s bp)) (4 * bn) in
       bnd (if addr = 0 then
              bnd (balloc dev s) (\<lambda>(addr, s).
              bnd (log_write bp (set_data bp (\<lambda>d. put_u32 addr d (4 * bn)) s)) (\<lambda>s. Inr (addr, s)))
            else Inr (addr, s)) (\<lambda>(addr, s).
       bnd (brelse bp s) (\<lambda>s. Inr (addr, s))))"

definition bmap :: "nat \<Rightarrow> nat \<Rightarrow> 'a fs_state_scheme \<Rightarrow> (nat \<times> 'a fs_state_scheme) res" where
  "bmap ip bn s =
     (let n = inode_of s ip in
      if bn < NDIRECT then
        (if i_addrs n bn = 0 then
           bnd (balloc (i_dev n) s) (\<lambda>(addr, s). Inr (addr, upd_inode ip (\<lambda>n. n\<lparr>i_addrs := (i_addrs n)(bn := addr)\<rparr>) s))
         else Inr (i_addrs n bn, s))
      else let bn = bn - NDIRECT in
        if bn < NINDIRECT then
          bnd (if i_addrs n NDIRECT = 0 then
                 bnd (balloc (i_dev n) s) (\<lambda>(addr, s). Inr (addr, upd_inode ip (\<lambda>n. n\<lparr>i_addrs := (i_addrs n)(NDIRECT := addr)\<rparr>) s))
               else Inr (i_addrs n NDIRECT, s)) (\<lambda>(addr, s). bmap_indirect (i_dev n) addr bn s)
        else Inl (Panic ''bmap: out of range''))"

definition itrunc :: "nat \<Rightarrow> 'a fs_state_scheme \<Rightarrow> 'a fs_state_scheme res" where
  "itrunc ip s =
     bnd (rfold (\<lambda>i s. if i_addrs (inode_of s ip) i \<noteq> 0 then
            bnd (bfree (i_dev (inode_of s ip)) (i_addrs (inode_of s ip) i) s) (\<lambda>s.
              Inr (upd_inode ip (\<lambda>n. n\<lparr>i_addrs := (i_addrs n)(i := 0)\<rparr>) s))
          else Inr s) [0..<NDIRECT] s) (\<lambda>s.
     bnd (if i_addrs (inode_of s ip) NDIRECT \<noteq> 0 then
            bnd (bread (i_dev (inode_of s ip)) (i_addrs (inode_of s ip) NDIRECT) s) (\<lambda>(bp, s).
            bnd (rfold (\<lambda>j s. let a = get_u32 (b_data (bufs s bp)) (4 * j) in
                   if a \<noteq> 0 then bfree (i_dev (inode_of s ip)) a s else Inr s) [0..<NINDIRECT] s) (\<lambda>s.
            bnd (brelse bp s) (\<lambda>s.
            bnd (bfree (i_dev (inode_of s ip)) (i_addrs (inode_of s ip) NDIRECT) s) (\<lambda>s.
              Inr (upd_inode ip (\<lambda>n. n\<lparr>i_addrs := (i_addrs n)(NDIRECT := 0)\<rparr>) s)))))
          else Inr s) (\<lambda>s.
     iupdate ip (upd_inode ip (\<lambda>n. n\<lparr>i_size := 0\<rparr>) s)))"

definition iput :: "nat \<Rightarrow> 'a fs_state_scheme \<Rightarrow> 'a fs_state_scheme res" where
  "iput ip s =
     bnd (if i_ref (inode_of s ip) = 1 \<and> i_flags (inode_of s ip) AND I_VALID \<noteq> 0 \<and> i_nlink (inode_of s ip) = 0 then
            bnd (itrunc ip s) (\<lambda>s.
            bnd (iupdate ip (upd_inode ip (\<lambda>n. n\<lparr>i_type := 0\<rparr>) s)) (\<lambda>s.
              Inr (upd_inode ip (\<lambda>n. n\<lparr>i_flags := 0\<rparr>) s)))
          else Inr s) (\<lambda>s.
     Inr (upd_inode ip (\<lambda>n. n\<lparr>i_ref := i_ref n - 1\<rparr>) s))"

definition iunlockput :: "nat \<Rightarrow> 'a fs_state_scheme \<Rightarrow> 'a fs_state_scheme res" where
  "iunlockput ip s = bnd (iunlock ip s) (iput ip)"

record stat =
  st_dev :: int
  st_ino :: nat
  st_type :: int
  st_nlink :: int
  st_size :: nat

definition stati :: "nat \<Rightarrow> 'a fs_state_scheme \<Rightarrow> stat" where
  "stati ip s = (let n = inode_of s ip in
     \<lparr>st_dev = s32 (int (i_dev n)), st_ino = i_inum n, st_type = i_type n, st_nlink = i_nlink n, st_size = i_size n\<rparr>)"

text \<open>The copy loop of \<^verbatim>\<open>readi\<close> with \<open>n\<close> bytes left.\<close>

function readi_loop :: "nat \<Rightarrow> nat \<Rightarrow> nat \<Rightarrow> 'a fs_state_scheme \<Rightarrow> (byte list \<times> 'a fs_state_scheme) res" where
  "readi_loop ip off n s =
     (if n = 0 then Inr ([], s)
      else bnd (bmap ip (off div BSIZE) s) (\<lambda>(addr, s).
        bnd (bread (i_dev (inode_of s ip)) addr s) (\<lambda>(bp, s).
          let m = min n (BSIZE - off mod BSIZE);
              bytes = map (\<lambda>k. b_data (bufs s bp) (off mod BSIZE + k)) [0..<m] in
          bnd (brelse bp s) (\<lambda>s.
          bnd (readi_loop ip (off + m) (n - m) s) (\<lambda>(rest, s). Inr (bytes @ rest, s))))))"
  by pat_completeness auto
termination by (relation "measure (\<lambda>(_, _, n, _). n)") auto

declare readi_loop.simps [simp del]

definition readi :: "'a fs_state_scheme devsw \<Rightarrow> nat \<Rightarrow> nat \<Rightarrow> nat \<Rightarrow> 'a fs_state_scheme \<Rightarrow> ((int \<times> byte list) \<times> 'a fs_state_scheme) res" where
  "readi D ip off n s =
     (let i = inode_of s ip in
      if i_type i = T_DEV then
        (if i_major i < 0 \<or> i_major i \<ge> int NDEV then Inr ((- 1, []), s)
         else case dev_read D (i_major i) of None \<Rightarrow> Inr ((- 1, []), s) | Some f \<Rightarrow> f ip off n s)
      else if off > i_size i \<or> u32 (off + n) < off then Inr ((- 1, []), s)
      else let n = (if u32 (off + n) > i_size i then i_size i - off else n) in
        bnd (readi_loop ip off n s) (\<lambda>(bytes, s). Inr ((int n, bytes), s)))"

text \<open>The copy loop of \<^verbatim>\<open>writei\<close>: \<open>src\<close> holds the bytes left; the result is \<^verbatim>\<open>off\<close> at the end.\<close>

function writei_loop :: "nat \<Rightarrow> nat \<Rightarrow> byte list \<Rightarrow> 'a fs_state_scheme \<Rightarrow> (nat \<times> 'a fs_state_scheme) res" where
  "writei_loop ip off src s =
     (if src = [] then Inr (off, s)
      else bnd (bmap ip (off div BSIZE) s) (\<lambda>(addr, s).
        bnd (bread (i_dev (inode_of s ip)) addr s) (\<lambda>(bp, s).
          let m = min (length src) (BSIZE - off mod BSIZE) in
          bnd (log_write bp (set_data bp (\<lambda>d. memcopy d (off mod BSIZE) (\<lambda>i. src ! i) 0 m) s)) (\<lambda>s.
          bnd (brelse bp s) (writei_loop ip (off + m) (drop m src))))))"
  by pat_completeness auto
termination by (relation "measure (\<lambda>(_, _, src, _). length src)") auto

declare writei_loop.simps [simp del]

definition writei :: "'a fs_state_scheme devsw \<Rightarrow> nat \<Rightarrow> nat \<Rightarrow> byte list \<Rightarrow> 'a fs_state_scheme \<Rightarrow> (int \<times> 'a fs_state_scheme) res" where
  "writei D ip off src s =
     (let i = inode_of s ip; n = length src in
      if i_type i = T_DEV then
        (if i_major i < 0 \<or> i_major i \<ge> int NDEV then Inr (- 1, s)
         else case dev_write D (i_major i) of None \<Rightarrow> Inr (- 1, s) | Some f \<Rightarrow> f ip off src s)
      else if off > i_size i \<or> u32 (off + n) < off then Inr (- 1, s)
      else if u32 (off + n) > MAXFILE * BSIZE then Inr (- 1, s)
      else bnd (writei_loop ip off src s) (\<lambda>(off, s).
        bnd (if n > 0 \<and> off > i_size (inode_of s ip)
             then iupdate ip (upd_inode ip (\<lambda>n. n\<lparr>i_size := off\<rparr>) s) else Inr s) (\<lambda>s.
        Inr (int n, s))))"

section \<open>Directories\<close>

text \<open>\<^verbatim>\<open>namecmp\<close> compares two arrays of \<^verbatim>\<open>DIRSIZ\<close> bytes.\<close>

definition namecmp :: "block \<Rightarrow> block \<Rightarrow> int" where
  "namecmp s t = strncmp 0 DIRSIZ DIRSIZ (\<lambda>i. if i < DIRSIZ then s i else t (i - DIRSIZ))"

text \<open>\<^verbatim>\<open>struct dirent\<close>: \<^verbatim>\<open>inum\<close> in two bytes, then the name.\<close>

definition de_inum :: "byte list \<Rightarrow> nat" where
  "de_inum de = get_u16 (\<lambda>i. de ! i) 0"

definition de_name :: "byte list \<Rightarrow> block" where
  "de_name de = (\<lambda>i. de ! (2 + i))"

definition mk_dirent :: "block \<Rightarrow> nat \<Rightarrow> byte list" where
  "mk_dirent name inum =
     (let m = strncpy 2 16 DIRSIZ (\<lambda>i. if i < 16 then 0 else name (i - 16)) in map (put_u16 inum m 0) [0..<16])"

function dirlookup_loop :: "'a fs_state_scheme devsw \<Rightarrow> nat \<Rightarrow> nat \<Rightarrow> block \<Rightarrow> nat \<Rightarrow> 'a fs_state_scheme \<Rightarrow>
    ((nat \<times> nat) option \<times> 'a fs_state_scheme) res" where
  "dirlookup_loop D dp sz name off s =
     (if off < sz then
        bnd (readi D dp off 16 s) (\<lambda>((r, de), s).
          if r \<noteq> 16 then Inl (Panic ''dirlookup read'')
          else if de_inum de = 0 then dirlookup_loop D dp sz name (off + 16) s
          else if namecmp name (de_name de) = 0 then
            bnd (iget (i_dev (inode_of s dp)) (de_inum de) s) (\<lambda>(ip, s). Inr (Some (ip, off), s))
          else dirlookup_loop D dp sz name (off + 16) s)
      else Inr (None, s))"
  by pat_completeness auto
termination by (relation "measure (\<lambda>(_, _, sz, _, off, _). sz - off)") auto

declare dirlookup_loop.simps [simp del]

text \<open>The inode found, with the offset of its entry (\<^verbatim>\<open>*poff\<close>).\<close>

definition dirlookup :: "'a fs_state_scheme devsw \<Rightarrow> nat \<Rightarrow> block \<Rightarrow> 'a fs_state_scheme \<Rightarrow>
    ((nat \<times> nat) option \<times> 'a fs_state_scheme) res" where
  "dirlookup D dp name s =
     (if i_type (inode_of s dp) \<noteq> T_DIR then Inl (Panic ''dirlookup not DIR'')
      else dirlookup_loop D dp (i_size (inode_of s dp)) name 0 s)"

text \<open>The search for an empty entry in \<^verbatim>\<open>dirlink\<close>.\<close>

function dirlink_loop :: "'a fs_state_scheme devsw \<Rightarrow> nat \<Rightarrow> nat \<Rightarrow> nat \<Rightarrow> 'a fs_state_scheme \<Rightarrow> (nat \<times> 'a fs_state_scheme) res" where
  "dirlink_loop D dp sz off s =
     (if off < sz then
        bnd (readi D dp off 16 s) (\<lambda>((r, de), s).
          if r \<noteq> 16 then Inl (Panic ''dirlink read'')
          else if de_inum de = 0 then Inr (off, s)
          else dirlink_loop D dp sz (off + 16) s)
      else Inr (off, s))"
  by pat_completeness auto
termination by (relation "measure (\<lambda>(_, _, sz, off, _). sz - off)") auto

declare dirlink_loop.simps [simp del]

definition dirlink :: "'a fs_state_scheme devsw \<Rightarrow> nat \<Rightarrow> block \<Rightarrow> nat \<Rightarrow> 'a fs_state_scheme \<Rightarrow> (int \<times> 'a fs_state_scheme) res" where
  "dirlink D dp name inum s =
     bnd (dirlookup D dp name s) (\<lambda>(r, s). case r of
       Some (ip, _) \<Rightarrow> bnd (iput ip s) (\<lambda>s. Inr (- 1, s))
     | None \<Rightarrow>
         bnd (dirlink_loop D dp (i_size (inode_of s dp)) 0 s) (\<lambda>(off, s).
         bnd (writei D dp off (mk_dirent name inum) s) (\<lambda>(r, s).
           if r \<noteq> 16 then Inl (Panic ''dirlink'') else Inr (0, s))))"

section \<open>Paths\<close>

text \<open>A path is its bytes without the final NUL; \<^verbatim>\<open>name\<close> is an array whose bytes after a NUL are left alone.\<close>

abbreviation (input) slash :: byte where "slash \<equiv> 47"

definition skipelem :: "byte list \<Rightarrow> block \<Rightarrow> (byte list \<times> block) option" where
  "skipelem path name =
     (let path = dropWhile (\<lambda>c. c = slash) path in
      if path = [] then None
      else let elem = takeWhile (\<lambda>c. c \<noteq> slash) path;
               rest = dropWhile (\<lambda>c. c \<noteq> slash) path;
               len = length elem;
               name = (if len \<ge> DIRSIZ then memcopy name 0 (\<lambda>i. elem ! i) 0 DIRSIZ
                       else (memcopy name 0 (\<lambda>i. elem ! i) 0 len)(len := 0))
           in Some (dropWhile (\<lambda>c. c = slash) rest, name))"

lemma skipelem_shorter [termination_simp]: "skipelem path name = Some (path', name') \<Longrightarrow> length path' < length path"
proof -
  assume a: "skipelem path name = Some (path', name')"
  define p where "p = dropWhile (\<lambda>c. c = slash) path"
  have p: "length p \<le> length path" "p \<noteq> []" using a by (auto simp: skipelem_def Let_def p_def length_dropWhile_le split: if_splits)
  then have "hd p \<noteq> slash" using hd_dropWhile [of "\<lambda>c. c = slash" path] by (simp add: p_def)
  then have "length (dropWhile (\<lambda>c. c \<noteq> slash) p) < length p"
    using p(2) length_dropWhile_le [of "\<lambda>c. c \<noteq> slash" "tl p"] by (cases p) (auto simp: le_imp_less_Suc)
  moreover have "path' = dropWhile (\<lambda>c. c = slash) (dropWhile (\<lambda>c. c \<noteq> slash) p)"
    using a by (auto simp: skipelem_def Let_def p_def split: if_splits)
  then have "length path' \<le> length (dropWhile (\<lambda>c. c \<noteq> slash) p)" by (simp add: length_dropWhile_le)
  ultimately show ?thesis using p(1) by linarith
qed

function namex_loop :: "'a fs_state_scheme devsw \<Rightarrow> bool \<Rightarrow> nat \<Rightarrow> byte list \<Rightarrow> block \<Rightarrow> 'a fs_state_scheme \<Rightarrow>
    ((nat option \<times> block) \<times> 'a fs_state_scheme) res" where
  "namex_loop D parent ip path name s = (case skipelem path name of
     Some (path, name) \<Rightarrow>
       bnd (ilock ip s) (\<lambda>s.
       if i_type (inode_of s ip) \<noteq> T_DIR then bnd (iunlockput ip s) (\<lambda>s. Inr ((None, name), s))
       else if parent \<and> path = [] then bnd (iunlock ip s) (\<lambda>s. Inr ((Some ip, name), s))
       else bnd (dirlookup D ip name s) (\<lambda>(r, s). case r of
           None \<Rightarrow> bnd (iunlockput ip s) (\<lambda>s. Inr ((None, name), s))
         | Some (next, _) \<Rightarrow> bnd (iunlockput ip s) (namex_loop D parent next path name)))
   | None \<Rightarrow> if parent then bnd (iput ip s) (\<lambda>s. Inr ((None, name), s)) else Inr ((Some ip, name), s))"
  by pat_completeness auto
termination by (relation "measure (\<lambda>(_, _, _, path, _, _). length path)") (auto dest: skipelem_shorter)

declare namex_loop.simps [simp del]

definition namex :: "'a fs_state_scheme devsw \<Rightarrow> nat \<Rightarrow> byte list \<Rightarrow> bool \<Rightarrow> block \<Rightarrow> 'a fs_state_scheme \<Rightarrow>
    ((nat option \<times> block) \<times> 'a fs_state_scheme) res" where
  "namex D cwd path parent name s =
     bnd (if path \<noteq> [] \<and> hd path = slash then iget ROOTDEV ROOTINO s else Inr (cwd, idup cwd s)) (\<lambda>(ip, s).
       namex_loop D parent ip path name s)"

definition namei :: "'a fs_state_scheme devsw \<Rightarrow> nat \<Rightarrow> byte list \<Rightarrow> 'a fs_state_scheme \<Rightarrow> (nat option \<times> 'a fs_state_scheme) res" where
  "namei D cwd path s = bnd (namex D cwd path False zero_block s) (\<lambda>((r, _), s). Inr (r, s))"

definition nameiparent :: "'a fs_state_scheme devsw \<Rightarrow> nat \<Rightarrow> byte list \<Rightarrow> block \<Rightarrow> 'a fs_state_scheme \<Rightarrow>
    ((nat option \<times> block) \<times> 'a fs_state_scheme) res" where
  "nameiparent D cwd path name s = namex D cwd path True name s"

end
