(* ===== verification/Vm.thy ===== *)
theory Vm
  imports Kalloc
begin

text \<open>
  Page tables, \<^verbatim>\<open>vm.c\<close>. The tables are four levels of 512 eight-byte entries in pages of the allocator; the
  kernel reaches all physical memory at \<^verbatim>\<open>P2V\<close> of its address, so tables and user pages are parts of
  \<open>kmemory\<close>. A null pointer that the code would dereference is the fault \<open>OutOfBounds\<close>. The registers
  and the task state segment that \<^verbatim>\<open>switchuvm\<close> loads are fields of the state.
\<close>

unbundle bit_operations_syntax

section \<open>State\<close>

record vm = kmem +
  kend :: nat
  kpml4 :: nat
  kpdpt :: nat
  cr3 :: nat
  tss_rsp0 :: nat

abbreviation (input) PTE_P :: nat where "PTE_P \<equiv> 1"
abbreviation (input) PTE_W :: nat where "PTE_W \<equiv> 2"
abbreviation (input) PTE_U :: nat where "PTE_U \<equiv> 4"
abbreviation (input) PTE_PWT :: nat where "PTE_PWT \<equiv> 8"
abbreviation (input) PTE_PCD :: nat where "PTE_PCD \<equiv> 16"
abbreviation (input) PTE_PS :: nat where "PTE_PS \<equiv> 128"

definition PTE_ADDR :: "nat \<Rightarrow> nat" where
  "PTE_ADDR e = e div PGSIZE * PGSIZE"

definition PTE_FLAGS :: "nat \<Rightarrow> nat" where
  "PTE_FLAGS e = e mod PGSIZE"

definition PMX :: "nat \<Rightarrow> nat" where "PMX va = va div 2 ^ 39 mod 512"

definition PDPX :: "nat \<Rightarrow> nat" where "PDPX va = va div 2 ^ 30 mod 512"

definition PDX :: "nat \<Rightarrow> nat" where "PDX va = va div 2 ^ 21 mod 512"

definition PTX :: "nat \<Rightarrow> nat" where "PTX va = va div 2 ^ 12 mod 512"

definition ldq :: "nat \<Rightarrow> 'a kmem_scheme \<Rightarrow> nat" where
  "ldq a s = le_get 8 (kmemory s) a"

definition stq :: "nat \<Rightarrow> nat \<Rightarrow> 'a kmem_scheme \<Rightarrow> 'a kmem_scheme" where
  "stq a v s = s\<lparr>kmemory := le_put 8 v (kmemory s) a\<rparr>"

definition zero_page :: "nat \<Rightarrow> 'a kmem_scheme \<Rightarrow> 'a kmem_scheme" where
  "zero_page p s = s\<lparr>kmemory := memset p 0 PGSIZE (kmemory s)\<rparr>"

definition present :: "nat \<Rightarrow> bool" where
  "present e \<longleftrightarrow> e AND PTE_P \<noteq> 0"

section \<open>Kernel page tables\<close>

definition setupkvm :: "'a vm_scheme \<Rightarrow> (nat \<times> 'a vm_scheme) res" where
  "setupkvm s =
     (case kalloc s of (pml4, s) \<Rightarrow>
        if pml4 = 0 then Inl OutOfBounds
        else Inr (pml4, stq (pml4 + 8 * 256) (V2P (kpdpt s) OR PTE_P OR PTE_W) (zero_page pml4 s)))"

definition switchkvm :: "'a vm_scheme \<Rightarrow> 'a vm_scheme" where
  "switchkvm s = s\<lparr>cr3 := V2P (kpml4 s)\<rparr>"

definition kvmalloc :: "'a vm_scheme \<Rightarrow> 'a vm_scheme res" where
  "kvmalloc s =
     (case kalloc s of (pml4, s) \<Rightarrow>
        if pml4 = 0 then Inl OutOfBounds
        else case kalloc (zero_page pml4 (s\<lparr>kpml4 := pml4\<rparr>)) of (pdpt, s) \<Rightarrow>
          if pdpt = 0 then Inl OutOfBounds
          else let s = zero_page pdpt (s\<lparr>kpdpt := pdpt\<rparr>);
                   s = stq (kpml4 s + 8 * PMX KERNBASE) (V2P pdpt OR PTE_P OR PTE_W) s;
                   s = stq pdpt (PTE_PS OR PTE_P OR PTE_W) s;
                   s = stq (pdpt + 8 * 3) (0xC0000000 OR PTE_PS OR PTE_P OR PTE_W OR PTE_PWT OR PTE_PCD) s
               in Inr (switchkvm s))"

text \<open>\<^verbatim>\<open>switchuvm\<close> for a process with this page table and kernel stack.\<close>

definition switchuvm :: "nat \<Rightarrow> nat \<Rightarrow> 'a vm_scheme \<Rightarrow> 'a vm_scheme res" where
  "switchuvm pgdir kstack s =
     (if pgdir = 0 then Inl (Panic ''switchuvm: no pgdir'')
      else Inr (s\<lparr>tss_rsp0 := kstack + 4096, cr3 := V2P pgdir\<rparr>))"

section \<open>Walking and mapping\<close>

text \<open>One level of \<^verbatim>\<open>walkpgdir\<close>: the table that an entry refers to, allocated if wanted.\<close>

definition walk_level :: "nat \<Rightarrow> nat \<Rightarrow> bool \<Rightarrow> 'a kmem_scheme \<Rightarrow> nat option \<times> 'a kmem_scheme" where
  "walk_level tab i alloc s =
     (let e = ldq (tab + 8 * i) s in
      if present e then (Some (P2V (PTE_ADDR e)), s)
      else if \<not> alloc then (None, s)
      else case kalloc s of (p, s) \<Rightarrow>
        if p = 0 then (None, s)
        else (Some p, stq (tab + 8 * i) (V2P p OR PTE_P OR PTE_W OR PTE_U) (zero_page p s)))"

definition walkpgdir :: "nat \<Rightarrow> nat \<Rightarrow> bool \<Rightarrow> 'a kmem_scheme \<Rightarrow> nat option \<times> 'a kmem_scheme" where
  "walkpgdir pml4 va alloc s =
     (case walk_level pml4 (PMX va) alloc s of
        (None, s) \<Rightarrow> (None, s)
      | (Some pdp, s) \<Rightarrow> (case walk_level pdp (PDPX va) alloc s of
          (None, s) \<Rightarrow> (None, s)
        | (Some pd, s) \<Rightarrow> (case walk_level pd (PDX va) alloc s of
            (None, s) \<Rightarrow> (None, s)
          | (Some pgtab, s) \<Rightarrow> (Some (pgtab + 8 * PTX va), s))))"

text \<open>The loop of \<^verbatim>\<open>mappages\<close>; with \<^verbatim>\<open>lst\<close> below \<^verbatim>\<open>a\<close> (an empty range) it would run around the address space.\<close>

function mappages_loop :: "nat \<Rightarrow> nat \<Rightarrow> nat \<Rightarrow> nat \<Rightarrow> nat \<Rightarrow> 'a kmem_scheme \<Rightarrow> (int \<times> 'a kmem_scheme) res" where
  "mappages_loop pgdir a lst pa perm s =
     (case walkpgdir pgdir a True s of
        (None, s) \<Rightarrow> Inr (- 1, s)
      | (Some pte, s) \<Rightarrow>
          if present (ldq pte s) then Inl (Panic ''remap'')
          else let s = stq pte (pa OR perm OR PTE_P) s in
            if a = lst then Inr (0, s)
            else if lst < a then Inl Diverges
            else mappages_loop pgdir (a + PGSIZE) lst (pa + PGSIZE) perm s)"
  by pat_completeness auto
termination by (relation "measure (\<lambda>(_, a, lst, _, _, _). lst - a)") auto

declare mappages_loop.simps [simp del]

definition mappages :: "nat \<Rightarrow> nat \<Rightarrow> nat \<Rightarrow> nat \<Rightarrow> nat \<Rightarrow> 'a kmem_scheme \<Rightarrow> (int \<times> 'a kmem_scheme) res" where
  "mappages pgdir va sz pa perm s = mappages_loop pgdir (PGROUNDDOWN va) (PGROUNDDOWN (va + sz - 1)) pa perm s"

definition inituvm :: "nat \<Rightarrow> byte list \<Rightarrow> 'a vm_scheme \<Rightarrow> 'a vm_scheme res" where
  "inituvm pgdir init s =
     (if length init \<ge> PGSIZE then Inl (Panic ''inituvm: more than a page'')
      else case kalloc s of (m, s) \<Rightarrow>
        if m = 0 then Inl OutOfBounds
        else bnd (mappages pgdir PGSIZE PGSIZE (V2P m) (PTE_W OR PTE_U) (zero_page m s)) (\<lambda>(_, s).
          Inr (s\<lparr>kmemory := memcopy (kmemory s) m (\<lambda>i. init ! i) 0 (length init)\<rparr>)))"

section \<open>User memory\<close>

function deallocuvm_loop :: "nat \<Rightarrow> nat \<Rightarrow> nat \<Rightarrow> 'a vm_scheme \<Rightarrow> 'a vm_scheme res" where
  "deallocuvm_loop pgdir a oldsz s =
     (if a < oldsz then
        case walkpgdir pgdir a False s of (pte, s) \<Rightarrow>
          bnd (case pte of
                 None \<Rightarrow> Inr s
               | Some pte \<Rightarrow>
                   if present (ldq pte s) then
                     let pa = PTE_ADDR (ldq pte s) in
                     if pa = 0 then Inl (Panic ''kfree'')
                     else bnd (kfree (kend s) (P2V pa) s) (\<lambda>s. Inr (stq pte 0 s))
                   else Inr s) (deallocuvm_loop pgdir (a + PGSIZE) oldsz)
      else Inr s)"
  by pat_completeness auto
termination by (relation "measure (\<lambda>(_, a, oldsz, _). oldsz - a)") auto

declare deallocuvm_loop.simps [simp del]

definition deallocuvm :: "nat \<Rightarrow> nat \<Rightarrow> nat \<Rightarrow> 'a vm_scheme \<Rightarrow> (nat \<times> 'a vm_scheme) res" where
  "deallocuvm pgdir oldsz newsz s =
     (if newsz \<ge> oldsz then Inr (oldsz, s)
      else bnd (deallocuvm_loop pgdir (PGROUNDUP newsz) oldsz s) (\<lambda>s. Inr (newsz, s)))"

function allocuvm_loop :: "nat \<Rightarrow> nat \<Rightarrow> nat \<Rightarrow> nat \<Rightarrow> 'a vm_scheme \<Rightarrow> (nat \<times> 'a vm_scheme) res" where
  "allocuvm_loop pgdir a oldsz newsz s =
     (if a < newsz then
        case kalloc s of (m, s) \<Rightarrow>
          if m = 0 then bnd (deallocuvm pgdir newsz oldsz s) (\<lambda>(_, s). Inr (0, s))
          else bnd (mappages pgdir a PGSIZE (V2P m) (PTE_W OR PTE_U) (zero_page m s)) (\<lambda>(r, s).
            if r < 0 then
              bnd (deallocuvm pgdir newsz oldsz s) (\<lambda>(_, s).
              bnd (kfree (kend s) m s) (\<lambda>s. Inr (0, s)))
            else allocuvm_loop pgdir (a + PGSIZE) oldsz newsz s)
      else Inr (newsz, s))"
  by pat_completeness auto
termination by (relation "measure (\<lambda>(_, a, _, newsz, _). newsz - a)") auto

declare allocuvm_loop.simps [simp del]

definition allocuvm :: "nat \<Rightarrow> nat \<Rightarrow> nat \<Rightarrow> 'a vm_scheme \<Rightarrow> (nat \<times> 'a vm_scheme) res" where
  "allocuvm pgdir oldsz newsz s =
     (if newsz \<ge> KERNBASE then Inr (0, s)
      else if newsz < oldsz then Inr (oldsz, s)
      else allocuvm_loop pgdir (PGROUNDUP oldsz) oldsz newsz s)"

text \<open>\<^verbatim>\<open>freevm\<close>: the loop over the first \<open>n\<close> entries of a table, with what is done to each table below it.\<close>

definition free_entries :: "nat \<Rightarrow> nat \<Rightarrow> (nat \<Rightarrow> 'a vm_scheme \<Rightarrow> 'a vm_scheme res) \<Rightarrow> 'a vm_scheme \<Rightarrow> 'a vm_scheme res" where
  "free_entries tab n f s =
     rfold (\<lambda>i s. let e = ldq (tab + 8 * i) s in
         if present e then bnd (f (P2V (PTE_ADDR e)) s) (\<lambda>s. kfree (kend s) (P2V (PTE_ADDR e)) s) else Inr s) [0..<n] s"

definition freevm :: "nat \<Rightarrow> 'a vm_scheme \<Rightarrow> 'a vm_scheme res" where
  "freevm pml4 s =
     (if pml4 = 0 then Inl (Panic ''freevm: no pgdir'')
      else bnd (free_entries pml4 256 (\<lambda>pdp. free_entries pdp 512 (\<lambda>pd. free_entries pd 512 (\<lambda>pt. free_entries pt 512 (\<lambda>_. Inr)))) s) (\<lambda>s.
        kfree (kend s) pml4 s))"

definition clearpteu :: "nat \<Rightarrow> nat \<Rightarrow> 'a vm_scheme \<Rightarrow> 'a vm_scheme res" where
  "clearpteu pgdir uva s =
     (case walkpgdir pgdir uva False s of
        (None, s) \<Rightarrow> Inl (Panic ''clearpteu'')
      | (Some pte, s) \<Rightarrow> Inr (stq pte (ldq pte s - (ldq pte s AND PTE_U)) s))"

function copyuvm_loop :: "nat \<Rightarrow> nat \<Rightarrow> nat \<Rightarrow> nat \<Rightarrow> 'a vm_scheme \<Rightarrow> (nat \<times> 'a vm_scheme) res" where
  "copyuvm_loop pgdir d i sz s =
     (if i < sz then
        case walkpgdir pgdir i False s of
          (None, s) \<Rightarrow> Inl (Panic ''copyuvm: pte should exist'')
        | (Some pte, s) \<Rightarrow>
            let e = ldq pte s in
            if \<not> present e then Inl (Panic ''copyuvm: page not present'')
            else case kalloc s of (m, s) \<Rightarrow>
              if m = 0 then bnd (freevm d s) (\<lambda>s. Inr (0, s))
              else let s = s\<lparr>kmemory := memmove m (P2V (PTE_ADDR e)) PGSIZE (kmemory s)\<rparr> in
                bnd (mappages d i PGSIZE (V2P m) (PTE_FLAGS e) s) (\<lambda>(r, s).
                  if r < 0 then bnd (freevm d s) (\<lambda>s. Inr (0, s))
                  else copyuvm_loop pgdir d (i + PGSIZE) sz s)
      else Inr (d, s))"
  by pat_completeness auto
termination by (relation "measure (\<lambda>(_, _, i, sz, _). sz - i)") auto

declare copyuvm_loop.simps [simp del]

text \<open>The size is a parameter of type \<^verbatim>\<open>uint\<close>.\<close>

definition copyuvm :: "nat \<Rightarrow> nat \<Rightarrow> 'a vm_scheme \<Rightarrow> (nat \<times> 'a vm_scheme) res" where
  "copyuvm pgdir sz s = bnd (setupkvm s) (\<lambda>(d, s). copyuvm_loop pgdir d PGSIZE (u32 sz) s)"

definition uva2ka :: "nat \<Rightarrow> nat \<Rightarrow> 'a kmem_scheme \<Rightarrow> nat res" where
  "uva2ka pgdir uva s =
     (case fst (walkpgdir pgdir uva False s) of
        None \<Rightarrow> Inl OutOfBounds
      | Some pte \<Rightarrow> let e = ldq pte s in
          if \<not> present e then Inr 0 else if e AND PTE_U = 0 then Inr 0 else Inr (P2V (PTE_ADDR e)))"

function copyout :: "nat \<Rightarrow> nat \<Rightarrow> byte list \<Rightarrow> 'a kmem_scheme \<Rightarrow> (int \<times> 'a kmem_scheme) res" where
  "copyout pgdir va buf s =
     (if buf = [] then Inr (0, s)
      else let va0 = PGROUNDDOWN va in
        bnd (uva2ka pgdir va0 s) (\<lambda>pa0.
          if pa0 = 0 then Inr (- 1, s)
          else let n = min (PGSIZE - (va - va0)) (length buf) in
            copyout pgdir (va0 + PGSIZE) (drop n buf) (s\<lparr>kmemory := memcopy (kmemory s) (pa0 + (va - va0)) (\<lambda>i. buf ! i) 0 n\<rparr>)))"
  by pat_completeness auto
termination
proof (relation "measure (\<lambda>(_, _, buf, _). length buf)")
  have "va - va div PGSIZE * PGSIZE < PGSIZE" for va :: nat by (simp add: minus_div_mult_eq_mod)
  then show "\<And>pgdir va buf (s :: 'a kmem_scheme) x xa xb.
       buf \<noteq> [] \<Longrightarrow> x = PGROUNDDOWN va \<Longrightarrow> uva2ka pgdir x s = Inr xa \<Longrightarrow> xa \<noteq> 0 \<Longrightarrow>
       xb = min (PGSIZE - (va - x)) (length buf) \<Longrightarrow>
       ((pgdir, x + PGSIZE, drop xb buf, s\<lparr>kmemory := memcopy (kmemory s) (xa + (va - x)) ((!) buf) 0 xb\<rparr>), pgdir, va, buf, s)
       \<in> measure (\<lambda>(_, _, buf, _). length buf)"
    by (auto simp: PGROUNDDOWN_def)
qed simp

declare copyout.simps [simp del]

end
