(* ===== verification/File.thy ===== *)
theory File
  imports Fs Pipe Vm
begin

text \<open>
  Open files, \<^verbatim>\<open>file.c\<close>, and the part of \<^verbatim>\<open>pipe.c\<close> that works on them. The state extends the one of the
  file system by the file table, the pipes (by the address of their page) and the memory of the kernel.
  A file pointer is its index in the table.
\<close>

section \<open>State\<close>

datatype fdtype = FD_NONE | FD_PIPE | FD_INODE

record ofile =
  f_type :: fdtype
  f_ref :: int
  f_readable :: bool
  f_writable :: bool
  f_pipe :: nat
  f_ip :: nat
  f_off :: nat

record kern = fs_state +
  ftable :: "nat \<Rightarrow> ofile"
  pipes :: "nat \<Rightarrow> pipe"
  kvm :: vm

definition upd_file :: "nat \<Rightarrow> (ofile \<Rightarrow> ofile) \<Rightarrow> 'a kern_scheme \<Rightarrow> 'a kern_scheme" where
  "upd_file f g s = s\<lparr>ftable := (ftable s)(f := g (ftable s f))\<rparr>"

text \<open>Running an operation on the memory of the kernel.\<close>

definition on_vm :: "(vm \<Rightarrow> vm res) \<Rightarrow> 'a kern_scheme \<Rightarrow> 'a kern_scheme res" where
  "on_vm f s = bnd (f (kvm s)) (\<lambda>v. Inr (s\<lparr>kvm := v\<rparr>))"

definition on_vm_val :: "(vm \<Rightarrow> ('r \<times> vm) res) \<Rightarrow> 'a kern_scheme \<Rightarrow> ('r \<times> 'a kern_scheme) res" where
  "on_vm_val f s = bnd (f (kvm s)) (\<lambda>(r, v). Inr (r, s\<lparr>kvm := v\<rparr>))"

section \<open>The file table\<close>

definition filealloc :: "'a kern_scheme \<Rightarrow> nat option \<times> 'a kern_scheme" where
  "filealloc s =
     (case List.find (\<lambda>f. f_ref (ftable s f) = 0) [0..<NFILE] of
        Some f \<Rightarrow> (Some f, upd_file f (\<lambda>x. x\<lparr>f_ref := 1\<rparr>) s)
      | None \<Rightarrow> (None, s))"

definition filedup :: "nat \<Rightarrow> 'a kern_scheme \<Rightarrow> 'a kern_scheme res" where
  "filedup f s =
     (if f_ref (ftable s f) < 1 then Inl (Panic ''filedup'')
      else Inr (upd_file f (\<lambda>x. x\<lparr>f_ref := f_ref x + 1\<rparr>) s))"

text \<open>\<^verbatim>\<open>pipeclose\<close> on the pipe at address \<open>p\<close>.\<close>

definition pipe_close :: "nat \<Rightarrow> bool \<Rightarrow> 'a kern_scheme \<Rightarrow> 'a kern_scheme res" where
  "pipe_close p writable s =
     (case pipeclose writable (pipes s p) of (unused, q) \<Rightarrow>
        let s = s\<lparr>pipes := (pipes s)(p := q)\<rparr> in
        if unused then on_vm (\<lambda>v. kfree (kend v) p v) s else Inr s)"

definition fileclose :: "nat \<Rightarrow> 'a kern_scheme \<Rightarrow> 'a kern_scheme res" where
  "fileclose f s =
     (if f_ref (ftable s f) < 1 then Inl (Panic ''fileclose'')
      else let s = upd_file f (\<lambda>x. x\<lparr>f_ref := f_ref x - 1\<rparr>) s in
        if f_ref (ftable s f) > 0 then Inr s
        else let ff = ftable s f; s = upd_file f (\<lambda>x. x\<lparr>f_ref := 0, f_type := FD_NONE\<rparr>) s in
          case f_type ff of
            FD_PIPE \<Rightarrow> pipe_close (f_pipe ff) (f_writable ff) s
          | FD_INODE \<Rightarrow> bnd (begin_op s) (\<lambda>s. bnd (iput (f_ip ff) s) end_op)
          | FD_NONE \<Rightarrow> Inr s)"

definition filestat :: "nat \<Rightarrow> 'a kern_scheme \<Rightarrow> (stat option \<times> 'a kern_scheme) res" where
  "filestat f s =
     (if f_type (ftable s f) = FD_INODE then
        let ip = f_ip (ftable s f) in
        bnd (ilock ip s) (\<lambda>s. bnd (iunlock ip s) (\<lambda>s'. Inr (Some (stati ip s), s')))
      else Inr (None, s))"

text \<open>The result of \<^verbatim>\<open>fileread\<close> with the bytes stored at \<^verbatim>\<open>addr\<close>. A reader of an empty pipe sleeps.\<close>

definition fileread :: "'a kern_scheme devsw \<Rightarrow> bool \<Rightarrow> nat \<Rightarrow> int \<Rightarrow> 'a kern_scheme \<Rightarrow> ((int \<times> byte list) \<times> 'a kern_scheme) res" where
  "fileread D killed f n s =
     (let ff = ftable s f in
      if \<not> f_readable ff then Inr ((- 1, []), s)
      else case f_type ff of
        FD_PIPE \<Rightarrow> (case piperead killed n (pipes s (f_pipe ff)) of
            (Done r, q) \<Rightarrow> Inr (r, s\<lparr>pipes := (pipes s)(f_pipe ff := q)\<rparr>)
          | (Wait _, _) \<Rightarrow> Inl Sleeps)
      | FD_INODE \<Rightarrow>
          bnd (ilock (f_ip ff) s) (\<lambda>s.
          bnd (readi D (f_ip ff) (f_off ff) (nat (n mod 2 ^ 32)) s) (\<lambda>((r, bytes), s).
            let s = (if r > 0 then upd_file f (\<lambda>x. x\<lparr>f_off := u32 (f_off x + nat r)\<rparr>) s else s) in
            bnd (iunlock (f_ip ff) s) (\<lambda>s. Inr ((r, bytes), s))))
      | FD_NONE \<Rightarrow> Inl (Panic ''fileread''))"

text \<open>The bytes one operation may write: \<^verbatim>\<open>((LOGSIZE-1-1-2) / 2) * 512\<close>.\<close>

definition write_max :: nat where
  "write_max = (LOGSIZE - 1 - 1 - 2) div 2 * 512"

function filewrite_loop :: "'a kern_scheme devsw \<Rightarrow> nat \<Rightarrow> (nat \<Rightarrow> byte) \<Rightarrow> nat \<Rightarrow> nat \<Rightarrow> 'a kern_scheme \<Rightarrow> (nat \<times> 'a kern_scheme) res" where
  "filewrite_loop D f addr n i s =
     (if i < n then
        let n1 = min (n - i) write_max; ip = f_ip (ftable s f) in
        bnd (begin_op s) (\<lambda>s.
        bnd (ilock ip s) (\<lambda>s.
        bnd (writei D ip (f_off (ftable s f)) (map addr [i..<i + n1]) s) (\<lambda>(r, s).
          let s = (if r > 0 then upd_file f (\<lambda>x. x\<lparr>f_off := u32 (f_off x + nat r)\<rparr>) s else s) in
          bnd (iunlock ip s) (\<lambda>s.
          bnd (end_op s) (\<lambda>s.
            if r < 0 then Inr (i, s)
            else if r \<noteq> int n1 then Inl (Panic ''short filewrite'')
            else filewrite_loop D f addr n (i + n1) s)))))
      else Inr (i, s))"
  by pat_completeness auto
termination by (relation "measure (\<lambda>(_, _, _, n, i, _). n - i)") (auto simp: write_max_def)

declare filewrite_loop.simps [simp del]

definition filewrite :: "'a kern_scheme devsw \<Rightarrow> bool \<Rightarrow> nat \<Rightarrow> (nat \<Rightarrow> byte) \<Rightarrow> int \<Rightarrow> 'a kern_scheme \<Rightarrow> (int turn \<times> 'a kern_scheme) res" where
  "filewrite D killed f addr n s =
     (let ff = ftable s f in
      if \<not> f_writable ff then Inr (Done (- 1), s)
      else case f_type ff of
        FD_PIPE \<Rightarrow> (case pipewrite killed addr n (pipes s (f_pipe ff)) of
            (r, q) \<Rightarrow> Inr (r, s\<lparr>pipes := (pipes s)(f_pipe ff := q)\<rparr>))
      | FD_INODE \<Rightarrow> bnd (filewrite_loop D f addr (nat n) 0 s) (\<lambda>(i, s). Inr (Done (if int i = n then n else - 1), s))
      | FD_NONE \<Rightarrow> Inl (Panic ''filewrite''))"

section \<open>New pipes\<close>

text \<open>\<^verbatim>\<open>pipealloc\<close>: the two files, or failure after what was allocated has been released.\<close>

definition pipealloc :: "'a kern_scheme \<Rightarrow> ((nat \<times> nat) option \<times> 'a kern_scheme) res" where
  "pipealloc s =
     (case filealloc s of
        (None, s) \<Rightarrow> Inr (None, s)
      | (Some f0, s) \<Rightarrow> (case filealloc s of
          (None, s) \<Rightarrow> bnd (fileclose f0 s) (\<lambda>s. Inr (None, s))
        | (Some f1, s) \<Rightarrow> (case kalloc (kvm s) of (p, v) \<Rightarrow>
            let s = s\<lparr>kvm := v\<rparr> in
            if p = 0 then bnd (fileclose f0 s) (\<lambda>s. bnd (fileclose f1 s) (\<lambda>s. Inr (None, s)))
            else let s = s\<lparr>pipes := (pipes s)(p := pipe_init (p_data (pipes s p)))\<rparr>;
                     s = upd_file f0 (\<lambda>x. x\<lparr>f_type := FD_PIPE, f_readable := True, f_writable := False, f_pipe := p\<rparr>) s;
                     s = upd_file f1 (\<lambda>x. x\<lparr>f_type := FD_PIPE, f_readable := False, f_writable := True, f_pipe := p\<rparr>) s
                 in Inr (Some (f0, f1), s))))"

end
