(* ===== verification/Proc.thy ===== *)
theory Proc
  imports Prelude
begin

text \<open>
  The process table of \<^verbatim>\<open>proc.c\<close>: process states, parents, sleeping and waking. Every function here runs
  under \<^verbatim>\<open>ptable.lock\<close> and is one step. A process pointer is its index in \<^verbatim>\<open>ptable.proc\<close>. Process identifiers
  are unbounded integers: the wrap-around of \<^verbatim>\<open>nextpid\<close> after 2147483647 forks is not modelled. The
  resources that \<^verbatim>\<open>fork\<close>, \<^verbatim>\<open>exit\<close> and \<^verbatim>\<open>wait\<close> handle besides are those of theory \<open>Kproc\<close>.
\<close>

section \<open>State\<close>

datatype procstate = UNUSED | EMBRYO | SLEEPING | RUNNABLE | RUNNING | ZOMBIE

text \<open>Wait channels: the addresses of processes, of \<^verbatim>\<open>ticks\<close>, and others.\<close>

datatype chan = ProcChan nat | TicksChan | AddrChan nat

record trapframe =
  tf_rax :: nat
  tf_rcx :: nat
  tf_rdx :: nat
  tf_rsi :: nat
  tf_rdi :: nat
  tf_r8 :: nat
  tf_r9 :: nat
  tf_r10 :: nat
  tf_r11 :: nat
  tf_rip :: nat
  tf_cs :: nat
  tf_rsp :: nat
  tf_trapno :: nat

record proc =
  p_sz :: nat
  p_pgdir :: nat
  p_kstack :: nat
  p_state :: procstate
  p_pid :: int
  p_parent :: "nat option"
  p_tf :: trapframe
  p_chan :: "chan option"
  p_killed :: bool
  p_ofile :: "nat \<Rightarrow> nat option"
  p_cwd :: "nat option"
  p_name :: "byte list"

record ptab =
  procs :: "nat \<Rightarrow> proc"
  nextpid :: int
  initproc :: "nat option"

definition upd_proc :: "nat \<Rightarrow> (proc \<Rightarrow> proc) \<Rightarrow> ptab \<Rightarrow> ptab" where
  "upd_proc p f t = t\<lparr>procs := (procs t)(p := f (procs t p))\<rparr>"

lemma upd_proc_simps [simp]:
  "procs (upd_proc p f t) q = (if q = p then f (procs t p) else procs t q)"
  "nextpid (upd_proc p f t) = nextpid t" "initproc (upd_proc p f t) = initproc t"
  by (simp_all add: upd_proc_def)

section \<open>Operations\<close>

text \<open>The part of \<^verbatim>\<open>allocproc\<close> under the lock.\<close>

definition alloc_slot :: "ptab \<Rightarrow> nat option \<times> ptab" where
  "alloc_slot t =
     (case List.find (\<lambda>p. p_state (procs t p) = UNUSED) [0..<NPROC] of
        None \<Rightarrow> (None, t)
      | Some p \<Rightarrow> (Some p, upd_proc p (\<lambda>x. x\<lparr>p_state := EMBRYO, p_pid := nextpid t\<rparr>) t\<lparr>nextpid := nextpid t + 1\<rparr>))"

definition wakeup1 :: "chan \<Rightarrow> ptab \<Rightarrow> ptab" where
  "wakeup1 ch t =
     fold (\<lambda>p t. if p_state (procs t p) = SLEEPING \<and> p_chan (procs t p) = Some ch
                 then upd_proc p (\<lambda>x. x\<lparr>p_state := RUNNABLE\<rparr>) t else t) [0..<NPROC] t"

definition wakeup :: "chan \<Rightarrow> ptab \<Rightarrow> ptab" where
  "wakeup ch t = wakeup1 ch t"

definition kill :: "int \<Rightarrow> ptab \<Rightarrow> int \<times> ptab" where
  "kill pid t =
     (case List.find (\<lambda>p. p_pid (procs t p) = pid) [0..<NPROC] of
        Some p \<Rightarrow> (0, upd_proc p (\<lambda>x. x\<lparr>p_killed := True,
            p_state := (if p_state x = SLEEPING then RUNNABLE else p_state x)\<rparr>) t)
      | None \<Rightarrow> (- 1, t))"

text \<open>The body of the loop in \<^verbatim>\<open>exit\<close> that passes children to init, and the part of \<^verbatim>\<open>exit\<close> under the lock.\<close>

definition pass_child :: "nat \<Rightarrow> nat \<Rightarrow> ptab \<Rightarrow> ptab" where
  "pass_child c i t =
     (if p_parent (procs t i) = Some c then
        let t = upd_proc i (\<lambda>x. x\<lparr>p_parent := initproc t\<rparr>) t in
        if p_state (procs t i) = ZOMBIE then (case initproc t of Some q \<Rightarrow> wakeup1 (ProcChan q) t | None \<Rightarrow> t) else t
      else t)"

definition exit_table :: "nat \<Rightarrow> ptab \<Rightarrow> ptab" where
  "exit_table c t =
     (let t = (case p_parent (procs t c) of Some p \<Rightarrow> wakeup1 (ProcChan p) t | None \<Rightarrow> t);
          t = fold (pass_child c) [0..<NPROC] t
      in upd_proc c (\<lambda>x. x\<lparr>p_state := ZOMBIE\<rparr>) t)"

text \<open>One scan of \<^verbatim>\<open>wait\<close>: the exited child found, whether there are children, and the reset of its slot.\<close>

definition find_zombie :: "nat \<Rightarrow> ptab \<Rightarrow> nat option" where
  "find_zombie c t = List.find (\<lambda>p. p_parent (procs t p) = Some c \<and> p_state (procs t p) = ZOMBIE) [0..<NPROC]"

definition havekids :: "nat \<Rightarrow> ptab \<Rightarrow> bool" where
  "havekids c t \<longleftrightarrow> list_ex (\<lambda>p. p_parent (procs t p) = Some c) [0..<NPROC]"

definition reap :: "nat \<Rightarrow> ptab \<Rightarrow> ptab" where
  "reap p t = upd_proc p (\<lambda>x. x\<lparr>p_kstack := 0, p_pid := 0, p_parent := None,
     p_name := (case p_name x of [] \<Rightarrow> [] | _ # cs \<Rightarrow> 0 # cs), p_killed := False, p_state := UNUSED\<rparr>) t"

text \<open>The state change of \<^verbatim>\<open>sleep\<close> before it calls the scheduler, and after it returns.\<close>

definition go_to_sleep :: "chan \<Rightarrow> nat \<Rightarrow> ptab \<Rightarrow> ptab" where
  "go_to_sleep ch c t = upd_proc c (\<lambda>x. x\<lparr>p_chan := Some ch, p_state := SLEEPING\<rparr>) t"

definition woken :: "nat \<Rightarrow> ptab \<Rightarrow> ptab" where
  "woken c t = upd_proc c (\<lambda>x. x\<lparr>p_chan := None\<rparr>) t"

datatype wait_result = Reaped int nat | NoChild | MustSleep

definition wait_table :: "nat \<Rightarrow> ptab \<Rightarrow> wait_result \<times> ptab" where
  "wait_table c t =
     (case find_zombie c t of
        Some p \<Rightarrow> (Reaped (p_pid (procs t p)) p, reap p t)
      | None \<Rightarrow> if \<not> havekids c t \<or> p_killed (procs t c) then (NoChild, t) else (MustSleep, go_to_sleep (ProcChan c) c t))"

definition yield_table :: "nat \<Rightarrow> ptab \<Rightarrow> ptab" where
  "yield_table c t = upd_proc c (\<lambda>x. x\<lparr>p_state := RUNNABLE\<rparr>) t"

text \<open>The tests of \<^verbatim>\<open>sched\<close>: who holds \<^verbatim>\<open>ptable.lock\<close>, the \<^verbatim>\<open>pushcli\<close> depth and the interrupt flag.\<close>

definition sched_check :: "bool \<Rightarrow> int \<Rightarrow> bool \<Rightarrow> nat \<Rightarrow> ptab \<Rightarrow> unit res" where
  "sched_check holding_lock ncli intr c t =
     (if \<not> holding_lock then Inl (Panic ''sched ptable.lock'')
      else if ncli \<noteq> 1 then Inl (Panic ''sched locks'')
      else if p_state (procs t c) = RUNNING then Inl (Panic ''sched running'')
      else if intr then Inl (Panic ''sched interruptible'')
      else Inr ())"

text \<open>One pass of the scheduler over the table; \<open>run p\<close> is what process \<open>p\<close> does until it calls \<^verbatim>\<open>sched\<close>. The
  first component is the list of processes that were run.\<close>

fun scheduler_pass :: "(nat \<Rightarrow> ptab \<Rightarrow> ptab) \<Rightarrow> nat list \<Rightarrow> ptab \<Rightarrow> nat list \<times> ptab" where
  "scheduler_pass run [] t = ([], t)"
| "scheduler_pass run (p # ps) t =
     (if p_state (procs t p) \<noteq> RUNNABLE then scheduler_pass run ps t
      else let t = run p (upd_proc p (\<lambda>x. x\<lparr>p_state := RUNNING\<rparr>) t);
               (ran, t) = scheduler_pass run ps t
           in (p # ran, t))"

definition scheduler :: "(nat \<Rightarrow> ptab \<Rightarrow> ptab) \<Rightarrow> ptab \<Rightarrow> nat list \<times> ptab" where
  "scheduler run t = scheduler_pass run [0..<NPROC] t"

text \<open>The line \<^verbatim>\<open>procdump\<close> prints for a process, without the call stack.\<close>

definition state_name :: "procstate \<Rightarrow> string" where
  "state_name st = (case st of UNUSED \<Rightarrow> ''unused'' | EMBRYO \<Rightarrow> ''embryo'' | SLEEPING \<Rightarrow> ''sleep ''
     | RUNNABLE \<Rightarrow> ''runble'' | RUNNING \<Rightarrow> ''run   '' | ZOMBIE \<Rightarrow> ''zombie'')"

definition procdump :: "ptab \<Rightarrow> (int \<times> string \<times> byte list) list" where
  "procdump t = map (\<lambda>p. (p_pid (procs t p), state_name (p_state (procs t p)), p_name (procs t p)))
     (filter (\<lambda>p. p_state (procs t p) \<noteq> UNUSED) [0..<NPROC])"

section \<open>Effect of the loops\<close>

definition wake_if :: "chan \<Rightarrow> proc \<Rightarrow> proc" where
  "wake_if ch x = (if p_state x = SLEEPING \<and> p_chan x = Some ch then x\<lparr>p_state := RUNNABLE\<rparr> else x)"

lemma wake_if_simps [simp]:
  "p_parent (wake_if ch x) = p_parent x" "p_pid (wake_if ch x) = p_pid x" "p_chan (wake_if ch x) = p_chan x"
  "p_state (wake_if ch x) = ZOMBIE \<longleftrightarrow> p_state x = ZOMBIE" "p_state (wake_if ch x) = UNUSED \<longleftrightarrow> p_state x = UNUSED"
  "p_state (wake_if ch x) = EMBRYO \<longleftrightarrow> p_state x = EMBRYO" "p_state (wake_if ch x) = RUNNING \<longleftrightarrow> p_state x = RUNNING"
  "p_state (wake_if ch x) = SLEEPING \<longleftrightarrow> p_state x = SLEEPING \<and> p_chan x \<noteq> Some ch"
  by (auto simp: wake_if_def)

lemma wakeup1_eq:
  "procs (wakeup1 ch t) q = (if q < NPROC then wake_if ch (procs t q) else procs t q)"
  "nextpid (wakeup1 ch t) = nextpid t" "initproc (wakeup1 ch t) = initproc t"
proof -
  let ?f = "\<lambda>p t. if p_state (procs t p) = SLEEPING \<and> p_chan (procs t p) = Some ch then upd_proc p (\<lambda>x. x\<lparr>p_state := RUNNABLE\<rparr>) t else t"
  have "procs (fold ?f [0..<n] t) q = (if q < n then wake_if ch (procs t q) else procs t q) \<and>
      nextpid (fold ?f [0..<n] t) = nextpid t \<and> initproc (fold ?f [0..<n] t) = initproc t" for n
    by (induction n) (auto simp: wake_if_def less_Suc_eq)
  then show "procs (wakeup1 ch t) q = (if q < NPROC then wake_if ch (procs t q) else procs t q)"
    "nextpid (wakeup1 ch t) = nextpid t" "initproc (wakeup1 ch t) = initproc t"
    by (simp_all add: wakeup1_def)
qed

section \<open>Invariant\<close>

text \<open>Processes are in the table, init exists and is alive, every process but init has a parent that can still
  wait for it, identifiers are unique, and nobody sleeps in \<^verbatim>\<open>wait\<close> while it has an exited child.\<close>

definition alive :: "ptab \<Rightarrow> nat \<Rightarrow> bool" where
  "alive t p \<longleftrightarrow> p < NPROC \<and> p_state (procs t p) \<in> {SLEEPING, RUNNABLE, RUNNING}"

definition started :: "ptab \<Rightarrow> nat \<Rightarrow> bool" where
  "started t p \<longleftrightarrow> p < NPROC \<and> p_state (procs t p) \<notin> {UNUSED, EMBRYO}"

definition parents_ok :: "ptab \<Rightarrow> bool" where
  "parents_ok t \<longleftrightarrow> (\<forall>q. started t q \<and> Some q \<noteq> initproc t \<longrightarrow> (\<exists>p. p_parent (procs t q) = Some p \<and> p \<noteq> q \<and> alive t p))"

definition init_ok :: "ptab \<Rightarrow> bool" where
  "init_ok t \<longleftrightarrow> (\<exists>q. initproc t = Some q \<and> alive t q)"

definition no_lost_wakeup :: "ptab \<Rightarrow> bool" where
  "no_lost_wakeup t \<longleftrightarrow> (\<forall>p q. p < NPROC \<and> q < NPROC \<and> p_state (procs t p) = SLEEPING \<and> p_chan (procs t p) = Some (ProcChan p) \<longrightarrow>
     \<not> (p_parent (procs t q) = Some p \<and> p_state (procs t q) = ZOMBIE))"

definition pids_ok :: "ptab \<Rightarrow> bool" where
  "pids_ok t \<longleftrightarrow> (\<forall>p<NPROC. p_state (procs t p) \<noteq> UNUSED \<longrightarrow> 0 < p_pid (procs t p) \<and> p_pid (procs t p) < nextpid t) \<and>
     (\<forall>p<NPROC. \<forall>q<NPROC. p_state (procs t p) \<noteq> UNUSED \<and> p_state (procs t q) \<noteq> UNUSED \<and> p_pid (procs t p) = p_pid (procs t q) \<longrightarrow> p = q) \<and>
     0 < nextpid t"

definition table_ok :: "ptab \<Rightarrow> bool" where
  "table_ok t \<longleftrightarrow> init_ok t \<and> parents_ok t \<and> no_lost_wakeup t \<and> pids_ok t"

lemmas table_ok_defs = table_ok_def init_ok_def parents_ok_def no_lost_wakeup_def pids_ok_def alive_def started_def

text \<open>Steps that at most wake processes, or change the state of a live process to one in which it does not sleep.\<close>

definition only_wakes :: "ptab \<Rightarrow> ptab \<Rightarrow> bool" where
  "only_wakes t t' \<longleftrightarrow> nextpid t' = nextpid t \<and> initproc t' = initproc t \<and>
     (\<forall>p. p_parent (procs t' p) = p_parent (procs t p) \<and> p_pid (procs t' p) = p_pid (procs t p) \<and>
       (p_state (procs t' p) = p_state (procs t p) \<and> (p_state (procs t p) = SLEEPING \<longrightarrow> p_chan (procs t' p) = p_chan (procs t p)) \<or>
        p_state (procs t p) \<in> {SLEEPING, RUNNABLE, RUNNING} \<and> p_state (procs t' p) \<in> {RUNNABLE, RUNNING}))"

lemma only_wakesD:
  assumes "only_wakes t t'"
  shows "nextpid t' = nextpid t" "initproc t' = initproc t" "p_parent (procs t' p) = p_parent (procs t p)" "p_pid (procs t' p) = p_pid (procs t p)"
    "alive t' p = alive t p" "started t' p = started t p"
    "p_state (procs t' p) = UNUSED \<longleftrightarrow> p_state (procs t p) = UNUSED" "p_state (procs t' p) = ZOMBIE \<longleftrightarrow> p_state (procs t p) = ZOMBIE"
    "p_state (procs t' p) = SLEEPING \<Longrightarrow> p_state (procs t p) = SLEEPING \<and> p_chan (procs t' p) = p_chan (procs t p)"
proof -
  have w: "p_parent (procs t' p) = p_parent (procs t p) \<and> p_pid (procs t' p) = p_pid (procs t p) \<and>
       (p_state (procs t' p) = p_state (procs t p) \<and> (p_state (procs t p) = SLEEPING \<longrightarrow> p_chan (procs t' p) = p_chan (procs t p)) \<or>
        p_state (procs t p) \<in> {SLEEPING, RUNNABLE, RUNNING} \<and> p_state (procs t' p) \<in> {RUNNABLE, RUNNING})"
    using assms unfolding only_wakes_def by blast
  show "nextpid t' = nextpid t" "initproc t' = initproc t" using assms unfolding only_wakes_def by blast+
  show "p_parent (procs t' p) = p_parent (procs t p)" "p_pid (procs t' p) = p_pid (procs t p)" using w by blast+
  show "alive t' p = alive t p" "started t' p = started t p" using w by (auto simp: alive_def started_def)
  show "p_state (procs t' p) = UNUSED \<longleftrightarrow> p_state (procs t p) = UNUSED" "p_state (procs t' p) = ZOMBIE \<longleftrightarrow> p_state (procs t p) = ZOMBIE"
    using w by auto
  show "p_state (procs t' p) = SLEEPING \<Longrightarrow> p_state (procs t p) = SLEEPING \<and> p_chan (procs t' p) = p_chan (procs t p)" using w by auto
qed

lemma only_wakes_ok:
  assumes w: "only_wakes t t'" and t: "table_ok t"
  shows "table_ok t'"
proof -
  note d = only_wakesD [OF w]
  have "init_ok t'" using t unfolding table_ok_def init_ok_def d by blast
  moreover have "parents_ok t'" using t unfolding table_ok_def parents_ok_def d by blast
  moreover have "pids_ok t'" using t unfolding table_ok_def pids_ok_def d by blast
  moreover have "no_lost_wakeup t'"
    unfolding no_lost_wakeup_def d(3,8)
  proof (intro allI impI)
    fix p q
    assume a: "p < NPROC \<and> q < NPROC \<and> p_state (procs t' p) = SLEEPING \<and> p_chan (procs t' p) = Some (ProcChan p)"
    then have "p_state (procs t p) = SLEEPING \<and> p_chan (procs t p) = Some (ProcChan p)" using d(9) [of p] by simp
    then show "\<not> (p_parent (procs t q) = Some p \<and> p_state (procs t q) = ZOMBIE)"
      using a t unfolding table_ok_def no_lost_wakeup_def by blast
  qed
  ultimately show ?thesis by (simp add: table_ok_def)
qed

lemma wakeup1_wakes: "only_wakes t (wakeup1 ch t)"
  by (auto simp: only_wakes_def wakeup1_eq wake_if_def)

lemma kill_wakes: "kill pid t = (r, t') \<Longrightarrow> only_wakes t t'"
  by (auto simp: kill_def only_wakes_def split: option.splits)

lemma run_wakes: "alive t p \<Longrightarrow> st \<in> {RUNNABLE, RUNNING} \<Longrightarrow> only_wakes t (upd_proc p (\<lambda>x. x\<lparr>p_state := st\<rparr>) t)"
  by (auto simp: only_wakes_def alive_def)

lemma woken_wakes: "p_state (procs t p) \<noteq> SLEEPING \<Longrightarrow> only_wakes t (woken p t)"
  by (auto simp: only_wakes_def woken_def)

text \<open>Going to sleep is safe unless it is in \<^verbatim>\<open>wait\<close> with an exited child.\<close>

lemma sleep_ok:
  assumes t: "table_ok t" and c: "alive t c"
    and ch: "ch = ProcChan c \<Longrightarrow> \<forall>q<NPROC. \<not> (p_parent (procs t q) = Some c \<and> p_state (procs t q) = ZOMBIE)"
  shows "table_ok (go_to_sleep ch c t)"
proof -
  let ?t = "go_to_sleep ch c t"
  have same: "p_parent (procs ?t p) = p_parent (procs t p)" "p_pid (procs ?t p) = p_pid (procs t p)" "nextpid ?t = nextpid t" "initproc ?t = initproc t"
    "p_state (procs ?t p) = UNUSED \<longleftrightarrow> p_state (procs t p) = UNUSED" "p_state (procs ?t p) = ZOMBIE \<longleftrightarrow> p_state (procs t p) = ZOMBIE"
    "alive ?t p = alive t p" "started ?t p = started t p" for p
    using c by (auto simp: go_to_sleep_def alive_def started_def)
  have "init_ok ?t" using t unfolding table_ok_def init_ok_def same by blast
  moreover have "parents_ok ?t" using t unfolding table_ok_def parents_ok_def same by blast
  moreover have "pids_ok ?t" using t unfolding table_ok_def pids_ok_def same by blast
  moreover have "no_lost_wakeup ?t"
    unfolding no_lost_wakeup_def same
  proof (intro allI impI)
    fix p q
    assume a: "p < NPROC \<and> q < NPROC \<and> p_state (procs ?t p) = SLEEPING \<and> p_chan (procs ?t p) = Some (ProcChan p)"
    show "\<not> (p_parent (procs t q) = Some p \<and> p_state (procs t q) = ZOMBIE)"
    proof (cases "p = c")
      case True
      then have "ch = ProcChan c" using a by (simp add: go_to_sleep_def)
      then show ?thesis using ch a True by blast
    next
      case False
      then have "p_state (procs t p) = SLEEPING \<and> p_chan (procs t p) = Some (ProcChan p)" using a by (simp add: go_to_sleep_def)
      then show ?thesis using a t unfolding table_ok_def no_lost_wakeup_def by blast
    qed
  qed
  ultimately show ?thesis by (simp add: table_ok_def)
qed

text \<open>The loop of \<^verbatim>\<open>exit\<close> over the children.\<close>

definition adopt :: "nat \<Rightarrow> nat \<Rightarrow> proc \<Rightarrow> proc" where
  "adopt c q x = (if p_parent x = Some c then x\<lparr>p_parent := Some q\<rparr> else x)"

lemma adopt_simps [simp]:
  "p_state (adopt c q x) = p_state x" "p_pid (adopt c q x) = p_pid x" "p_chan (adopt c q x) = p_chan x"
  "p_parent (adopt c q x) = (if p_parent x = Some c then Some q else p_parent x)"
  by (auto simp: adopt_def)

lemma wake_if_twice [simp]: "wake_if ch (wake_if ch x) = wake_if ch x"
  by (simp add: wake_if_def)

lemma wake_adopt: "(wake_if ch x)\<lparr>p_parent := v\<rparr> = wake_if ch (x\<lparr>p_parent := v\<rparr>)"
  by (simp add: wake_if_def)

definition zombie_child :: "nat \<Rightarrow> ptab \<Rightarrow> nat \<Rightarrow> bool" where
  "zombie_child c t i \<longleftrightarrow> p_parent (procs t i) = Some c \<and> p_state (procs t i) = ZOMBIE"

lemma pass_children:
  assumes "initproc t = Some q" and "n \<le> NPROC"
  shows "initproc (fold (pass_child c) [0..<n] t) = Some q \<and> nextpid (fold (pass_child c) [0..<n] t) = nextpid t \<and>
    (\<forall>j. procs (fold (pass_child c) [0..<n] t) j =
      (let y = (if j < n then adopt c q (procs t j) else procs t j)
       in if j < NPROC \<and> (\<exists>i<n. zombie_child c t i) then wake_if (ProcChan q) y else y))"
  using assms(2)
proof (induction n)
  case 0
  then show ?case using assms(1) by simp
next
  case (Suc n)
  let ?t = "fold (pass_child c) [0..<n] t"
  have ih: "initproc ?t = Some q" "nextpid ?t = nextpid t"
    "procs ?t j = (let y = (if j < n then adopt c q (procs t j) else procs t j)
       in if j < NPROC \<and> (\<exists>i<n. zombie_child c t i) then wake_if (ProcChan q) y else y)" for j
    using Suc by simp_all
  have n: "p_parent (procs ?t n) = p_parent (procs t n)" "p_state (procs ?t n) = ZOMBIE \<longleftrightarrow> p_state (procs t n) = ZOMBIE"
    by (simp_all add: ih(3) Let_def)
  have ex: "(\<exists>i<Suc n. zombie_child c t i) \<longleftrightarrow> (\<exists>i<n. zombie_child c t i) \<or> zombie_child c t n" by (auto simp: less_Suc_eq)
  consider (other) "p_parent (procs t n) \<noteq> Some c" | (live) "p_parent (procs t n) = Some c" "p_state (procs t n) \<noteq> ZOMBIE"
    | (dead) "p_parent (procs t n) = Some c" "p_state (procs t n) = ZOMBIE" by blast
  then show ?case
  proof cases
    case other
    then have "pass_child c n ?t = ?t" by (simp add: pass_child_def n)
    moreover have "(if j < Suc n then adopt c q (procs t j) else procs t j) = (if j < n then adopt c q (procs t j) else procs t j)" for j
      using other by (auto simp: adopt_def less_Suc_eq)
    moreover have "(\<exists>i<Suc n. zombie_child c t i) \<longleftrightarrow> (\<exists>i<n. zombie_child c t i)" using other ex by (simp add: zombie_child_def)
    ultimately show ?thesis using ih by simp
  next
    case live
    then have "pass_child c n ?t = upd_proc n (\<lambda>x. x\<lparr>p_parent := Some q\<rparr>) ?t" by (simp add: pass_child_def n ih(1) Let_def)
    moreover have "\<not> zombie_child c t n" using live by (simp add: zombie_child_def)
    ultimately show ?thesis using ih(1,2) ex live Suc(2) by (auto simp: ih(3) Let_def wake_adopt adopt_def less_Suc_eq)
  next
    case dead
    then have "pass_child c n ?t = wakeup1 (ProcChan q) (upd_proc n (\<lambda>x. x\<lparr>p_parent := Some q\<rparr>) ?t)" by (simp add: pass_child_def n ih(1) Let_def)
    moreover have "zombie_child c t n" using dead by (simp add: zombie_child_def)
    ultimately show ?thesis using ih(1,2) ex dead Suc(2) by (auto simp: ih(3) Let_def wakeup1_eq wake_adopt adopt_def less_Suc_eq)
  qed
qed

lemma exit_table_procs:
  assumes "initproc t = Some q" and "q \<noteq> c" and "c < NPROC"
  shows "initproc (exit_table c t) = Some q" "nextpid (exit_table c t) = nextpid t"
    "p_parent (procs (exit_table c t) j) = (if j < NPROC \<and> p_parent (procs t j) = Some c then Some q else p_parent (procs t j))"
    "p_pid (procs (exit_table c t) j) = p_pid (procs t j)"
    "p_state (procs (exit_table c t) j) = ZOMBIE \<longleftrightarrow> j = c \<or> p_state (procs t j) = ZOMBIE"
    "p_state (procs (exit_table c t) j) = UNUSED \<longleftrightarrow> j \<noteq> c \<and> p_state (procs t j) = UNUSED"
    "p_state (procs (exit_table c t) j) = EMBRYO \<longleftrightarrow> j \<noteq> c \<and> p_state (procs t j) = EMBRYO"
    "p_state (procs (exit_table c t) j) = SLEEPING \<Longrightarrow> j \<noteq> c \<and> p_state (procs t j) = SLEEPING \<and> p_chan (procs (exit_table c t) j) = p_chan (procs t j) \<and>
       (j < NPROC \<longrightarrow> p_parent (procs t c) = Some j \<longrightarrow> p_chan (procs t j) \<noteq> Some (ProcChan j)) \<and>
       (j < NPROC \<longrightarrow> (\<exists>i<NPROC. zombie_child c t i) \<longrightarrow> p_chan (procs t j) \<noteq> Some (ProcChan q))"
proof -
  define t1 where "t1 = (case p_parent (procs t c) of Some p \<Rightarrow> wakeup1 (ProcChan p) t | None \<Rightarrow> t)"
  have t1: "initproc t1 = Some q" "nextpid t1 = nextpid t" "zombie_child c t1 i = zombie_child c t i" for i
    using assms(1) by (auto simp: t1_def wakeup1_eq zombie_child_def split: option.splits)
  have p1: "procs t1 j = (case p_parent (procs t c) of Some p \<Rightarrow> if j < NPROC then wake_if (ProcChan p) (procs t j) else procs t j | None \<Rightarrow> procs t j)" for j
    by (auto simp: t1_def wakeup1_eq split: option.splits)
  note pc = pass_children [OF t1(1) order_refl, of c]
  have e: "exit_table c t = upd_proc c (\<lambda>x. x\<lparr>p_state := ZOMBIE\<rparr>) (fold (pass_child c) [0..<NPROC] t1)"
    by (simp add: exit_table_def t1_def)
  have p2: "procs (fold (pass_child c) [0..<NPROC] t1) j =
      (let y = (if j < NPROC then adopt c q (procs t1 j) else procs t1 j)
       in if j < NPROC \<and> (\<exists>i<NPROC. zombie_child c t i) then wake_if (ProcChan q) y else y)" for j
    using pc unfolding t1(3) by blast
  show "initproc (exit_table c t) = Some q" "nextpid (exit_table c t) = nextpid t" using pc t1 by (simp_all add: e)
  show "p_parent (procs (exit_table c t) j) = (if j < NPROC \<and> p_parent (procs t j) = Some c then Some q else p_parent (procs t j))"
    "p_pid (procs (exit_table c t) j) = p_pid (procs t j)"
    "p_state (procs (exit_table c t) j) = ZOMBIE \<longleftrightarrow> j = c \<or> p_state (procs t j) = ZOMBIE"
    "p_state (procs (exit_table c t) j) = UNUSED \<longleftrightarrow> j \<noteq> c \<and> p_state (procs t j) = UNUSED"
    "p_state (procs (exit_table c t) j) = EMBRYO \<longleftrightarrow> j \<noteq> c \<and> p_state (procs t j) = EMBRYO"
    by (simp_all add: e p2 p1 Let_def split: option.split)
  show "p_state (procs (exit_table c t) j) = SLEEPING \<Longrightarrow> j \<noteq> c \<and> p_state (procs t j) = SLEEPING \<and> p_chan (procs (exit_table c t) j) = p_chan (procs t j) \<and>
       (j < NPROC \<longrightarrow> p_parent (procs t c) = Some j \<longrightarrow> p_chan (procs t j) \<noteq> Some (ProcChan j)) \<and>
       (j < NPROC \<longrightarrow> (\<exists>i<NPROC. zombie_child c t i) \<longrightarrow> p_chan (procs t j) \<noteq> Some (ProcChan q))"
    by (simp add: e p2 p1 Let_def split: option.splits if_splits) blast+
qed

lemma exit_ok:
  assumes t: "table_ok t" and c: "alive t c" and init: "Some c \<noteq> initproc t"
  shows "table_ok (exit_table c t)"
proof -
  obtain q where q: "initproc t = Some q" "alive t q" using t by (auto simp: table_ok_def init_ok_def)
  have qc: "q \<noteq> c" using init q(1) by auto
  have cn: "c < NPROC" using c by (simp add: alive_def)
  note x = exit_table_procs [OF q(1) qc cn]
  let ?t = "exit_table c t"
  have c0: "p_state (procs t c) \<noteq> UNUSED" "p_state (procs t c) \<noteq> EMBRYO" "p_state (procs t c) \<noteq> ZOMBIE" using c by (auto simp: alive_def)
  have live: "st \<in> {SLEEPING, RUNNABLE, RUNNING} \<longleftrightarrow> st \<noteq> ZOMBIE \<and> st \<noteq> UNUSED \<and> st \<noteq> EMBRYO" for st by (cases st) auto
  have al: "alive ?t p \<longleftrightarrow> alive t p \<and> p \<noteq> c" for p unfolding alive_def live x by auto
  have st: "started ?t p = started t p" for p unfolding started_def using c0 by (auto simp: x)
  have "init_ok ?t" using q qc by (simp add: init_ok_def x al)
  moreover have "parents_ok ?t"
    unfolding parents_ok_def st x(1)
  proof (intro allI impI)
    fix j assume j: "started t j \<and> Some j \<noteq> Some q"
    then obtain p where p: "p_parent (procs t j) = Some p" "p \<noteq> j" "alive t p" using t q(1) unfolding table_ok_def parents_ok_def by metis
    have "j < NPROC" using j by (simp add: started_def)
    then show "\<exists>p. p_parent (procs ?t j) = Some p \<and> p \<noteq> j \<and> alive ?t p"
      using p j q qc by (cases "p = c") (auto simp: x(3) al)
  qed
  moreover have "pids_ok ?t" using t c0 unfolding table_ok_def pids_ok_def x by blast
  moreover have "no_lost_wakeup ?t"
    unfolding no_lost_wakeup_def
  proof (intro allI impI)
    fix p j
    assume a: "p < NPROC \<and> j < NPROC \<and> p_state (procs ?t p) = SLEEPING \<and> p_chan (procs ?t p) = Some (ProcChan p)"
    note y = x(8) [of p]
    have s: "p_state (procs t p) = SLEEPING" "p_chan (procs t p) = Some (ProcChan p)" using a y by simp_all
    have w: "p_parent (procs t c) \<noteq> Some p" "(\<exists>i<NPROC. zombie_child c t i) \<Longrightarrow> p \<noteq> q" using a y s by auto
    show "\<not> (p_parent (procs ?t j) = Some p \<and> p_state (procs ?t j) = ZOMBIE)"
    proof
      assume h: "p_parent (procs ?t j) = Some p \<and> p_state (procs ?t j) = ZOMBIE"
      then have z: "j = c \<or> p_state (procs t j) = ZOMBIE" by (simp add: x(5))
      have nl: "\<not> (p_parent (procs t j) = Some p \<and> p_state (procs t j) = ZOMBIE)" using a s t unfolding table_ok_def no_lost_wakeup_def by blast
      show False
      proof (cases "p_parent (procs t j) = Some c")
        case True
        then have "p = q" using h a by (simp add: x(3))
        moreover have "j \<noteq> c"
        proof
          assume "j = c"
          moreover have "started t c" using c by (auto simp: started_def alive_def)
          ultimately show False using True t init unfolding table_ok_def parents_ok_def by (metis option.inject)
        qed
        then have "zombie_child c t j" using z True by (simp add: zombie_child_def)
        ultimately show False using w(2) a by blast
      next
        case False
        then have "p_parent (procs t j) = Some p" using h by (simp add: x(3))
        then show False using z nl w(1) by blast
      qed
    qed
  qed
  ultimately show ?thesis by (simp add: table_ok_def)
qed

text \<open>Slots are taken and returned.\<close>

lemma slot_ok:
  assumes t: "table_ok t" and a: "alloc_slot t = (Some p, t')"
  shows "table_ok t'" and "p < NPROC" and "p_state (procs t' p) = EMBRYO" and "p_pid (procs t' p) = nextpid t"
proof -
  have p: "p < NPROC" "p_state (procs t p) = UNUSED" and t': "t' = upd_proc p (\<lambda>x. x\<lparr>p_state := EMBRYO, p_pid := nextpid t\<rparr>) t\<lparr>nextpid := nextpid t + 1\<rparr>"
    using a by (auto simp: alloc_slot_def find_Some_iff split: option.splits)
  show "p < NPROC" "p_state (procs t' p) = EMBRYO" "p_pid (procs t' p) = nextpid t" using p by (simp_all add: t')
  have same: "alive t' x = alive t x" "started t' x = started t x" "p_parent (procs t' x) = p_parent (procs t x)" "initproc t' = initproc t"
    "p_state (procs t' x) = ZOMBIE \<longleftrightarrow> p_state (procs t x) = ZOMBIE" "p_state (procs t' x) = SLEEPING \<longleftrightarrow> p_state (procs t x) = SLEEPING"
    "p_chan (procs t' x) = p_chan (procs t x)" for x
    using p by (auto simp: t' alive_def started_def)
  have "init_ok t'" using t unfolding table_ok_def init_ok_def same by blast
  moreover have "parents_ok t'" using t unfolding table_ok_def parents_ok_def same by blast
  moreover have "no_lost_wakeup t'" using t unfolding table_ok_def no_lost_wakeup_def same by blast
  moreover have "pids_ok t'"
  proof -
    have pid: "p_pid (procs t' x) = (if x = p then nextpid t else p_pid (procs t x))"
      "p_state (procs t' x) = UNUSED \<longleftrightarrow> x \<noteq> p \<and> p_state (procs t x) = UNUSED" "nextpid t' = nextpid t + 1" for x
      by (auto simp: t')
    have lt: "0 < p_pid (procs t x) \<and> p_pid (procs t x) < nextpid t" if "x < NPROC" "p_state (procs t x) \<noteq> UNUSED" for x
      using t that unfolding table_ok_def pids_ok_def by blast
    have inj: "x = y" if "x < NPROC" "y < NPROC" "p_state (procs t x) \<noteq> UNUSED" "p_state (procs t y) \<noteq> UNUSED"
      "p_pid (procs t x) = p_pid (procs t y)" for x y
      using t that unfolding table_ok_def pids_ok_def by blast
    have pos: "0 < nextpid t" using t unfolding table_ok_def pids_ok_def by blast
    show ?thesis
      unfolding pids_ok_def pid
    proof (intro conjI allI impI)
      fix x assume x: "x < NPROC" "\<not> (x \<noteq> p \<and> p_state (procs t x) = UNUSED)"
      show "0 < (if x = p then nextpid t else p_pid (procs t x))" using x lt [of x] pos by (cases "x = p") auto
      show "(if x = p then nextpid t else p_pid (procs t x)) < nextpid t + 1" using x lt [of x] by (cases "x = p") force+
    next
      fix x y assume x: "x < NPROC" "y < NPROC" and a: "\<not> (x \<noteq> p \<and> p_state (procs t x) = UNUSED) \<and> \<not> (y \<noteq> p \<and> p_state (procs t y) = UNUSED) \<and>
        (if x = p then nextpid t else p_pid (procs t x)) = (if y = p then nextpid t else p_pid (procs t y))"
      show "x = y" using x a lt [of x] lt [of y] inj [of x y] by (cases "x = p"; cases "y = p") auto
    next
      show "0 < nextpid t + 1" using pos by simp
    qed
  qed
  ultimately show "table_ok t'" by (simp add: table_ok_def)
qed

lemma unslot_ok:
  assumes t: "table_ok t" and p: "p_state (procs t p) \<in> {EMBRYO, ZOMBIE}" and f: "p_state (f (procs t p)) = UNUSED"
  shows "table_ok (upd_proc p f t)"
proof -
  let ?t = "upd_proc p f t"
  have al: "alive ?t x = alive t x" for x using p f by (auto simp: alive_def)
  have st: "started ?t x \<Longrightarrow> started t x \<and> x \<noteq> p" for x using f by (auto simp: started_def split: if_splits)
  have "init_ok ?t" using t unfolding table_ok_def init_ok_def al by simp
  moreover have "parents_ok ?t" unfolding parents_ok_def
  proof (intro allI impI)
    fix x assume "started ?t x \<and> Some x \<noteq> initproc ?t"
    then have x: "started t x" "Some x \<noteq> initproc t" "x \<noteq> p" using st by auto
    then obtain y where "p_parent (procs t x) = Some y" "y \<noteq> x" "alive t y" using t unfolding table_ok_def parents_ok_def by blast
    then show "\<exists>y. p_parent (procs ?t x) = Some y \<and> y \<noteq> x \<and> alive ?t y" using x(3) al by simp
  qed
  moreover have "no_lost_wakeup ?t" using t f unfolding table_ok_def no_lost_wakeup_def by (simp split: if_splits) blast
  moreover have "pids_ok ?t" using t f unfolding table_ok_def pids_ok_def by (simp split: if_splits)
  ultimately show ?thesis by (simp add: table_ok_def)
qed

lemma start_ok:
  assumes t: "table_ok t" and p: "p < NPROC" "p_state (procs t p) = EMBRYO" and c: "alive t c"
  shows "table_ok (upd_proc p (\<lambda>x. x\<lparr>p_parent := Some c, p_state := RUNNABLE\<rparr>) t)"
proof -
  let ?t = "upd_proc p (\<lambda>x. x\<lparr>p_parent := Some c, p_state := RUNNABLE\<rparr>) t"
  have cp: "c \<noteq> p" using c p by (auto simp: alive_def)
  have al: "alive ?t x \<longleftrightarrow> alive t x \<or> x = p" and st: "started ?t x \<longleftrightarrow> started t x \<or> x = p" for x
    using p by (auto simp: alive_def started_def)
  have "init_ok ?t" using t unfolding table_ok_def init_ok_def al by auto
  moreover have "parents_ok ?t" unfolding parents_ok_def
  proof (intro allI impI)
    fix x assume x: "started ?t x \<and> Some x \<noteq> initproc ?t"
    show "\<exists>y. p_parent (procs ?t x) = Some y \<and> y \<noteq> x \<and> alive ?t y"
    proof (cases "x = p")
      case True
      then show ?thesis using c cp by (simp add: al)
    next
      case False
      then obtain y where "p_parent (procs t x) = Some y" "y \<noteq> x" "alive t y" using t x st unfolding table_ok_def parents_ok_def by auto
      then show ?thesis using False by (simp add: al)
    qed
  qed
  moreover have "no_lost_wakeup ?t" using t unfolding table_ok_def no_lost_wakeup_def by (simp split: if_splits) blast
  moreover have "pids_ok ?t"
  proof -
    have "p_pid (procs ?t x) = p_pid (procs t x)" "p_state (procs ?t x) = UNUSED \<longleftrightarrow> p_state (procs t x) = UNUSED" "nextpid ?t = nextpid t" for x
      using p by auto
    then show ?thesis using t unfolding table_ok_def pids_ok_def by (simp del: upd_proc_simps)
  qed
  ultimately show ?thesis by (simp add: table_ok_def)
qed

lemma wait_ok:
  assumes t: "table_ok t" and c: "alive t c" and w: "wait_table c t = (r, t')"
  shows "table_ok t'"
proof (cases "find_zombie c t")
  case None
  then have "\<forall>q<NPROC. \<not> (p_parent (procs t q) = Some c \<and> p_state (procs t q) = ZOMBIE)"
    by (auto simp: find_zombie_def find_None_iff)
  then show ?thesis using w None t sleep_ok [OF t c] by (auto simp: wait_table_def split: if_splits)
next
  case (Some p)
  then have "p_state (procs t p) = ZOMBIE" by (auto simp: find_zombie_def find_Some_iff)
  then show ?thesis using w Some unslot_ok [OF t, of p] by (auto simp: wait_table_def reap_def)
qed

section \<open>Reachable tables\<close>

text \<open>The steps of running processes, the scheduler and interrupt handlers, in any order. \<^verbatim>\<open>fork\<close> is two steps:
  it takes a slot, and then starts the child or returns the slot.\<close>

inductive table_step :: "ptab \<Rightarrow> ptab \<Rightarrow> bool" where
  allocs: "alloc_slot t = (Some p, t') \<Longrightarrow> table_step t t'"
| starts: "p < NPROC \<Longrightarrow> p_state (procs t p) = EMBRYO \<Longrightarrow> p_state (procs t c) = RUNNING \<Longrightarrow> c < NPROC \<Longrightarrow>
    table_step t (upd_proc p (\<lambda>x. x\<lparr>p_parent := Some c, p_state := RUNNABLE\<rparr>) t)"
| fails: "p_state (procs t p) = EMBRYO \<Longrightarrow> table_step t (upd_proc p (\<lambda>x. x\<lparr>p_state := UNUSED\<rparr>) t)"
| exits: "c < NPROC \<Longrightarrow> p_state (procs t c) = RUNNING \<Longrightarrow> Some c \<noteq> initproc t \<Longrightarrow> table_step t (exit_table c t)"
| waits: "c < NPROC \<Longrightarrow> p_state (procs t c) = RUNNING \<Longrightarrow> wait_table c t = (r, t') \<Longrightarrow> table_step t t'"
| sleeps: "c < NPROC \<Longrightarrow> p_state (procs t c) = RUNNING \<Longrightarrow> ch \<noteq> ProcChan c \<Longrightarrow> table_step t (go_to_sleep ch c t)"
| awakes: "p_state (procs t c) = RUNNING \<Longrightarrow> table_step t (woken c t)"
| wakes: "table_step t (wakeup ch t)"
| kills: "kill pid t = (r, t') \<Longrightarrow> table_step t t'"
| yields: "c < NPROC \<Longrightarrow> p_state (procs t c) = RUNNING \<Longrightarrow> table_step t (yield_table c t)"
| runs: "c < NPROC \<Longrightarrow> p_state (procs t c) = RUNNABLE \<Longrightarrow> table_step t (upd_proc c (\<lambda>x. x\<lparr>p_state := RUNNING\<rparr>) t)"

lemma table_step_ok:
  assumes "table_step t t'" and "table_ok t"
  shows "table_ok t'"
  using assms
proof (cases rule: table_step.cases)
  case (allocs p)
  then show ?thesis using slot_ok(1) [OF assms(2)] by blast
next
  case (starts p c)
  then show ?thesis using start_ok [OF assms(2)] by (simp add: alive_def)
next
  case (fails p)
  then show ?thesis using unslot_ok [OF assms(2), of p] by simp
next
  case (exits c)
  then show ?thesis using exit_ok [OF assms(2)] by (simp add: alive_def)
next
  case (waits c r)
  show ?thesis by (rule wait_ok [OF assms(2) _ waits(3)]) (use waits in \<open>simp add: alive_def\<close>)
next
  case (sleeps c ch)
  then show ?thesis using sleep_ok [OF assms(2), of c ch] by (simp add: alive_def)
next
  case (awakes c)
  then show ?thesis using only_wakes_ok [OF woken_wakes assms(2)] by simp
next
  case (wakes ch)
  then show ?thesis using only_wakes_ok [OF wakeup1_wakes assms(2)] by (simp add: wakeup_def)
next
  case (kills pid r)
  then show ?thesis using only_wakes_ok [OF kill_wakes assms(2)] by blast
next
  case (yields c)
  then show ?thesis using only_wakes_ok [OF run_wakes assms(2), of c RUNNABLE] by (simp add: yield_table_def alive_def)
next
  case (runs c)
  then show ?thesis using only_wakes_ok [OF run_wakes assms(2), of c RUNNING] by (simp add: alive_def)
qed

lemma reachable_ok: "table_step\<^sup>*\<^sup>* t t' \<Longrightarrow> table_ok t \<Longrightarrow> table_ok t'"
  by (induction rule: rtranclp_induct) (auto intro: table_step_ok)

text \<open>The table after \<^verbatim>\<open>userinit\<close>: slot 0 is init, runnable, with identifier 1.\<close>

definition boot_table :: "(nat \<Rightarrow> proc) \<Rightarrow> ptab" where
  "boot_table f = \<lparr>procs = (\<lambda>p. (f p)\<lparr>p_state := (if p = 0 then RUNNABLE else UNUSED), p_parent := None, p_pid := (if p = 0 then 1 else 0)\<rparr>),
     nextpid = 2, initproc = Some 0\<rparr>"

lemma boot_table_ok: "table_ok (boot_table f)"
  by (auto simp: table_ok_defs boot_table_def)

text \<open>C2: no exit is missed: in every state that the process operations reach in any order from the table after
  \<^verbatim>\<open>userinit\<close>, a process that sleeps in \<^verbatim>\<open>wait\<close> has no exited child, so \<^verbatim>\<open>wait\<close> never sleeps on although it could
  return.\<close>

theorem wait_never_misses_exit:
  assumes "table_step\<^sup>*\<^sup>* (boot_table f) t" and "p < NPROC" and "p_state (procs t p) = SLEEPING" and "p_chan (procs t p) = Some (ProcChan p)"
  shows "find_zombie p t = None"
  using reachable_ok [OF assms(1) boot_table_ok] assms(2-4)
  by (auto simp: table_ok_def no_lost_wakeup_def find_zombie_def find_None_iff)


text \<open>Two processes: init in slot 0 sleeps in \<^verbatim>\<open>wait\<close> for its child in slot 1.\<close>

definition demo_proc :: proc where
  "demo_proc = \<lparr>p_sz = 0, p_pgdir = 0, p_kstack = 0, p_state = UNUSED, p_pid = 0, p_parent = None,
     p_tf = \<lparr>tf_rax = 0, tf_rcx = 0, tf_rdx = 0, tf_rsi = 0, tf_rdi = 0, tf_r8 = 0, tf_r9 = 0, tf_r10 = 0, tf_r11 = 0,
       tf_rip = 0, tf_cs = 0, tf_rsp = 0, tf_trapno = 0\<rparr>,
     p_chan = None, p_killed = False, p_ofile = (\<lambda>_. None), p_cwd = None, p_name = []\<rparr>"

definition t_run :: ptab where
  "t_run = upd_proc 0 (\<lambda>x. x\<lparr>p_state := RUNNING\<rparr>) (boot_table (\<lambda>_. demo_proc))"

definition t_emb :: ptab where
  "t_emb = upd_proc 1 (\<lambda>x. x\<lparr>p_state := EMBRYO, p_pid := 2\<rparr>) t_run\<lparr>nextpid := 3\<rparr>"

definition t_child :: ptab where
  "t_child = upd_proc 1 (\<lambda>x. x\<lparr>p_parent := Some 0, p_state := RUNNABLE\<rparr>) t_emb"

definition t_wait :: ptab where
  "t_wait = go_to_sleep (ProcChan 0) 0 t_child"

lemmas demo_defs = t_run_def t_emb_def t_child_def t_wait_def boot_table_def go_to_sleep_def

lemma find_slot_1: "List.find (\<lambda>p. p_state (procs t_run p) = UNUSED) [0..<NPROC] = Some 1"
  unfolding find_Some_iff by (intro exI [of _ 1]) (simp add: demo_defs)

lemma t_wait_reachable: "table_step\<^sup>*\<^sup>* (boot_table (\<lambda>_. demo_proc)) t_wait"
proof -
  have "table_step (boot_table (\<lambda>_. demo_proc)) t_run" unfolding t_run_def by (rule runs) (simp_all add: boot_table_def)
  moreover have "table_step t_run t_emb"
    by (rule allocs [of _ 1]) (unfold alloc_slot_def find_slot_1, simp add: t_emb_def t_run_def boot_table_def)
  moreover have "table_step t_emb t_child" unfolding t_child_def by (rule starts) (simp_all add: demo_defs)
  moreover have "table_step t_child t_wait"
  proof (rule waits)
    show "(0 :: nat) < NPROC" "p_state (procs t_child 0) = RUNNING" by (simp_all add: demo_defs)
    have "find_zombie 0 t_child = None" by (auto simp: find_zombie_def find_None_iff demo_defs)
    moreover have "havekids 0 t_child" by (auto simp: havekids_def list_ex_iff demo_defs intro!: bexI [of _ 1])
    ultimately show "wait_table 0 t_child = (MustSleep, t_wait)" by (simp add: wait_table_def t_wait_def) (simp add: demo_defs demo_proc_def)
  qed
  ultimately show ?thesis by (meson rtranclp.rtrancl_into_rtrancl rtranclp.rtrancl_refl)
qed

theorem wait_never_misses_exit_witness:
  "table_step\<^sup>*\<^sup>* (boot_table (\<lambda>_. demo_proc)) t_wait \<and> p_state (procs t_wait 0) = SLEEPING \<and> find_zombie 0 t_wait = None"
  using wait_never_misses_exit [OF t_wait_reachable, of 0] t_wait_reachable by (simp add: demo_defs)


text \<open>The scheduler is fair: what a process does until it gives up the CPU does not take other processes off the
  run queue, and then one pass runs every process that was runnable when it started.\<close>

definition keeps_runnable :: "(nat \<Rightarrow> ptab \<Rightarrow> ptab) \<Rightarrow> bool" where
  "keeps_runnable run \<longleftrightarrow> (\<forall>p t q. q \<noteq> p \<longrightarrow> p_state (procs t q) = RUNNABLE \<longrightarrow> p_state (procs (run p t) q) = RUNNABLE)"

lemma scheduler_pass_runs:
  assumes "keeps_runnable run" and "distinct ps" and "p \<in> set ps" and "p_state (procs t p) = RUNNABLE"
  shows "p \<in> set (fst (scheduler_pass run ps t))"
  using assms(2-4)
proof (induction ps arbitrary: t)
  case Nil
  then show ?case by simp
next
  case (Cons x ps)
  show ?case
  proof (cases "p = x")
    case True
    then show ?thesis using Cons.prems by (simp add: Let_def split: prod.splits)
  next
    case False
    then have p: "p \<in> set ps" "distinct ps" using Cons.prems by simp_all
    have "p_state (procs (run x (upd_proc x (\<lambda>y. y\<lparr>p_state := RUNNING\<rparr>) t)) p) = RUNNABLE"
      using assms(1) False Cons.prems(3) by (simp add: keeps_runnable_def)
    then show ?thesis using Cons.IH [OF p(2,1)] Cons.prems(3) by (simp add: Let_def split: prod.splits) force
  qed
qed



end
