(* ===== verification/Printf.thy ===== *)
theory Printf
  imports Kstring
begin

text \<open>
  Formatted output of user programs, \<^verbatim>\<open>printf.c\<close>. The output is the list of bytes handed to \<^verbatim>\<open>putc\<close>. The
  arguments are a list; a conversion that meets an argument of another kind, or none, is the
  fault \<open>OutOfBounds\<close> (undefined behaviour of \<^verbatim>\<open>va_arg\<close>).
\<close>

datatype arg = A_int int | A_addr nat | A_str "byte list option"

definition digits :: "nat \<Rightarrow> byte" where
  "digits i = word_of_nat (if i < 10 then 48 + i else 87 + i)"

text \<open>\<open>k\<close> hexadecimal digits of a value of \<open>4 * k\<close> bits, the highest first.\<close>

fun print_hex :: "nat \<Rightarrow> nat \<Rightarrow> nat \<Rightarrow> byte list" where
  "print_hex 0 w x = []"
| "print_hex (Suc k) w x = digits (x div 16 ^ (w - 1)) # print_hex k w (x * 16 mod 16 ^ w)"

definition print_x64 :: "nat \<Rightarrow> byte list" where
  "print_x64 x = print_hex 16 16 x"

definition print_x32 :: "nat \<Rightarrow> byte list" where
  "print_x32 x = print_hex 8 8 x"

text \<open>The digit loop of \<^verbatim>\<open>print_d\<close>, lowest digit first.\<close>

fun dec_digits :: "nat \<Rightarrow> byte list" where
  "dec_digits x = digits (x mod 10) # (if x div 10 \<noteq> 0 then dec_digits (x div 10) else [])"

declare dec_digits.simps [simp del]

definition print_d :: "int \<Rightarrow> byte list" where
  "print_d v = rev (dec_digits (nat (if v < 0 then - v else v)) @ (if v < 0 then [45] else []))"

definition null_str :: "byte list" where
  "null_str = [40, 110, 117, 108, 108, 41]"

fun printf :: "byte list \<Rightarrow> arg list \<Rightarrow> byte list res" where
  "printf [] as = Inr []"
| "printf [c] as = Inr (if c = 37 then [] else [c])"
| "printf (c # d # fmt) as =
     (if c \<noteq> 37 then bnd (printf (d # fmt) as) (\<lambda>out. Inr (c # out))
      else if d = 99 then (case as of A_int v # as \<Rightarrow> bnd (printf fmt as) (\<lambda>out. Inr (word_of_int v # out)) | _ \<Rightarrow> Inl OutOfBounds)
      else if d = 100 then (case as of A_int v # as \<Rightarrow> bnd (printf fmt as) (\<lambda>out. Inr (print_d v @ out)) | _ \<Rightarrow> Inl OutOfBounds)
      else if d = 120 then (case as of A_int v # as \<Rightarrow> bnd (printf fmt as) (\<lambda>out. Inr (print_x32 (nat (v mod 2 ^ 32)) @ out)) | _ \<Rightarrow> Inl OutOfBounds)
      else if d = 112 then (case as of A_addr v # as \<Rightarrow> bnd (printf fmt as) (\<lambda>out. Inr (print_x64 v @ out)) | _ \<Rightarrow> Inl OutOfBounds)
      else if d = 115 then (case as of A_str s # as \<Rightarrow>
          bnd (printf fmt as) (\<lambda>out. Inr ((case s of None \<Rightarrow> null_str | Some s \<Rightarrow> s) @ out)) | _ \<Rightarrow> Inl OutOfBounds)
      else bnd (printf fmt as) (\<lambda>out. Inr (if d = 37 then 37 # out else 37 # d # out)))"

section \<open>Numbers read back\<close>

fun nat_digits :: "nat \<Rightarrow> nat list" where
  "nat_digits x = x mod 10 # (if x div 10 \<noteq> 0 then nat_digits (x div 10) else [])"

declare nat_digits.simps [simp del]

lemma dec_digits_eq: "dec_digits x = map digit_byte (nat_digits x)"
proof (induction x rule: dec_digits.induct)
  case (1 x)
  then show ?case
    by (cases "x div 10 = 0") (simp_all add: dec_digits.simps [of x] nat_digits.simps [of x] digits_def digit_byte_def)
qed

lemma nat_digits_less: "d \<in> set (nat_digits x) \<Longrightarrow> d < 10"
proof (induction x rule: nat_digits.induct)
  case (1 x)
  then show ?case by (cases "x div 10 = 0") (auto simp: nat_digits.simps [of x])
qed

lemma nat_digits_value: "foldl (\<lambda>n d. 10 * n + d) 0 (rev (nat_digits x)) = x"
proof (induction x rule: nat_digits.induct)
  case (1 x)
  then show ?case by (cases "x div 10 = 0") (simp_all add: nat_digits.simps [of x])
qed

lemma str_at_digits:
  assumes "\<And>i. i < length cs \<Longrightarrow> m (s + i) = cs ! i" and "m (s + length cs) = 0" and "0 \<notin> set cs"
  shows "str_at m s cs"
  using assms
proof (induction cs arbitrary: s)
  case Nil
  then show ?case by simp
next
  case (Cons c cs)
  have "m (Suc s + i) = cs ! i" if "i < length cs" for i using Cons.prems(1) [of "Suc i"] that by simp
  then show ?case using Cons.IH [of "Suc s"] Cons.prems(1) [of 0] Cons.prems(2,3) by auto
qed

text \<open>C32: decimal output reads back: for every non-negative \<^verbatim>\<open>int\<close> the characters that \<^verbatim>\<open>print_d\<close> writes,
  stored as a string, are converted by \<^verbatim>\<open>atoi\<close> to the number that was printed.\<close>

theorem print_d_atoi_roundtrip:
  assumes "0 \<le> v" and "v < 2 ^ 31" and "str_at m s (print_d v)"
  shows "atoi s m = Some v"
proof -
  obtain n where n: "v = int n" using assms(1) by (metis nonneg_int_cases)
  have p: "print_d v = map digit_byte (rev (nat_digits n)) @ []" by (simp add: print_d_def n dec_digits_eq rev_map)
  have "\<forall>d\<in>set (rev (nat_digits n)). d < 10" using nat_digits_less by simp
  then have "atoi_from s (int 0) m = Some (int (foldl (\<lambda>n d. 10 * n + d) 0 (rev (nat_digits n))))"
    using assms(2,3) p n by (intro atoi_from_digits [where rest = "[]"]) (simp_all add: nat_digits_value)
  then show ?thesis by (simp add: atoi_def nat_digits_value n)
qed

definition demo_str :: mem where
  "demo_str = (\<lambda>_. 0)(5 := 52, 6 := 50)"

theorem print_d_atoi_roundtrip_witness: "str_at demo_str 5 (print_d 42) \<and> atoi 5 demo_str = Some 42"
proof -
  have "str_at demo_str 5 (print_d 42)" by (simp add: print_d_def dec_digits.simps digits_def demo_str_def)
  with print_d_atoi_roundtrip [of 42 demo_str 5] show ?thesis by simp
qed


end
