(* ===== verification/Console.thy ===== *)
theory Console
  imports Ring Prelude
begin

text \<open>
  The console, \<^verbatim>\<open>console.c\<close>: the screen, the input line editor that keyboard and serial interrupts
  drive, and the reading side. The cursor registers and the video memory are fields of the
  state; what goes to the serial port is a list. A section under \<^verbatim>\<open>input.lock\<close> is one step.
\<close>

unbundle bit_operations_syntax

section \<open>State\<close>

record cons =
  in_buf :: "nat \<Rightarrow> byte"
  in_r :: "32 word"
  in_w :: "32 word"
  in_e :: "32 word"
  cga_pos :: nat
  crt :: "nat \<Rightarrow> nat"
  uart_out :: "int list"
  panicked :: bool

abbreviation (input) INPUT_BUF :: nat where "INPUT_BUF \<equiv> 128"
abbreviation (input) BACKSPACE :: int where "BACKSPACE \<equiv> 0x100"

section \<open>Screen\<close>

text \<open>Storing a character, and scrolling when the last row is reached.\<close>

definition cga_store :: "int \<Rightarrow> nat \<Rightarrow> (nat \<Rightarrow> nat) \<Rightarrow> nat \<times> (nat \<Rightarrow> nat)" where
  "cga_store c pos m =
     (if c = 10 then (pos + (80 - pos mod 80), m)
      else if c = BACKSPACE then ((if pos > 0 then pos - 1 else pos), m)
      else (pos + 1, m(pos := nat (c mod 256) + 0x0700)))"

definition cga_scroll :: "nat \<times> (nat \<Rightarrow> nat) \<Rightarrow> nat \<times> (nat \<Rightarrow> nat)" where
  "cga_scroll = (\<lambda>(pos, m).
     if pos div 80 \<ge> 24
     then let m = (\<lambda>i. if i < 23 * 80 then m (i + 80) else m i); pos = pos - 80
          in (pos, \<lambda>i. if pos \<le> i \<and> i < 24 * 80 then 0 else m i)
     else (pos, m))"

definition cgaputc :: "int \<Rightarrow> 'a cons_scheme \<Rightarrow> 'a cons_scheme" where
  "cgaputc c s =
     (case cga_scroll (cga_store c (cga_pos s) (crt s)) of (pos, m) \<Rightarrow> s\<lparr>cga_pos := pos, crt := m(pos := 0x20 + 0x0700)\<rparr>)"

lemma cgaputc_frame [simp]:
  "in_buf (cgaputc c s) = in_buf s" "in_r (cgaputc c s) = in_r s" "in_w (cgaputc c s) = in_w s" "in_e (cgaputc c s) = in_e s"
  "panicked (cgaputc c s) = panicked s"
  by (simp_all add: cgaputc_def split: prod.split)

lemma cga_store_bounds:
  assumes "pos < 24 * 80"
  shows "fst (cga_store c pos m) \<le> 24 * 80" and "i \<ge> 25 * 80 \<Longrightarrow> snd (cga_store c pos m) i = m i"
proof -
  obtain q r where pos: "pos = 80 * q + r" "r < 80" by (metis mult_div_mod_eq mod_less_divisor zero_less_numeral)
  then have "q < 24" using assms by linarith
  moreover have "pos mod 80 = r" using pos by simp
  ultimately have "pos + (80 - pos mod 80) \<le> 24 * 80" using pos by simp
  then show "fst (cga_store c pos m) \<le> 24 * 80" using assms by (auto simp: cga_store_def)
  show "i \<ge> 25 * 80 \<Longrightarrow> snd (cga_store c pos m) i = m i" using assms by (simp add: cga_store_def)
qed

lemma cga_scroll_bounds:
  assumes "fst p \<le> 24 * 80"
  shows "fst (cga_scroll p) < 24 * 80" and "i \<ge> 25 * 80 \<Longrightarrow> snd (cga_scroll p) i = snd p i"
proof -
  have "x div 80 \<ge> 24 \<longleftrightarrow> x \<ge> 24 * 80" for x :: nat by (simp add: less_eq_div_iff_mult_less_eq)
  then show "fst (cga_scroll p) < 24 * 80" using assms by (cases p) (auto simp: cga_scroll_def Let_def)
  show "i \<ge> 25 * 80 \<Longrightarrow> snd (cga_scroll p) i = snd p i" by (simp add: cga_scroll_def Let_def split: prod.split)
qed

lemma cgaputc_pos: "cga_pos s < 24 * 80 \<Longrightarrow> cga_pos (cgaputc c s) < 24 * 80"
  using cga_scroll_bounds(1) [OF cga_store_bounds(1)] by (simp add: cgaputc_def split: prod.split) (metis fst_conv)

definition uartputc :: "int \<Rightarrow> 'a cons_scheme \<Rightarrow> 'a cons_scheme" where
  "uartputc c s = s\<lparr>uart_out := uart_out s @ [c]\<rparr>"

text \<open>After a panic the CPU stops here.\<close>

definition consputc :: "int \<Rightarrow> 'a cons_scheme \<Rightarrow> 'a cons_scheme res" where
  "consputc c s =
     (if panicked s then Inl Diverges
      else let s = (if c = BACKSPACE then uartputc 8 (uartputc 32 (uartputc 8 s)) else uartputc c s)
           in Inr (cgaputc c s))"

section \<open>Input\<close>

lemma consputc_frame:
  assumes "consputc c s = Inr s'"
  shows "in_buf s' = in_buf s" "in_r s' = in_r s" "in_w s' = in_w s" "in_e s' = in_e s" "panicked s' = panicked s" "\<not> panicked s"
  using assms by (auto simp: consputc_def uartputc_def Let_def split: if_splits)

function kill_line :: "'a cons_scheme \<Rightarrow> 'a cons_scheme res" where
  "kill_line s =
     (if in_e s \<noteq> in_w s \<and> in_buf s (unat (in_e s - 1) mod INPUT_BUF) \<noteq> 10
      then bnd (consputc BACKSPACE (s\<lparr>in_e := in_e s - 1\<rparr>)) kill_line
      else Inr s)"
  by pat_completeness auto
termination
proof (relation "measure (\<lambda>s. unat (in_e s - in_w s))")
  fix s x :: "'a cons_scheme"
  assume a: "in_e s \<noteq> in_w s \<and> in_buf s (unat (in_e s - 1) mod INPUT_BUF) \<noteq> 10"
    and x: "consputc BACKSPACE (s\<lparr>in_e := in_e s - 1\<rparr>) = Inr x"
  have "unat (in_e s - 1 - in_w s) < unat (in_e s - in_w s)"
  proof -
    have e: "in_e s - 1 - in_w s = (in_e s - in_w s) - 1" by simp
    have "unat ((in_e s - in_w s) - 1) = unat (in_e s - in_w s) - 1" by (rule unat_minus_one) (use a in simp)
    moreover have "unat (in_e s - in_w s) \<noteq> 0" using a by (simp add: unat_eq_0)
    ultimately show ?thesis unfolding e by linarith
  qed
  then show "(x, s) \<in> measure (\<lambda>s. unat (in_e s - in_w s))" using consputc_frame [OF x] by simp
qed simp

declare kill_line.simps [simp del]

text \<open>One character of \<^verbatim>\<open>consoleintr\<close>: control characters, or text that is stored and echoed. The process listing
  and the reboot of \<^verbatim>\<open>C('P')\<close> and \<^verbatim>\<open>C('Z')\<close> do not concern this state.\<close>

definition consoleintr1 :: "int \<Rightarrow> 'a cons_scheme \<Rightarrow> 'a cons_scheme res" where
  "consoleintr1 c s =
     (if c = 26 then Inr s
      else if c = 16 then Inr s
      else if c = 21 then kill_line s
      else if c = 8 \<or> c = 0x7f then
        (if in_e s \<noteq> in_w s then consputc BACKSPACE (s\<lparr>in_e := in_e s - 1\<rparr>) else Inr s)
      else if c \<noteq> 0 \<and> in_e s - in_r s < 128 then
        let c = (if c = 13 then 10 else c);
            s = s\<lparr>in_buf := (in_buf s)(unat (in_e s) mod INPUT_BUF := word_of_int c), in_e := in_e s + 1\<rparr>
        in bnd (consputc c s) (\<lambda>s. Inr (if c = 10 \<or> c = 4 \<or> in_e s = in_r s + 128 then s\<lparr>in_w := in_e s\<rparr> else s))
      else Inr s)"

text \<open>\<^verbatim>\<open>consoleintr\<close> on the characters that \<^verbatim>\<open>getc\<close> delivers.\<close>

definition consoleintr :: "int list \<Rightarrow> 'a cons_scheme \<Rightarrow> 'a cons_scheme res" where
  "consoleintr cs s = rfold consoleintr1 cs s"

text \<open>The loop of \<^verbatim>\<open>consoleread\<close> with \<open>n\<close> bytes still wanted: the return value, or \<open>None\<close> when it sleeps, and
  the bytes stored so far.\<close>

fun consoleread_loop :: "bool \<Rightarrow> nat \<Rightarrow> nat \<Rightarrow> 'a cons_scheme \<Rightarrow> (int option \<times> byte list) \<times> 'a cons_scheme" where
  "consoleread_loop killed target 0 s = ((Some (int target), []), s)"
| "consoleread_loop killed target (Suc n) s =
     (if in_r s = in_w s then (if killed then ((Some (- 1), []), s) else ((None, []), s))
      else let c = in_buf s (unat (in_r s) mod INPUT_BUF); s = s\<lparr>in_r := in_r s + 1\<rparr> in
        if c = 4 then ((Some (int target - int (Suc n)), []), if Suc n < target then s\<lparr>in_r := in_r s - 1\<rparr> else s)
        else if c = 10 then ((Some (int target - int n), [c]), s)
        else case consoleread_loop killed target n s of ((r, cs), s) \<Rightarrow> ((r, c # cs), s))"

definition consoleread :: "bool \<Rightarrow> int \<Rightarrow> 'a cons_scheme \<Rightarrow> (int option \<times> byte list) \<times> 'a cons_scheme" where
  "consoleread killed n s = consoleread_loop killed (nat n) (nat n) s"

definition consolewrite :: "byte list \<Rightarrow> 'a cons_scheme \<Rightarrow> (int \<times> 'a cons_scheme) res" where
  "consolewrite buf s = bnd (rfold (\<lambda>c. consputc (uint c)) buf s) (\<lambda>s. Inr (int (length buf), s))"

section \<open>The line editor as a list\<close>

text \<open>Everything typed and not yet read, and how much of it is handed to readers.\<close>

definition typed :: "'a cons_scheme \<Rightarrow> byte list" where
  "typed s = ring_list INPUT_BUF (in_buf s) (in_r s) (in_e s)"

definition handed :: "'a cons_scheme \<Rightarrow> nat" where
  "handed s = unat (in_w s - in_r s)"

definition cons_ok :: "'a cons_scheme \<Rightarrow> bool" where
  "cons_ok s \<longleftrightarrow> handed s \<le> length (typed s) \<and> length (typed s) \<le> INPUT_BUF \<and> \<not> panicked s \<and> cga_pos s < 24 * 80"

text \<open>What the editing keys mean.\<close>

definition kill_spec :: "nat \<Rightarrow> byte list \<Rightarrow> byte list" where
  "kill_spec k xs = take k xs @ rev (dropWhile (\<lambda>c. c \<noteq> 10) (rev (drop k xs)))"

definition edit_spec :: "int \<Rightarrow> nat \<times> byte list \<Rightarrow> nat \<times> byte list" where
  "edit_spec c = (\<lambda>(k, xs).
     if c = 26 \<or> c = 16 \<or> c = 0 then (k, xs)
     else if c = 21 then (k, kill_spec k xs)
     else if c = 8 \<or> c = 0x7f then (k, if length xs \<noteq> k then butlast xs else xs)
     else if length xs < INPUT_BUF then
       let c = (if c = 13 then 10 else c); xs = xs @ [word_of_int c]
       in (if c = 10 \<or> c = 4 \<or> length xs = INPUT_BUF then length xs else k, xs)
     else (k, xs))"



lemma consputc_ok:
  assumes "\<not> panicked s" and "cga_pos s < 24 * 80"
  obtains s' where "consputc c s = Inr s'" "in_buf s' = in_buf s" "in_r s' = in_r s" "in_w s' = in_w s" "in_e s' = in_e s"
    "\<not> panicked s'" "cga_pos s' < 24 * 80"
proof -
  obtain s' where s': "consputc c s = Inr s'" using assms(1) by (auto simp: consputc_def)
  have "cga_pos s' < 24 * 80" using s' assms cgaputc_pos [of "uartputc c s" c] cgaputc_pos [of "uartputc 8 (uartputc 32 (uartputc 8 s))" c]
    by (auto simp: consputc_def uartputc_def Let_def split: if_splits)
  then show ?thesis using that [OF s'] consputc_frame [OF s'] by simp
qed

lemma unat_sub_eq: "unat (a - r) = unat (b - r) \<longleftrightarrow> a = (b :: 32 word)"
  by (metis diff_add_cancel word_unat_eq_iff)

lemma ring_last:
  assumes "r \<noteq> w" and "N dvd 2 ^ 32"
  shows "last (ring_list N d r w) = d (unat (w - 1) mod N)"
proof -
  have eq: "w - 1 - r = (w - r) - 1" by simp
  have n: "unat (w - 1 - r) = unat (w - r) - 1" unfolding eq by (rule unat_minus_one) (use assms(1) in simp)
  have pos: "unat (w - r) \<noteq> 0" using assms(1) by (simp add: unat_eq_0)
  then have "last (ring_list N d r w) = d ((unat r + (unat (w - r) - 1)) mod N)"
    unfolding ring_list_def by (simp add: last_map last_upt)
  then show ?thesis using unat_index [OF assms(2), of "w - 1" r] n by simp
qed

lemma typed_state:
  assumes "in_buf s' = in_buf s" "in_r s' = in_r s" "in_e s' = in_e s"
  shows "typed s' = typed s"
  using assms by (simp add: typed_def)

lemma rub_out:
  assumes ok: "cons_ok s" and ne: "in_e s \<noteq> in_w s"
  obtains s' where "consputc BACKSPACE (s\<lparr>in_e := in_e s - 1\<rparr>) = Inr s'" "cons_ok s'" "typed s' = butlast (typed s)" "handed s' = handed s"
    "in_w s' = in_w s" "in_e s' = in_e s - 1" "in_r s' = in_r s"
proof -
  let ?t = "s\<lparr>in_e := in_e s - 1\<rparr>"
  have p: "\<not> panicked ?t" "cga_pos ?t < 24 * 80" using ok by (simp_all add: cons_ok_def)
  obtain s' where s': "consputc BACKSPACE ?t = Inr s'" "in_buf s' = in_buf ?t" "in_r s' = in_r ?t" "in_w s' = in_w ?t" "in_e s' = in_e ?t"
    "\<not> panicked s'" "cga_pos s' < 24 * 80" by (rule consputc_ok [OF p])
  have lt: "handed s < length (typed s)" using ok ne unat_sub_eq [of "in_w s" "in_r s" "in_e s"] by (auto simp: cons_ok_def typed_def handed_def)
  then have "in_r s \<noteq> in_e s" by (auto simp: typed_def)
  then have ty: "typed s' = butlast (typed s)" using ring_drop [of "in_r s" "in_e s" INPUT_BUF "in_buf s"] s' by (simp add: typed_def)
  have ha: "handed s' = handed s" using s' by (simp add: handed_def)
  have "cons_ok s'" using ok lt s' by (auto simp: cons_ok_def ty ha)
  then show ?thesis using that s' ty ha by simp
qed

lemma kill_spec_stop: "length xs = k \<or> (k \<le> length xs \<and> xs \<noteq> [] \<and> k < length xs \<and> last xs = 10) \<Longrightarrow> kill_spec k xs = xs"
proof (elim disjE conjE)
  assume "length xs = k"
  then show ?thesis by (simp add: kill_spec_def)
next
  assume a: "k < length xs" "last xs = 10"
  then have "drop k xs \<noteq> []" "last (drop k xs) = 10" by simp_all
  then have "rev (dropWhile (\<lambda>c. c \<noteq> 10) (rev (drop k xs))) = drop k xs" by (cases "drop k xs" rule: rev_cases) simp_all
  then show ?thesis by (simp add: kill_spec_def)
qed

lemma kill_spec_step:
  assumes "k < length xs" and "last xs \<noteq> 10"
  shows "kill_spec k xs = kill_spec k (butlast xs)"
proof -
  obtain ys y where xs: "xs = ys @ [y]" using assms(1) by (cases xs rule: rev_cases) auto
  then show ?thesis using assms by (simp add: kill_spec_def)
qed

lemma kill_line_spec:
  assumes "cons_ok s"
  shows "\<exists>s'. kill_line s = Inr s' \<and> cons_ok s' \<and> handed s' = handed s \<and> typed s' = kill_spec (handed s) (typed s)"
  using assms
proof (induction "unat (in_e s - in_w s)" arbitrary: s rule: less_induct)
  case less
  show ?case
  proof (cases "in_e s \<noteq> in_w s \<and> in_buf s (unat (in_e s - 1) mod INPUT_BUF) \<noteq> 10")
    case True
    then have ne: "in_e s \<noteq> in_w s" by simp
    obtain s1 where s1: "consputc BACKSPACE (s\<lparr>in_e := in_e s - 1\<rparr>) = Inr s1" "cons_ok s1" "typed s1 = butlast (typed s)" "handed s1 = handed s"
      "in_w s1 = in_w s" "in_e s1 = in_e s - 1" by (rule rub_out [OF less.prems ne]) blast
    have lt: "handed s < length (typed s)" using less.prems ne unat_sub_eq [of "in_w s" "in_r s" "in_e s"] by (auto simp: cons_ok_def typed_def handed_def)
    then have r: "in_r s \<noteq> in_e s" by (auto simp: typed_def)
    have last: "last (typed s) \<noteq> 10" using True ring_last [OF r, of INPUT_BUF "in_buf s"] by (simp add: typed_def)
    have "unat (in_e s1 - in_w s1) < unat (in_e s - in_w s)"
    proof -
      have e: "in_e s - 1 - in_w s = (in_e s - in_w s) - 1" by simp
      have "unat ((in_e s - in_w s) - 1) = unat (in_e s - in_w s) - 1" by (rule unat_minus_one) (use ne in simp)
      moreover have "unat (in_e s - in_w s) \<noteq> 0" using ne by (simp add: unat_eq_0)
      ultimately show ?thesis unfolding s1(5,6) e by linarith
    qed
    then obtain s' where "kill_line s1 = Inr s' \<and> cons_ok s' \<and> handed s' = handed s1 \<and> typed s' = kill_spec (handed s1) (typed s1)"
      using less.hyps s1(2) by blast
    then show ?thesis using True s1 kill_spec_step [OF lt last] by (simp add: kill_line.simps [of s])
  next
    case False
    have "kill_spec (handed s) (typed s) = typed s"
    proof (rule kill_spec_stop, cases "in_e s = in_w s")
      case True
      then show "length (typed s) = handed s \<or> handed s \<le> length (typed s) \<and> typed s \<noteq> [] \<and> handed s < length (typed s) \<and> last (typed s) = 10"
        by (simp add: typed_def handed_def)
    next
      case ne: False
      then have lt: "handed s < length (typed s)" using less.prems unat_sub_eq [of "in_w s" "in_r s" "in_e s"] by (auto simp: cons_ok_def typed_def handed_def)
      then have r: "in_r s \<noteq> in_e s" by (auto simp: typed_def)
      have "last (typed s) = 10" using False ne ring_last [OF r, of INPUT_BUF "in_buf s"] by (simp add: typed_def)
      then show "length (typed s) = handed s \<or> handed s \<le> length (typed s) \<and> typed s \<noteq> [] \<and> handed s < length (typed s) \<and> last (typed s) = 10"
        using lt by auto
    qed
    then show ?thesis using False less.prems by (auto simp: kill_line.simps [of s])
  qed
qed

lemma store_char:
  fixes c :: int
  assumes ok: "cons_ok s" and lt: "length (typed s) < INPUT_BUF"
  defines "t \<equiv> s\<lparr>in_buf := (in_buf s)(unat (in_e s) mod INPUT_BUF := word_of_int c), in_e := in_e s + 1\<rparr>"
  shows "\<exists>s'. bnd (consputc c t) (\<lambda>s. Inr (if c = 10 \<or> c = 4 \<or> in_e s = in_r s + 128 then s\<lparr>in_w := in_e s\<rparr> else s)) = Inr s' \<and> cons_ok s' \<and>
    typed s' = typed s @ [word_of_int c] \<and>
    handed s' = (if c = 10 \<or> c = 4 \<or> length (typed s @ [word_of_int c :: byte]) = INPUT_BUF then length (typed s @ [word_of_int c :: byte]) else handed s)"
proof -
  have p: "\<not> panicked t" "cga_pos t < 24 * 80" using ok by (simp_all add: cons_ok_def t_def)
  obtain s1 where s1: "consputc c t = Inr s1" "in_buf s1 = in_buf t" "in_r s1 = in_r t" "in_w s1 = in_w t" "in_e s1 = in_e t"
    "\<not> panicked s1" "cga_pos s1 < 24 * 80" by (rule consputc_ok [OF p])
  have n: "unat (in_e s - in_r s) < INPUT_BUF" using lt by (simp add: typed_def)
  have ty: "typed s1 = typed s @ [word_of_int c]" using ring_put [OF n, of "in_buf s" "word_of_int c"] s1 by (simp add: typed_def t_def)
  have full: "in_e s1 = in_r s1 + 128 \<longleftrightarrow> length (typed s1) = INPUT_BUF"
  proof -
    have "in_e s1 = in_r s1 + 128 \<longleftrightarrow> unat (in_e s1 - in_r s1) = unat (in_r s1 + 128 - in_r s1)" unfolding unat_sub_eq ..
    then show ?thesis by (simp add: typed_def)
  qed
  have ha: "handed s1 = handed s" using s1 by (simp add: handed_def t_def)
  have len: "length (typed s1) = Suc (length (typed s))" by (simp add: ty)
  let ?s = "if c = 10 \<or> c = 4 \<or> in_e s1 = in_r s1 + 128 then s1\<lparr>in_w := in_e s1\<rparr> else s1"
  have ty2: "typed ?s = typed s1" by (simp add: typed_def)
  have ha2: "handed ?s = (if c = 10 \<or> c = 4 \<or> length (typed s1) = INPUT_BUF then length (typed s1) else handed s)"
    using ha by (simp add: full) (simp add: handed_def typed_def)
  have "cons_ok ?s" unfolding cons_ok_def ty2 ha2 using ok s1(6,7) len lt by (auto simp: cons_ok_def)
  then show ?thesis using s1(1) ty ty2 ha2 by simp
qed

text \<open>C10: the console line editor implements editing of a list: for every input character, erasing, killing the line,
  echoing and handing over complete lines act on the ring buffer as on the list of characters typed and not
  yet read, without ever losing or reordering characters, and the cursor stays on the screen.\<close>

theorem consoleintr_refines_editing:
  assumes "cons_ok s"
  shows "\<exists>s'. consoleintr1 c s = Inr s' \<and> cons_ok s' \<and> (handed s', typed s') = edit_spec c (handed s, typed s)"
proof -
  have room: "in_e s - in_r s < 128 \<longleftrightarrow> length (typed s) < INPUT_BUF" by (simp add: typed_def word_less_nat_alt)
  consider (none) "c = 26 \<or> c = 16 \<or> c = 0" | (kill) "c = 21" | (bs) "c = 8 \<or> c = 0x7f"
    | (plain) "c \<noteq> 26 \<and> c \<noteq> 16 \<and> c \<noteq> 0 \<and> c \<noteq> 21 \<and> c \<noteq> 8 \<and> c \<noteq> 0x7f" by blast
  then show ?thesis
  proof cases
    case none
    then show ?thesis using assms by (auto simp: consoleintr1_def edit_spec_def)
  next
    case kill
    then show ?thesis using kill_line_spec [OF assms] by (auto simp: consoleintr1_def edit_spec_def)
  next
    case bs
    show ?thesis
    proof (cases "in_e s = in_w s")
      case True
      then have "length (typed s) = handed s" by (simp add: typed_def handed_def)
      then show ?thesis using True bs assms by (auto simp: consoleintr1_def edit_spec_def)
    next
      case False
      then have "length (typed s) \<noteq> handed s" using unat_sub_eq by (simp add: typed_def handed_def)
      moreover obtain s' where "consputc BACKSPACE (s\<lparr>in_e := in_e s - 1\<rparr>) = Inr s'" "cons_ok s'" "typed s' = butlast (typed s)" "handed s' = handed s"
        by (rule rub_out [OF assms False]) blast
      ultimately show ?thesis using False bs by (auto simp: consoleintr1_def edit_spec_def)
    qed
  next
    case plain
    show ?thesis
    proof (cases "length (typed s) < INPUT_BUF")
      case True
      define d where "d = (if c = 13 then 10 else c)"
      have e1: "consoleintr1 c s = bnd (consputc d (s\<lparr>in_buf := (in_buf s)(unat (in_e s) mod INPUT_BUF := word_of_int d), in_e := in_e s + 1\<rparr>))
          (\<lambda>s. Inr (if d = 10 \<or> d = 4 \<or> in_e s = in_r s + 128 then s\<lparr>in_w := in_e s\<rparr> else s))"
        using plain room True by (simp add: consoleintr1_def Let_def d_def)
      have e2: "edit_spec c (handed s, typed s) =
          (if d = 10 \<or> d = 4 \<or> length (typed s @ [word_of_int d :: byte]) = INPUT_BUF then length (typed s @ [word_of_int d :: byte]) else handed s,
           typed s @ [word_of_int d])"
        using plain True by (simp add: edit_spec_def Let_def d_def)
      show ?thesis unfolding e1 e2 prod.inject using store_char [OF assms True, of d] by blast
    next
      case False
      then show ?thesis using plain room assms by (auto simp: consoleintr1_def edit_spec_def)
    qed
  qed
qed

definition demo_cons :: cons where
  "demo_cons = \<lparr>in_buf = (\<lambda>_. 0), in_r = 0xFFFFFFFF, in_w = 0xFFFFFFFF, in_e = 0xFFFFFFFF, cga_pos = 5, crt = (\<lambda>_. 0), uart_out = [], panicked = False\<rparr>"

theorem consoleintr_refines_editing_witness:
  "\<exists>s'. consoleintr1 97 demo_cons = Inr s' \<and> cons_ok s' \<and> (handed s', typed s') = edit_spec 97 (handed demo_cons, typed demo_cons)"
  by (rule consoleintr_refines_editing) (simp add: cons_ok_def demo_cons_def handed_def typed_def)

text \<open>C33: the screen stays in bounds: whatever is printed, the cursor stays within the 24 rows that scroll and no
  cell outside the 25 rows of 80 columns is written.\<close>

theorem cgaputc_in_bounds:
  assumes "cga_pos s < 24 * 80"
  shows "cga_pos (cgaputc c s) < 24 * 80 \<and> (\<forall>i\<ge>25 * 80. crt (cgaputc c s) i = crt s i)"
proof -
  have "crt (cgaputc c s) i = crt s i" if "i \<ge> 25 * 80" for i
  proof -
    have "cga_pos (cgaputc c s) \<noteq> i" using cgaputc_pos [OF assms, of c] that by linarith
    moreover have "snd (cga_scroll (cga_store c (cga_pos s) (crt s))) i = crt s i"
      using cga_scroll_bounds(2) [OF cga_store_bounds(1) [OF assms] that] cga_store_bounds(2) [OF assms that] by simp
    ultimately show ?thesis by (auto simp: cgaputc_def split: prod.splits)
  qed
  then show ?thesis using cgaputc_pos [OF assms] by blast
qed

theorem cgaputc_in_bounds_witness:
  "cga_pos (cgaputc 10 demo_cons) < 24 * 80 \<and> crt (cgaputc 10 demo_cons) 2000 = crt demo_cons 2000"
  using cgaputc_in_bounds [of demo_cons 10] by (simp add: demo_cons_def)

end
