(* ===== verification/Kbd.thy ===== *)
theory Kbd
  imports Prelude
begin

text \<open>
  The keyboard driver, \<^verbatim>\<open>kbd.c\<close> and the tables of \<^verbatim>\<open>kbd.h\<close>. The ports are arguments: the status byte and the
  scan code.
\<close>

unbundle bit_operations_syntax

section \<open>Tables\<close>

abbreviation (input) SHIFT :: nat where "SHIFT \<equiv> 1"
abbreviation (input) CTL :: nat where "CTL \<equiv> 2"
abbreviation (input) ALT :: nat where "ALT \<equiv> 4"
abbreviation (input) CAPSLOCK :: nat where "CAPSLOCK \<equiv> 8"
abbreviation (input) NUMLOCK :: nat where "NUMLOCK \<equiv> 16"
abbreviation (input) SCROLLLOCK :: nat where "SCROLLLOCK \<equiv> 32"
abbreviation (input) E0ESC :: nat where "E0ESC \<equiv> 64"

definition shiftcode :: "nat \<Rightarrow> nat" where
  "shiftcode d = (if d = 0x1D then CTL else if d = 0x2A then SHIFT else if d = 0x36 then SHIFT
     else if d = 0x38 then ALT else if d = 0x9D then CTL else if d = 0xB8 then ALT else 0)"

definition togglecode :: "nat \<Rightarrow> nat" where
  "togglecode d = (if d = 0x3A then CAPSLOCK else if d = 0x45 then NUMLOCK else if d = 0x46 then SCROLLLOCK else 0)"

text \<open>A table given by its first entries and some later ones; the rest of the 256 entries is 0.\<close>

definition table :: "nat list \<Rightarrow> (nat \<times> nat) list \<Rightarrow> nat \<Rightarrow> nat" where
  "table xs ys d = (if d < length xs then xs ! d else case map_of ys d of Some v \<Rightarrow> v | None \<Rightarrow> 0)"

definition keypad :: "nat \<Rightarrow> nat \<Rightarrow> (nat \<times> nat) list" where
  "keypad enter slash = [(0x9C, enter), (0xB5, slash), (0xC8, 0xE2), (0xD0, 0xE3), (0xC9, 0xE6), (0xD1, 0xE7),
     (0xCB, 0xE4), (0xCD, 0xE5), (0x97, 0xE0), (0xCF, 0xE1), (0xD2, 0xE8), (0xD3, 0xE9)]"

definition normalmap :: "nat \<Rightarrow> nat" where
  "normalmap = table
    [0, 0x1B, 49, 50, 51, 52, 53, 54, 55, 56, 57, 48, 45, 61, 8, 9,
     113, 119, 101, 114, 116, 121, 117, 105, 111, 112, 91, 93, 10, 0, 97, 115,
     100, 102, 103, 104, 106, 107, 108, 59, 39, 96, 0, 92, 122, 120, 99, 118,
     98, 110, 109, 44, 46, 47, 0, 42, 0, 32, 0, 0, 0, 0, 0, 0,
     0, 0, 0, 0, 0, 0, 0, 55, 56, 57, 45, 52, 53, 54, 43, 49,
     50, 51, 48, 46, 0, 0, 0, 0] (keypad 10 47)"

definition shiftmap :: "nat \<Rightarrow> nat" where
  "shiftmap = table
    [0, 27, 33, 64, 35, 36, 37, 94, 38, 42, 40, 41, 95, 43, 8, 9,
     81, 87, 69, 82, 84, 89, 85, 73, 79, 80, 123, 125, 10, 0, 65, 83,
     68, 70, 71, 72, 74, 75, 76, 58, 34, 126, 0, 124, 90, 88, 67, 86,
     66, 78, 77, 60, 62, 63, 0, 42, 0, 32, 0, 0, 0, 0, 0, 0,
     0, 0, 0, 0, 0, 0, 0, 55, 56, 57, 45, 52, 53, 54, 43, 49,
     50, 51, 48, 46, 0, 0, 0, 0] (keypad 10 47)"

text \<open>\<^verbatim>\<open>C('/')\<close> is -17, stored in an unsigned byte.\<close>

definition ctlmap :: "nat \<Rightarrow> nat" where
  "ctlmap = table
    [0, 0, 0, 0, 0, 0, 0, 0, 0, 0, 0, 0, 0, 0, 0, 0,
     17, 23, 5, 18, 20, 25, 21, 9, 15, 16, 0, 0, 13, 0, 1, 19,
     4, 6, 7, 8, 10, 11, 12, 0, 0, 0, 0, 28, 26, 24, 3, 22,
     2, 14, 13, 0, 0, 239, 0, 0] (keypad 13 239)"

section \<open>Reading a key\<close>

definition charcode :: "nat \<Rightarrow> nat \<Rightarrow> nat" where
  "charcode i = (if i = 0 then normalmap else if i = 1 then shiftmap else ctlmap)"

text \<open>Clearing bits of \<^verbatim>\<open>shift\<close>.\<close>

definition clear_bits :: "nat \<Rightarrow> nat \<Rightarrow> nat" where
  "clear_bits x m = x - (x AND m)"

definition kbdgetc :: "nat \<Rightarrow> nat \<Rightarrow> nat \<Rightarrow> int \<times> nat" where
  "kbdgetc st data shift =
     (if st AND 1 = 0 then (- 1, shift)
      else if data = 0xE0 then (0, shift OR E0ESC)
      else if data AND 0x80 \<noteq> 0 then
        let data = (if shift AND E0ESC \<noteq> 0 then data else data AND 0x7F)
        in (0, clear_bits shift (shiftcode data OR E0ESC))
      else
        let (data, shift) = (if shift AND E0ESC \<noteq> 0 then (data OR 0x80, clear_bits shift E0ESC) else (data, shift));
            shift = (shift OR shiftcode data) XOR togglecode data;
            c = charcode (shift AND (CTL OR SHIFT)) data;
            c = (if shift AND CAPSLOCK \<noteq> 0 then
                   (if 97 \<le> c \<and> c \<le> 122 then c - 32 else if 65 \<le> c \<and> c \<le> 90 then c + 32 else c)
                 else c)
        in (int c, shift))"

end
