(* ===== verification/Sys.thy ===== *)
theory Sys
  imports File Proc Console
begin

text \<open>
  The state of the whole kernel, access to user memory through the page table of the current process, the
  arguments of system calls (first part of \<^verbatim>\<open>syscall.c\<close>) and the console as a device.
\<close>

section \<open>State\<close>

record sys = kern +
  ptable :: ptab
  curp :: nat
  ticks :: "32 word"
  console :: cons

definition cur :: "sys \<Rightarrow> proc" where
  "cur s = procs (ptable s) (curp s)"

definition upd_cur :: "(proc \<Rightarrow> proc) \<Rightarrow> sys \<Rightarrow> sys" where
  "upd_cur f s = s\<lparr>ptable := upd_proc (curp s) f (ptable s)\<rparr>"

definition u64 :: "nat \<Rightarrow> nat" where
  "u64 n = n mod 2 ^ 64"

section \<open>User memory\<close>

text \<open>The address at which the kernel finds a byte of user memory; a byte that is not mapped faults.\<close>

definition user_addr :: "nat \<Rightarrow> nat \<Rightarrow> vm \<Rightarrow> nat res" where
  "user_addr pgdir a v =
     (case fst (walkpgdir pgdir a False v) of
        None \<Rightarrow> Inl OutOfBounds
      | Some pte \<Rightarrow> if present (ldq pte v) then Inr (P2V (PTE_ADDR (ldq pte v)) + a mod PGSIZE) else Inl OutOfBounds)"

fun uread :: "nat \<Rightarrow> nat \<Rightarrow> sys \<Rightarrow> byte list res" where
  "uread a 0 s = Inr []"
| "uread a (Suc n) s =
     bnd (user_addr (p_pgdir (cur s)) a (kvm s)) (\<lambda>k. bnd (uread (a + 1) n s) (\<lambda>cs. Inr (kmemory (kvm s) k # cs)))"

fun uwrite :: "nat \<Rightarrow> byte list \<Rightarrow> sys \<Rightarrow> sys res" where
  "uwrite a [] s = Inr s"
| "uwrite a (c # cs) s =
     bnd (user_addr (p_pgdir (cur s)) a (kvm s)) (\<lambda>k.
       uwrite (a + 1) cs (s\<lparr>kvm := (kvm s)\<lparr>kmemory := (kmemory (kvm s))(k := c)\<rparr>\<rparr>))"

definition le_bytes :: "nat \<Rightarrow> nat \<Rightarrow> byte list" where
  "le_bytes k v = map (le_put k v zero_block 0) [0..<k]"

definition le_val :: "byte list \<Rightarrow> nat \<Rightarrow> nat \<Rightarrow> nat" where
  "le_val cs i k = le_get k (\<lambda>j. cs ! j) i"

section \<open>Arguments\<close>

definition fetchint :: "nat \<Rightarrow> sys \<Rightarrow> int option res" where
  "fetchint addr s =
     (if addr \<ge> p_sz (cur s) \<or> u64 (addr + 4) > p_sz (cur s) then Inr None
      else bnd (uread addr 4 s) (\<lambda>cs. Inr (Some (s32 (int (le_val cs 0 4))))))"

definition fetchaddr :: "nat \<Rightarrow> sys \<Rightarrow> nat option res" where
  "fetchaddr addr s =
     (if addr \<ge> p_sz (cur s) \<or> u64 (addr + 8) > p_sz (cur s) then Inr None
      else bnd (uread addr 8 s) (\<lambda>cs. Inr (Some (le_val cs 0 8))))"

text \<open>\<^verbatim>\<open>fetchstr\<close>: the string itself stands for the pointer to it.\<close>

function fetchstr_loop :: "nat \<Rightarrow> nat \<Rightarrow> sys \<Rightarrow> byte list option res" where
  "fetchstr_loop a ep s =
     (if a < ep then
        bnd (user_addr (p_pgdir (cur s)) a (kvm s)) (\<lambda>k.
          let c = kmemory (kvm s) k in
          if c = 0 then Inr (Some [])
          else bnd (fetchstr_loop (a + 1) ep s) (\<lambda>r. Inr (map_option (Cons c) r)))
      else Inr None)"
  by pat_completeness auto
termination by (relation "measure (\<lambda>(a, ep, _). ep - a)") auto

declare fetchstr_loop.simps [simp del]

definition fetchstr :: "nat \<Rightarrow> sys \<Rightarrow> byte list option res" where
  "fetchstr addr s = (if addr \<ge> p_sz (cur s) then Inr None else fetchstr_loop addr (p_sz (cur s)) s)"

definition fetcharg :: "nat \<Rightarrow> sys \<Rightarrow> nat res" where
  "fetcharg n s =
     (let tf = p_tf (cur s) in
      if n = 0 then Inr (tf_rdi tf) else if n = 1 then Inr (tf_rsi tf) else if n = 2 then Inr (tf_rdx tf)
      else if n = 3 then Inr (tf_r10 tf) else if n = 4 then Inr (tf_r8 tf) else if n = 5 then Inr (tf_r9 tf)
      else Inl (Panic ''failed fetch''))"

definition argint :: "nat \<Rightarrow> sys \<Rightarrow> int res" where
  "argint n s = bnd (fetcharg n s) (\<lambda>v. Inr (s32 (int v)))"

definition argaddr :: "nat \<Rightarrow> sys \<Rightarrow> nat res" where
  "argaddr n s = fetcharg n s"

text \<open>The bounds are checked on the low 32 bits of the pointer.\<close>

definition argptr :: "nat \<Rightarrow> int \<Rightarrow> sys \<Rightarrow> nat option res" where
  "argptr n sz s =
     bnd (argaddr n s) (\<lambda>i.
       Inr (if sz < 0 \<or> u32 i \<ge> p_sz (cur s) \<or> u32 (u32 i + nat sz) > p_sz (cur s) then None else Some i))"

definition argstr :: "nat \<Rightarrow> sys \<Rightarrow> byte list option res" where
  "argstr n s = bnd (argint n s) (\<lambda>a. fetchstr (nat (a mod 2 ^ 64)) s)"

section \<open>The console device\<close>

definition console_read :: "nat \<Rightarrow> nat \<Rightarrow> nat \<Rightarrow> sys \<Rightarrow> ((int \<times> byte list) \<times> sys) res" where
  "console_read ip off n s =
     bnd (iunlock ip s) (\<lambda>s.
       case consoleread (p_killed (cur s)) (s32 (int n)) (console s) of
         ((None, _), _) \<Rightarrow> Inl Sleeps
       | ((Some r, cs), c) \<Rightarrow> bnd (ilock ip (s\<lparr>console := c\<rparr>)) (\<lambda>s. Inr ((r, cs), s)))"

definition console_write :: "nat \<Rightarrow> nat \<Rightarrow> byte list \<Rightarrow> sys \<Rightarrow> (int \<times> sys) res" where
  "console_write ip off buf s =
     bnd (iunlock ip s) (\<lambda>s.
     bnd (consolewrite buf (console s)) (\<lambda>(r, c).
     bnd (ilock ip (s\<lparr>console := c\<rparr>)) (\<lambda>s. Inr (r, s))))"

text \<open>The device table after \<^verbatim>\<open>consoleinit\<close>: the console has major number 1.\<close>

definition devs :: "sys devsw" where
  "devs = \<lparr>dev_read = (\<lambda>m. if m = 1 then Some console_read else None), dev_write = (\<lambda>m. if m = 1 then Some console_write else None)\<rparr>"

end
