(* ===== verification/Kproc.thy ===== *)
theory Kproc
  imports Sys
begin

text \<open>
  Processes with their resources: \<^verbatim>\<open>allocproc\<close>, \<^verbatim>\<open>userinit\<close>, \<^verbatim>\<open>growproc\<close>, \<^verbatim>\<open>fork\<close>, \<^verbatim>\<open>exit\<close> and \<^verbatim>\<open>wait\<close> of
  \<^verbatim>\<open>proc.c\<close>, the calls of \<^verbatim>\<open>sysproc.c\<close> and the trap handler of \<^verbatim>\<open>trap.c\<close>. The trap frame is a member of the
  process instead of the top of its kernel stack, and the saved context that \<^verbatim>\<open>swtch.S\<close> uses is left out.
\<close>

section \<open>Creating processes\<close>

definition allocproc :: "sys \<Rightarrow> nat option \<times> sys" where
  "allocproc s =
     (case alloc_slot (ptable s) of
        (None, t) \<Rightarrow> (None, s)
      | (Some p, t) \<Rightarrow> (case kalloc (kvm s) of (k, v) \<Rightarrow>
          if k = 0 then (None, s\<lparr>ptable := upd_proc p (\<lambda>x. x\<lparr>p_kstack := 0, p_state := UNUSED\<rparr>) t, kvm := v\<rparr>)
          else (Some p, s\<lparr>ptable := upd_proc p (\<lambda>x. x\<lparr>p_kstack := k\<rparr>) t, kvm := v\<rparr>)))"

definition upd :: "nat \<Rightarrow> (proc \<Rightarrow> proc) \<Rightarrow> sys \<Rightarrow> sys" where
  "upd p f s = s\<lparr>ptable := upd_proc p f (ptable s)\<rparr>"

definition initcode_name :: "byte list" where
  "initcode_name = [105, 110, 105, 116, 99, 111, 100, 101, 0]"

text \<open>\<open>code\<close> is the assembled \<^verbatim>\<open>initcode.S\<close>; without a free slot the null pointer would be used.\<close>

definition userinit :: "byte list \<Rightarrow> sys \<Rightarrow> sys res" where
  "userinit code s =
     (case allocproc s of
        (None, s) \<Rightarrow> Inl OutOfBounds
      | (Some p, s) \<Rightarrow>
          let s = s\<lparr>ptable := (ptable s)\<lparr>initproc := Some p\<rparr>\<rparr> in
          bnd (on_vm_val setupkvm s) (\<lambda>(pgdir, s).
          let s = upd p (\<lambda>x. x\<lparr>p_pgdir := pgdir\<rparr>) s in
          if pgdir = 0 then Inl (Panic ''userinit: out of memory?'')
          else bnd (on_vm (inituvm pgdir code) s) (\<lambda>s.
          let s = upd p (\<lambda>x. x\<lparr>p_sz := PGSIZE * 2,
                p_tf := \<lparr>tf_rax = 0, tf_rcx = PGSIZE, tf_rdx = 0, tf_rsi = 0, tf_rdi = 0, tf_r8 = 0, tf_r9 = 0, tf_r10 = 0,
                  tf_r11 = 0x200, tf_rip = 0, tf_cs = 0, tf_rsp = PGSIZE * 2, tf_trapno = 0\<rparr>,
                p_name := initcode_name\<rparr>) s in
          bnd (namei devs 0 [slash] s) (\<lambda>(ip, s).
            Inr (upd p (\<lambda>x. x\<lparr>p_cwd := ip, p_state := RUNNABLE\<rparr>) s)))))"

definition growproc :: "int \<Rightarrow> sys \<Rightarrow> (int \<times> sys) res" where
  "growproc n s =
     (let sz = p_sz (cur s); pgdir = p_pgdir (cur s); new = nat ((int sz + n) mod 2 ^ 64) in
      bnd (if n > 0 then on_vm_val (allocuvm pgdir sz new) s
           else if n < 0 then on_vm_val (deallocuvm pgdir sz new) s
           else Inr (sz, s)) (\<lambda>(sz, s).
        if n \<noteq> 0 \<and> sz = 0 then Inr (- 1, s)
        else let s = upd_cur (\<lambda>x. x\<lparr>p_sz := sz\<rparr>) s in
          bnd (on_vm (switchuvm (p_pgdir (cur s)) (p_kstack (cur s))) s) (\<lambda>s. Inr (0, s))))"

text \<open>The loop of \<^verbatim>\<open>fork\<close> over the open files.\<close>

definition dup_files :: "nat \<Rightarrow> sys \<Rightarrow> sys res" where
  "dup_files np s =
     rfold (\<lambda>i s. case p_ofile (cur s) i of
         None \<Rightarrow> Inr s
       | Some f \<Rightarrow> bnd (filedup f s) (\<lambda>s. Inr (upd np (\<lambda>x. x\<lparr>p_ofile := (p_ofile x)(i := Some f)\<rparr>) s))) [0..<NOFILE] s"

definition fork :: "sys \<Rightarrow> (int \<times> sys) res" where
  "fork s =
     (case allocproc s of
        (None, s) \<Rightarrow> Inr (- 1, s)
      | (Some np, s) \<Rightarrow>
          bnd (on_vm_val (copyuvm (p_pgdir (cur s)) (p_sz (cur s))) s) (\<lambda>(d, s).
          let s = upd np (\<lambda>x. x\<lparr>p_pgdir := d\<rparr>) s in
          if d = 0 then
            bnd (on_vm (\<lambda>v. kfree (kend v) (p_kstack (procs (ptable s) np)) v) s) (\<lambda>s.
              Inr (- 1, upd np (\<lambda>x. x\<lparr>p_kstack := 0, p_state := UNUSED\<rparr>) s))
          else
            let c = cur s;
                s = upd np (\<lambda>x. x\<lparr>p_sz := p_sz c, p_parent := Some (curp s), p_tf := (p_tf c)\<lparr>tf_rax := 0\<rparr>\<rparr>) s in
            bnd (dup_files np s) (\<lambda>s.
              let s = (case p_cwd (cur s) of Some ip \<Rightarrow> idup ip s | None \<Rightarrow> s);
                  s = upd np (\<lambda>x. x\<lparr>p_cwd := p_cwd (cur s), p_name := p_name (cur s)\<rparr>) s;
                  pid = p_pid (procs (ptable s) np)
              in Inr (pid, upd np (\<lambda>x. x\<lparr>p_state := RUNNABLE\<rparr>) s))))"

section \<open>Ending processes\<close>

definition close_files :: "sys \<Rightarrow> sys res" where
  "close_files s =
     rfold (\<lambda>fd s. case p_ofile (cur s) fd of
         None \<Rightarrow> Inr s
       | Some f \<Rightarrow> bnd (fileclose f s) (\<lambda>s. Inr (upd_cur (\<lambda>x. x\<lparr>p_ofile := (p_ofile x)(fd := None)\<rparr>) s))) [0..<NOFILE] s"

text \<open>\<^verbatim>\<open>exit\<close> up to its call of \<^verbatim>\<open>sched\<close>.\<close>

definition exit :: "sys \<Rightarrow> sys res" where
  "exit s =
     (if initproc (ptable s) = Some (curp s) then Inl (Panic ''init exiting'')
      else bnd (close_files s) (\<lambda>s.
        bnd (begin_op s) (\<lambda>s.
        bnd (case p_cwd (cur s) of Some ip \<Rightarrow> iput ip s | None \<Rightarrow> Inl OutOfBounds) (\<lambda>s.
        bnd (end_op s) (\<lambda>s.
          let s = upd_cur (\<lambda>x. x\<lparr>p_cwd := None\<rparr>) s
          in Inr (s\<lparr>ptable := exit_table (curp s) (ptable s)\<rparr>))))))"

text \<open>One turn of \<^verbatim>\<open>wait\<close>: \<open>None\<close> means that the process has gone to sleep.\<close>

definition wait :: "sys \<Rightarrow> (int option \<times> sys) res" where
  "wait s =
     (case wait_table (curp s) (ptable s) of
        (Reaped pid p, t) \<Rightarrow>
          bnd (on_vm (\<lambda>v. kfree (kend v) (p_kstack (procs (ptable s) p)) v) s) (\<lambda>s'.
          bnd (on_vm (freevm (p_pgdir (procs (ptable s) p))) s') (\<lambda>s'.
            Inr (Some pid, s'\<lparr>ptable := t\<rparr>)))
      | (NoChild, t) \<Rightarrow> Inr (Some (- 1), s)
      | (MustSleep, t) \<Rightarrow> Inr (None, s\<lparr>ptable := t\<rparr>))"

section \<open>System calls of sysproc.c\<close>

definition sys_kill :: "sys \<Rightarrow> (int \<times> sys) res" where
  "sys_kill s = bnd (argint 0 s) (\<lambda>pid. case kill pid (ptable s) of (r, t) \<Rightarrow> Inr (r, s\<lparr>ptable := t\<rparr>))"

definition sys_getpid :: "sys \<Rightarrow> (int \<times> sys) res" where
  "sys_getpid s = Inr (p_pid (cur s), s)"

definition sys_sbrk :: "sys \<Rightarrow> (int \<times> sys) res" where
  "sys_sbrk s =
     bnd (argaddr 0 s) (\<lambda>n.
       let addr = p_sz (cur s); n = (int n + 2 ^ 63) mod 2 ^ 64 - 2 ^ 63 in
       bnd (growproc n s) (\<lambda>(r, s). Inr (if r < 0 then - 1 else int addr, s)))"

text \<open>One turn of \<^verbatim>\<open>sys_sleep\<close>, \<open>ticks0\<close> being the time of the call; \<^verbatim>\<open>ticks - ticks0 < n\<close> compares unsigned values.\<close>

definition sys_sleep :: "32 word \<Rightarrow> sys \<Rightarrow> (int option \<times> sys) res" where
  "sys_sleep ticks0 s =
     bnd (argint 0 s) (\<lambda>n.
       if unat (ticks s - ticks0) < nat (n mod 2 ^ 32) then
         (if p_killed (cur s) then Inr (Some (- 1), s)
          else Inr (None, s\<lparr>ptable := go_to_sleep TicksChan (curp s) (ptable s)\<rparr>))
       else Inr (Some 0, s))"

definition sys_uptime :: "sys \<Rightarrow> (int \<times> sys) res" where
  "sys_uptime s = Inr (sint (ticks s), s)"

definition forkret :: "bool \<Rightarrow> sys \<Rightarrow> sys res" where
  "forkret first s = (if first then bnd (iinit ROOTDEV s) (initlog ROOTDEV) else Inr s)"

section \<open>Traps\<close>

text \<open>What the end of \<^verbatim>\<open>trap\<close> makes the process do next.\<close>

datatype after_trap = Resume | Exits | Yields

definition after_trap :: "nat \<Rightarrow> sys \<Rightarrow> after_trap" where
  "after_trap trapno s =
     (if p_killed (cur s) \<and> tf_cs (p_tf (cur s)) mod 4 = 3 then Exits
      else if p_state (cur s) = RUNNING \<and> trapno = 32 then Yields
      else Resume)"

text \<open>The handlers, on CPU \<open>cpu\<close> with a current process; \<open>keys\<close> are the characters the keyboard or the serial port
  delivers.\<close>

definition trap :: "nat \<Rightarrow> int list \<Rightarrow> nat \<Rightarrow> sys \<Rightarrow> (after_trap \<times> sys) res" where
  "trap cpu keys trapno s =
     bnd (if trapno = 32 then
            Inr (if cpu = 0 then s\<lparr>ticks := ticks s + 1, ptable := wakeup TicksChan (ptable s)\<rparr> else s)
          else if trapno = 32 + 14 then Inr s
          else if trapno = 32 + 15 then Inr s
          else if trapno = 32 + 1 \<or> trapno = 32 + 4 then
            bnd (consoleintr keys (console s)) (\<lambda>c. Inr (s\<lparr>console := c\<rparr>))
          else if trapno = 32 + 7 \<or> trapno = 32 + 31 then Inr s
          else if tf_cs (p_tf (cur s)) mod 4 = 0 then Inl (Panic ''trap'')
          else Inr (upd_cur (\<lambda>x. x\<lparr>p_killed := True\<rparr>) s)) (\<lambda>s.
       Inr (after_trap trapno s, s))"

end
