(* ===== verification/Sysfile.thy ===== *)
theory Sysfile
  imports Kproc
begin

text \<open>
  The system calls on files, \<^verbatim>\<open>sysfile.c\<close>. Each returns the value of the call; the user pointers they
  are given are read and written through the page table of the process.
\<close>

section \<open>Descriptors\<close>

definition argfd :: "nat \<Rightarrow> sys \<Rightarrow> (nat \<times> nat) option res" where
  "argfd n s =
     bnd (argint n s) (\<lambda>fd.
       Inr (if fd < 0 \<or> fd \<ge> int NOFILE then None
            else map_option (\<lambda>f. (nat fd, f)) (p_ofile (cur s) (nat fd))))"

definition fdalloc :: "nat \<Rightarrow> sys \<Rightarrow> int \<times> sys" where
  "fdalloc f s =
     (case List.find (\<lambda>fd. p_ofile (cur s) fd = None) [0..<NOFILE] of
        Some fd \<Rightarrow> (int fd, upd_cur (\<lambda>x. x\<lparr>p_ofile := (p_ofile x)(fd := Some f)\<rparr>) s)
      | None \<Rightarrow> (- 1, s))"

definition sys_dup :: "sys \<Rightarrow> (int \<times> sys) res" where
  "sys_dup s =
     bnd (argfd 0 s) (\<lambda>a. case a of None \<Rightarrow> Inr (- 1, s)
     | Some (_, f) \<Rightarrow> (case fdalloc f s of (fd, s) \<Rightarrow>
         if fd < 0 then Inr (- 1, s) else bnd (filedup f s) (\<lambda>s. Inr (fd, s))))"

text \<open>\<^verbatim>\<open>argfd(0, 0, &f) < 0 || argint(2, &n) < 0 || argptr(1, &p, n) < 0\<close>.\<close>

definition rw_args :: "sys \<Rightarrow> (nat \<times> int \<times> nat) option res" where
  "rw_args s =
     bnd (argfd 0 s) (\<lambda>a. case a of None \<Rightarrow> Inr None
     | Some (_, f) \<Rightarrow> bnd (argint 2 s) (\<lambda>n. bnd (argptr 1 n s) (\<lambda>p. Inr (map_option (\<lambda>p. (f, n, p)) p))))"

definition sys_read :: "sys \<Rightarrow> (int \<times> sys) res" where
  "sys_read s =
     bnd (rw_args s) (\<lambda>a. case a of None \<Rightarrow> Inr (- 1, s)
     | Some (f, n, p) \<Rightarrow> bnd (fileread devs (p_killed (cur s)) f n s) (\<lambda>((r, bytes), s).
         bnd (uwrite p bytes s) (\<lambda>s. Inr (r, s))))"

definition sys_write :: "sys \<Rightarrow> (int turn \<times> sys) res" where
  "sys_write s =
     bnd (rw_args s) (\<lambda>a. case a of None \<Rightarrow> Inr (Done (- 1), s)
     | Some (f, n, p) \<Rightarrow> bnd (uread p (nat n) s) (\<lambda>bytes.
         filewrite devs (p_killed (cur s)) f (\<lambda>i. bytes ! i) n s))"

definition sys_close :: "sys \<Rightarrow> (int \<times> sys) res" where
  "sys_close s =
     bnd (argfd 0 s) (\<lambda>a. case a of None \<Rightarrow> Inr (- 1, s)
     | Some (fd, f) \<Rightarrow> bnd (fileclose f (upd_cur (\<lambda>x. x\<lparr>p_ofile := (p_ofile x)(fd := None)\<rparr>) s)) (\<lambda>s. Inr (0, s)))"

text \<open>\<^verbatim>\<open>struct stat\<close> in memory: 20 bytes with padding after the two \<^verbatim>\<open>short\<close> members.\<close>

definition stat_bytes :: "stat \<Rightarrow> byte list" where
  "stat_bytes st =
     (let d = put_s16 (st_type st) zero_block 0; d = put_s32 (st_dev st) d 4; d = put_u32 (st_ino st) d 8;
          d = put_s16 (st_nlink st) d 12; d = put_u32 (st_size st) d 16
      in map d [0..<20])"

definition sys_fstat :: "sys \<Rightarrow> (int \<times> sys) res" where
  "sys_fstat s =
     bnd (argfd 0 s) (\<lambda>a. case a of None \<Rightarrow> Inr (- 1, s)
     | Some (_, f) \<Rightarrow> bnd (argptr 1 20 s) (\<lambda>p. case p of None \<Rightarrow> Inr (- 1, s)
       | Some p \<Rightarrow> bnd (filestat f s) (\<lambda>(st, s). case st of
           None \<Rightarrow> Inr (- 1, s)
         | Some st \<Rightarrow> bnd (uwrite p (stat_bytes st) s) (\<lambda>s. Inr (0, s)))))"

section \<open>Directory entries\<close>

function isdirempty_loop :: "nat \<Rightarrow> nat \<Rightarrow> nat \<Rightarrow> sys \<Rightarrow> (bool \<times> sys) res" where
  "isdirempty_loop dp sz off s =
     (if off < sz then
        bnd (readi devs dp off 16 s) (\<lambda>((r, de), s).
          if r \<noteq> 16 then Inl (Panic ''isdirempty: readi'')
          else if de_inum de \<noteq> 0 then Inr (False, s)
          else isdirempty_loop dp sz (off + 16) s)
      else Inr (True, s))"
  by pat_completeness auto
termination by (relation "measure (\<lambda>(_, sz, off, _). sz - off)") auto

declare isdirempty_loop.simps [simp del]

definition isdirempty :: "nat \<Rightarrow> sys \<Rightarrow> (bool \<times> sys) res" where
  "isdirempty dp s = isdirempty_loop dp (i_size (inode_of s dp)) 32 s"

definition cwd :: "sys \<Rightarrow> nat" where
  "cwd s = (case p_cwd (cur s) of Some ip \<Rightarrow> ip | None \<Rightarrow> NINODE)"

definition fail_op :: "sys \<Rightarrow> (int \<times> sys) res" where
  "fail_op s = bnd (end_op s) (\<lambda>s. Inr (- 1, s))"

text \<open>The label \<^verbatim>\<open>bad\<close> of \<^verbatim>\<open>sys_link\<close>: the link count is taken back.\<close>

definition link_bad :: "nat \<Rightarrow> sys \<Rightarrow> (int \<times> sys) res" where
  "link_bad ip s =
     bnd (ilock ip s) (\<lambda>s.
     bnd (iupdate ip (upd_inode ip (\<lambda>n. n\<lparr>i_nlink := s16 (i_nlink n - 1)\<rparr>) s)) (\<lambda>s.
     bnd (iunlockput ip s) fail_op))"

definition link_op :: "byte list \<Rightarrow> byte list \<Rightarrow> sys \<Rightarrow> (int \<times> sys) res" where
  "link_op old new s =
     bnd (begin_op s) (\<lambda>s.
     bnd (namei devs (cwd s) old s) (\<lambda>(r, s). case r of
       None \<Rightarrow> fail_op s
     | Some ip \<Rightarrow>
         bnd (ilock ip s) (\<lambda>s.
         if i_type (inode_of s ip) = T_DIR then bnd (iunlockput ip s) fail_op
         else
           bnd (iupdate ip (upd_inode ip (\<lambda>n. n\<lparr>i_nlink := s16 (i_nlink n + 1)\<rparr>) s)) (\<lambda>s.
           bnd (iunlock ip s) (\<lambda>s.
           bnd (nameiparent devs (cwd s) new zero_block s) (\<lambda>((r, name), s). case r of
             None \<Rightarrow> link_bad ip s
           | Some dp \<Rightarrow>
               bnd (ilock dp s) (\<lambda>s.
               bnd (if i_dev (inode_of s dp) \<noteq> i_dev (inode_of s ip) then Inr (- 1, s)
                    else dirlink devs dp name (i_inum (inode_of s ip)) s) (\<lambda>(r, s).
               bnd (iunlockput dp s) (\<lambda>s.
                 if r < 0 then link_bad ip s
                 else bnd (iput ip s) (\<lambda>s. bnd (end_op s) (\<lambda>s. Inr (0, s)))))))))))) "

definition sys_link :: "sys \<Rightarrow> (int \<times> sys) res" where
  "sys_link s =
     bnd (argstr 0 s) (\<lambda>old. case old of None \<Rightarrow> Inr (- 1, s)
     | Some old \<Rightarrow> bnd (argstr 1 s) (\<lambda>new. case new of None \<Rightarrow> Inr (- 1, s) | Some new \<Rightarrow> link_op old new s))"

definition dot_name :: block where
  "dot_name = (zero_block)(0 := 46)"

definition dotdot_name :: block where
  "dotdot_name = (zero_block)(0 := 46, 1 := 46)"

definition unlink_op :: "byte list \<Rightarrow> sys \<Rightarrow> (int \<times> sys) res" where
  "unlink_op path s =
     bnd (begin_op s) (\<lambda>s.
     bnd (nameiparent devs (cwd s) path zero_block s) (\<lambda>((r, name), s). case r of
       None \<Rightarrow> fail_op s
     | Some dp \<Rightarrow>
         bnd (ilock dp s) (\<lambda>s.
         if namecmp name dot_name = 0 \<or> namecmp name dotdot_name = 0 then bnd (iunlockput dp s) fail_op
         else bnd (dirlookup devs dp name s) (\<lambda>(r, s). case r of
           None \<Rightarrow> bnd (iunlockput dp s) fail_op
         | Some (ip, off) \<Rightarrow>
             bnd (ilock ip s) (\<lambda>s.
             if i_nlink (inode_of s ip) < 1 then Inl (Panic ''unlink: nlink < 1'')
             else bnd (if i_type (inode_of s ip) = T_DIR then isdirempty ip s else Inr (True, s)) (\<lambda>(emp, s).
               if \<not> emp then bnd (iunlockput ip s) (\<lambda>s. bnd (iunlockput dp s) fail_op)
               else
                 bnd (writei devs dp off (replicate 16 0) s) (\<lambda>(r, s).
                 if r \<noteq> 16 then Inl (Panic ''unlink: writei'')
                 else
                   bnd (if i_type (inode_of s ip) = T_DIR
                        then iupdate dp (upd_inode dp (\<lambda>n. n\<lparr>i_nlink := s16 (i_nlink n - 1)\<rparr>) s) else Inr s) (\<lambda>s.
                   bnd (iunlockput dp s) (\<lambda>s.
                   bnd (iupdate ip (upd_inode ip (\<lambda>n. n\<lparr>i_nlink := s16 (i_nlink n - 1)\<rparr>) s)) (\<lambda>s.
                   bnd (iunlockput ip s) (\<lambda>s.
                   bnd (end_op s) (\<lambda>s. Inr (0, s)))))))))))))"

definition sys_unlink :: "sys \<Rightarrow> (int \<times> sys) res" where
  "sys_unlink s = bnd (argstr 0 s) (\<lambda>p. case p of None \<Rightarrow> Inr (- 1, s) | Some path \<Rightarrow> unlink_op path s)"

section \<open>Creating and opening\<close>

text \<open>\<^verbatim>\<open>create\<close>: a locked inode, or null.\<close>

definition create :: "byte list \<Rightarrow> int \<Rightarrow> int \<Rightarrow> int \<Rightarrow> sys \<Rightarrow> (nat option \<times> sys) res" where
  "create path type major minor s =
     bnd (nameiparent devs (cwd s) path zero_block s) (\<lambda>((r, name), s). case r of
       None \<Rightarrow> Inr (None, s)
     | Some dp \<Rightarrow>
         bnd (ilock dp s) (\<lambda>s.
         bnd (dirlookup devs dp name s) (\<lambda>(r, s). case r of
           Some (ip, _) \<Rightarrow>
             bnd (iunlockput dp s) (\<lambda>s.
             bnd (ilock ip s) (\<lambda>s.
               if type = T_FILE \<and> i_type (inode_of s ip) = T_FILE then Inr (Some ip, s)
               else bnd (iunlockput ip s) (\<lambda>s. Inr (None, s))))
         | None \<Rightarrow>
             bnd (ialloc (i_dev (inode_of s dp)) type s) (\<lambda>(ip, s).
             bnd (ilock ip s) (\<lambda>s.
             bnd (iupdate ip (upd_inode ip (\<lambda>n. n\<lparr>i_major := major, i_minor := minor, i_nlink := 1\<rparr>) s)) (\<lambda>s.
             bnd (if type = T_DIR then
                    bnd (iupdate dp (upd_inode dp (\<lambda>n. n\<lparr>i_nlink := s16 (i_nlink n + 1)\<rparr>) s)) (\<lambda>s.
                    bnd (dirlink devs ip dot_name (i_inum (inode_of s ip)) s) (\<lambda>(r, s).
                      if r < 0 then Inl (Panic ''create dots'')
                      else bnd (dirlink devs ip dotdot_name (i_inum (inode_of s dp)) s) (\<lambda>(r, s).
                        if r < 0 then Inl (Panic ''create dots'') else Inr s)))
                  else Inr s) (\<lambda>s.
             bnd (dirlink devs dp name (i_inum (inode_of s ip)) s) (\<lambda>(r, s).
               if r < 0 then Inl (Panic ''create: dirlink'')
               else bnd (iunlockput dp s) (\<lambda>s. Inr (Some ip, s)))))))))) "

abbreviation (input) O_RDONLY :: int where "O_RDONLY \<equiv> 0x000"
abbreviation (input) O_WRONLY :: int where "O_WRONLY \<equiv> 0x001"
abbreviation (input) O_RDWR :: int where "O_RDWR \<equiv> 0x002"
abbreviation (input) O_CREATE :: int where "O_CREATE \<equiv> 0x200"

text \<open>The second half of \<^verbatim>\<open>sys_open\<close>, with the locked inode.\<close>

definition open_inode :: "nat \<Rightarrow> int \<Rightarrow> sys \<Rightarrow> (int \<times> sys) res" where
  "open_inode ip omode s =
     (case filealloc s of
        (None, s) \<Rightarrow> bnd (iunlockput ip s) fail_op
      | (Some f, s) \<Rightarrow> (case fdalloc f s of (fd, s) \<Rightarrow>
          if fd < 0 then bnd (fileclose f s) (\<lambda>s. bnd (iunlockput ip s) fail_op)
          else bnd (iunlock ip s) (\<lambda>s. bnd (end_op s) (\<lambda>s.
            Inr (fd, upd_file f (\<lambda>x. x\<lparr>f_type := FD_INODE, f_ip := ip, f_off := 0, f_readable := (omode AND O_WRONLY = 0),
                f_writable := (omode AND O_WRONLY \<noteq> 0 \<or> omode AND O_RDWR \<noteq> 0)\<rparr>) s)))))"

definition open_op :: "byte list \<Rightarrow> int \<Rightarrow> sys \<Rightarrow> (int \<times> sys) res" where
  "open_op path omode s =
     bnd (begin_op s) (\<lambda>s.
       if omode AND O_CREATE \<noteq> 0 then
         bnd (create path T_FILE 0 0 s) (\<lambda>(r, s). case r of None \<Rightarrow> fail_op s | Some ip \<Rightarrow> open_inode ip omode s)
       else
         bnd (namei devs (cwd s) path s) (\<lambda>(r, s). case r of
           None \<Rightarrow> fail_op s
         | Some ip \<Rightarrow> bnd (ilock ip s) (\<lambda>s.
             if i_type (inode_of s ip) = T_DIR \<and> omode \<noteq> O_RDONLY then bnd (iunlockput ip s) fail_op
             else open_inode ip omode s)))"

definition sys_open :: "sys \<Rightarrow> (int \<times> sys) res" where
  "sys_open s =
     bnd (argstr 0 s) (\<lambda>p. case p of None \<Rightarrow> Inr (- 1, s)
     | Some path \<Rightarrow> bnd (argint 1 s) (\<lambda>omode. open_op path omode s))"

text \<open>The common end of \<^verbatim>\<open>sys_mkdir\<close> and \<^verbatim>\<open>sys_mknod\<close>.\<close>

definition made :: "nat option \<times> sys \<Rightarrow> (int \<times> sys) res" where
  "made = (\<lambda>(r, s). case r of None \<Rightarrow> fail_op s
     | Some ip \<Rightarrow> bnd (iunlockput ip s) (\<lambda>s. bnd (end_op s) (\<lambda>s. Inr (0, s))))"

definition sys_mkdir :: "sys \<Rightarrow> (int \<times> sys) res" where
  "sys_mkdir s =
     bnd (begin_op s) (\<lambda>s.
     bnd (argstr 0 s) (\<lambda>p. case p of None \<Rightarrow> fail_op s | Some path \<Rightarrow> bnd (create path T_DIR 0 0 s) made))"

definition sys_mknod :: "sys \<Rightarrow> (int \<times> sys) res" where
  "sys_mknod s =
     bnd (begin_op s) (\<lambda>s.
     bnd (argstr 0 s) (\<lambda>p. case p of None \<Rightarrow> fail_op s
     | Some path \<Rightarrow> bnd (argint 1 s) (\<lambda>major. bnd (argint 2 s) (\<lambda>minor.
         bnd (create path T_DEV (s16 major) (s16 minor) s) made))))"

definition sys_chdir :: "sys \<Rightarrow> (int \<times> sys) res" where
  "sys_chdir s =
     bnd (begin_op s) (\<lambda>s.
     bnd (argstr 0 s) (\<lambda>p. case p of None \<Rightarrow> fail_op s
     | Some path \<Rightarrow> bnd (namei devs (cwd s) path s) (\<lambda>(r, s). case r of
         None \<Rightarrow> fail_op s
       | Some ip \<Rightarrow>
           bnd (ilock ip s) (\<lambda>s.
           if i_type (inode_of s ip) \<noteq> T_DIR then bnd (iunlockput ip s) fail_op
           else bnd (iunlock ip s) (\<lambda>s.
             bnd (iput (cwd s) s) (\<lambda>s.
             bnd (end_op s) (\<lambda>s. Inr (0, upd_cur (\<lambda>x. x\<lparr>p_cwd := Some ip\<rparr>) s))))))))"

definition sys_pipe :: "sys \<Rightarrow> (int \<times> sys) res" where
  "sys_pipe s =
     bnd (argptr 0 8 s) (\<lambda>p. case p of None \<Rightarrow> Inr (- 1, s)
     | Some p \<Rightarrow> bnd (pipealloc s) (\<lambda>(r, s). case r of
         None \<Rightarrow> Inr (- 1, s)
       | Some (rfile, wfile) \<Rightarrow> (case fdalloc rfile s of (fd0, s) \<Rightarrow>
           if fd0 < 0 then bnd (fileclose rfile s) (\<lambda>s. bnd (fileclose wfile s) (\<lambda>s. Inr (- 1, s)))
           else case fdalloc wfile s of (fd1, s) \<Rightarrow>
             if fd1 < 0 then
               bnd (fileclose rfile (upd_cur (\<lambda>x. x\<lparr>p_ofile := (p_ofile x)(nat fd0 := None)\<rparr>) s)) (\<lambda>s.
               bnd (fileclose wfile s) (\<lambda>s. Inr (- 1, s)))
             else bnd (uwrite p (le_bytes 4 (nat fd0) @ le_bytes 4 (nat fd1)) s) (\<lambda>s. Inr (0, s)))))"

end
