(* ===== verification/Exec.thy ===== *)
theory Exec
  imports Sysfile
begin

text \<open>
  Program loading, \<^verbatim>\<open>exec.c\<close>, with \<^verbatim>\<open>loaduvm\<close> of \<^verbatim>\<open>vm.c\<close>, the call \<^verbatim>\<open>sys_exec\<close> and the dispatch of system calls
  (second part of \<^verbatim>\<open>syscall.c\<close>).
\<close>

section \<open>Loading\<close>

function loaduvm_loop :: "nat \<Rightarrow> nat \<Rightarrow> nat \<Rightarrow> nat \<Rightarrow> nat \<Rightarrow> nat \<Rightarrow> sys \<Rightarrow> (int \<times> sys) res" where
  "loaduvm_loop pgdir addr ip offset sz i s =
     (if i < sz then
        case fst (walkpgdir pgdir (addr + i) False (kvm s)) of
          None \<Rightarrow> Inl (Panic ''loaduvm: address should exist'')
        | Some pte \<Rightarrow>
            let pa = PTE_ADDR (ldq pte (kvm s)); n = (if sz - i < PGSIZE then sz - i else PGSIZE) in
            bnd (readi devs ip (u32 (offset + i)) n s) (\<lambda>((r, bytes), s).
              let s = s\<lparr>kvm := (kvm s)\<lparr>kmemory := memcopy (kmemory (kvm s)) (P2V pa) (\<lambda>j. bytes ! j) 0 (length bytes)\<rparr>\<rparr> in
              if r \<noteq> int n then Inr (- 1, s)
              else loaduvm_loop pgdir addr ip offset sz (i + PGSIZE) s)
      else Inr (0, s))"
  by pat_completeness auto
termination by (relation "measure (\<lambda>(_, _, _, _, sz, i, _). sz - i)") auto

declare loaduvm_loop.simps [simp del]

definition loaduvm :: "nat \<Rightarrow> nat \<Rightarrow> nat \<Rightarrow> nat \<Rightarrow> nat \<Rightarrow> sys \<Rightarrow> (int \<times> sys) res" where
  "loaduvm pgdir addr ip offset sz s =
     (if addr mod PGSIZE \<noteq> 0 then Inl (Panic ''loaduvm: addr must be page aligned'')
      else loaduvm_loop pgdir addr ip offset sz 0 s)"

text \<open>\<^verbatim>\<open>struct elfhdr\<close> is 64 bytes, \<^verbatim>\<open>struct proghdr\<close> 56.\<close>

record elfhdr =
  e_magic :: nat
  e_entry :: nat
  e_phoff :: nat
  e_phnum :: nat

definition elfhdr_of :: "byte list \<Rightarrow> elfhdr" where
  "elfhdr_of b = \<lparr>e_magic = le_val b 0 4, e_entry = le_val b 24 8, e_phoff = le_val b 32 8, e_phnum = le_val b 56 2\<rparr>"

record proghdr =
  ph_type :: nat
  ph_off :: nat
  ph_vaddr :: nat
  ph_filesz :: nat
  ph_memsz :: nat

definition proghdr_of :: "byte list \<Rightarrow> proghdr" where
  "proghdr_of b = \<lparr>ph_type = le_val b 0 4, ph_off = le_val b 8 8, ph_vaddr = le_val b 16 8, ph_filesz = le_val b 32 8, ph_memsz = le_val b 40 8\<rparr>"

text \<open>The loop over the program headers: the size of the image, or \<open>None\<close> for \<^verbatim>\<open>goto bad\<close>.\<close>

fun load_segments :: "nat \<Rightarrow> nat \<Rightarrow> nat \<Rightarrow> nat \<Rightarrow> nat \<Rightarrow> sys \<Rightarrow> (nat option \<times> sys) res" where
  "load_segments pgdir ip 0 off sz s = Inr (Some sz, s)"
| "load_segments pgdir ip (Suc k) off sz s =
     bnd (readi devs ip off 56 s) (\<lambda>((r, bytes), s).
       if r \<noteq> 56 then Inr (None, s)
       else let ph = proghdr_of bytes; next = u32 (off + 56) in
         if ph_type ph \<noteq> 1 then load_segments pgdir ip k next sz s
         else if ph_memsz ph < ph_filesz ph then Inr (None, s)
         else if u64 (ph_vaddr ph + ph_memsz ph) < ph_vaddr ph then Inr (None, s)
         else bnd (on_vm_val (allocuvm pgdir sz (u64 (ph_vaddr ph + ph_memsz ph))) s) (\<lambda>(sz, s).
           if sz = 0 then Inr (None, s)
           else if ph_vaddr ph mod PGSIZE \<noteq> 0 then Inr (None, s)
           else bnd (loaduvm pgdir (ph_vaddr ph) ip (u32 (ph_off ph)) (u32 (ph_filesz ph)) s) (\<lambda>(r, s).
             if r < 0 then Inr (None, s) else load_segments pgdir ip k next sz s)))"

section \<open>The user stack\<close>

definition sub64 :: "nat \<Rightarrow> nat \<Rightarrow> nat" where
  "sub64 a b = (a + 2 ^ 64 - b) mod 2 ^ 64"

text \<open>Pushing the argument strings: the stack pointer and the addresses of the strings, or \<open>None\<close>.\<close>

fun push_args :: "nat \<Rightarrow> byte list list \<Rightarrow> nat \<Rightarrow> nat \<Rightarrow> sys \<Rightarrow> ((nat \<times> nat list) option \<times> sys) res" where
  "push_args pgdir [] argc sp s = Inr (Some (sp, []), s)"
| "push_args pgdir (a # as) argc sp s =
     (if argc \<ge> MAXARG then Inr (None, s)
      else let sp = sub64 sp (length a + 1) div 8 * 8 in
        bnd (on_vm_val (copyout pgdir sp (a @ [0])) s) (\<lambda>(r, s).
          if r < 0 then Inr (None, s)
          else bnd (push_args pgdir as (argc + 1) sp s) (\<lambda>(r, s).
            Inr (map_option (\<lambda>(top, ps). (top, sp # ps)) r, s))))"

definition after_last_slash :: "byte list \<Rightarrow> byte list" where
  "after_last_slash path = rev (takeWhile (\<lambda>c. c \<noteq> slash) (rev path))"

text \<open>The label \<^verbatim>\<open>bad\<close>, with the inode if it is still held.\<close>

definition exec_bad :: "nat \<Rightarrow> nat option \<Rightarrow> sys \<Rightarrow> (int \<times> sys) res" where
  "exec_bad pgdir ip s =
     bnd (if pgdir \<noteq> 0 then on_vm (freevm pgdir) s else Inr s) (\<lambda>s.
     case ip of None \<Rightarrow> Inr (- 1, s) | Some ip \<Rightarrow> bnd (iunlockput ip s) fail_op)"

text \<open>The second half of \<^verbatim>\<open>exec\<close>: stack, arguments and the commitment to the new image.\<close>

definition exec_stack :: "nat \<Rightarrow> nat \<Rightarrow> nat \<Rightarrow> byte list \<Rightarrow> byte list list \<Rightarrow> nat \<Rightarrow> sys \<Rightarrow> (int \<times> sys) res" where
  "exec_stack oldpgdir pgdir entry path argv sz s =
     (let sz = PGROUNDUP sz in
      bnd (on_vm_val (allocuvm pgdir sz (sz + 2 * PGSIZE)) s) (\<lambda>(sz, s).
      if sz = 0 then exec_bad pgdir None s
      else bnd (on_vm (clearpteu pgdir (sz - 2 * PGSIZE)) s) (\<lambda>s.
      bnd (push_args pgdir argv 0 sz s) (\<lambda>(r, s). case r of
        None \<Rightarrow> exec_bad pgdir None s
      | Some (sp, ptrs) \<Rightarrow>
          let argc = length argv;
              ustack = concat (map (le_bytes 8) (0xffffffffffffffff # ptrs @ [0]));
              s = upd_cur (\<lambda>x. x\<lparr>p_tf := (p_tf x)\<lparr>tf_rdi := argc, tf_rsi := sub64 sp ((argc + 1) * 8)\<rparr>\<rparr>) s;
              sp = sub64 sp ((1 + argc + 1) * 8) in
          bnd (on_vm_val (copyout pgdir sp ustack) s) (\<lambda>(r, s).
          if r < 0 then exec_bad pgdir None s
          else let s = upd_cur (\<lambda>x. x\<lparr>p_name := take 15 (after_last_slash path) @ [0], p_pgdir := pgdir, p_sz := sz,
                     p_tf := (p_tf x)\<lparr>tf_rip := entry, tf_rcx := entry, tf_rsp := sp\<rparr>\<rparr>) s in
            bnd (on_vm (switchuvm pgdir (p_kstack (cur s))) s) (\<lambda>s.
            bnd (on_vm (freevm oldpgdir) s) (\<lambda>s. Inr (0, s))))))))"

definition exec :: "byte list \<Rightarrow> byte list list \<Rightarrow> sys \<Rightarrow> (int \<times> sys) res" where
  "exec path argv s =
     (let oldpgdir = p_pgdir (cur s) in
      bnd (begin_op s) (\<lambda>s.
      bnd (namei devs (cwd s) path s) (\<lambda>(r, s). case r of
        None \<Rightarrow> fail_op s
      | Some ip \<Rightarrow>
          bnd (ilock ip s) (\<lambda>s.
          bnd (readi devs ip 0 64 s) (\<lambda>((r, bytes), s).
          if r \<noteq> 64 \<or> e_magic (elfhdr_of bytes) \<noteq> 0x464C457F then exec_bad 0 (Some ip) s
          else bnd (on_vm_val setupkvm s) (\<lambda>(pgdir, s).
            let elf = elfhdr_of bytes in
            bnd (load_segments pgdir ip (e_phnum elf) (u32 (e_phoff elf)) PGSIZE s) (\<lambda>(r, s). case r of
              None \<Rightarrow> exec_bad pgdir (Some ip) s
            | Some sz \<Rightarrow>
                bnd (iunlockput ip s) (\<lambda>s.
                bnd (end_op s) (exec_stack oldpgdir pgdir (e_entry elf) path argv sz)))))))))"

text \<open>\<^verbatim>\<open>sys_exec\<close>: the argument vector; \<open>k\<close> more elements fit into \<^verbatim>\<open>argv\<close>.\<close>

fun fetch_argv :: "nat \<Rightarrow> nat \<Rightarrow> sys \<Rightarrow> byte list list option res" where
  "fetch_argv 0 uargv s = Inr None"
| "fetch_argv (Suc k) uargv s =
     bnd (fetchaddr uargv s) (\<lambda>r. case r of
       None \<Rightarrow> Inr None
     | Some uarg \<Rightarrow> if uarg = 0 then Inr (Some [])
         else bnd (fetchstr uarg s) (\<lambda>a. case a of
           None \<Rightarrow> Inr None
         | Some a \<Rightarrow> bnd (fetch_argv k (u64 (uargv + 8)) s) (\<lambda>as. Inr (map_option (Cons a) as))))"

definition sys_exec :: "sys \<Rightarrow> (int \<times> sys) res" where
  "sys_exec s =
     bnd (argstr 0 s) (\<lambda>p. case p of None \<Rightarrow> Inr (- 1, s)
     | Some path \<Rightarrow> bnd (argaddr 1 s) (\<lambda>uargv. bnd (fetch_argv MAXARG uargv s) (\<lambda>argv. case argv of
         None \<Rightarrow> Inr (- 1, s) | Some argv \<Rightarrow> exec path argv s)))"

section \<open>Dispatch\<close>

text \<open>How a call leaves the process: with a value for \<^verbatim>\<open>%rax\<close>, asleep in the kernel, or exited.\<close>

datatype outcome = Ret int | Asleep | Exited

definition ret :: "int \<times> sys \<Rightarrow> (outcome \<times> sys) res" where
  "ret = (\<lambda>(r, s). Inr (Ret r, s))"

definition ret_opt :: "int option \<times> sys \<Rightarrow> (outcome \<times> sys) res" where
  "ret_opt = (\<lambda>(r, s). Inr (case r of Some r \<Rightarrow> Ret r | None \<Rightarrow> Asleep, s))"

definition ret_turn :: "int turn \<times> sys \<Rightarrow> (outcome \<times> sys) res" where
  "ret_turn = (\<lambda>(r, s). Inr (case r of Done r \<Rightarrow> Ret r | Wait _ \<Rightarrow> Asleep, s))"

text \<open>The table \<^verbatim>\<open>syscalls\<close> by the numbers of \<^verbatim>\<open>syscall.h\<close>.\<close>

definition syscalls :: "nat \<Rightarrow> (sys \<Rightarrow> (outcome \<times> sys) res) option" where
  "syscalls num =
     (if num = 1 then Some (\<lambda>s. bnd (fork s) ret)
      else if num = 2 then Some (\<lambda>s. bnd (exit s) (\<lambda>s. Inr (Exited, s)))
      else if num = 3 then Some (\<lambda>s. bnd (wait s) ret_opt)
      else if num = 4 then Some (\<lambda>s. bnd (sys_pipe s) ret)
      else if num = 5 then Some (\<lambda>s. bnd (sys_read s) ret)
      else if num = 6 then Some (\<lambda>s. bnd (sys_kill s) ret)
      else if num = 7 then Some (\<lambda>s. bnd (sys_exec s) ret)
      else if num = 8 then Some (\<lambda>s. bnd (sys_fstat s) ret)
      else if num = 9 then Some (\<lambda>s. bnd (sys_chdir s) ret)
      else if num = 10 then Some (\<lambda>s. bnd (sys_dup s) ret)
      else if num = 11 then Some (\<lambda>s. bnd (sys_getpid s) ret)
      else if num = 12 then Some (\<lambda>s. bnd (sys_sbrk s) ret)
      else if num = 13 then Some (\<lambda>s. bnd (sys_sleep (ticks s) s) ret_opt)
      else if num = 14 then Some (\<lambda>s. bnd (sys_uptime s) ret)
      else if num = 15 then Some (\<lambda>s. bnd (sys_open s) ret)
      else if num = 16 then Some (\<lambda>s. bnd (sys_write s) ret_turn)
      else if num = 17 then Some (\<lambda>s. bnd (sys_mknod s) ret)
      else if num = 18 then Some (\<lambda>s. bnd (sys_unlink s) ret)
      else if num = 19 then Some (\<lambda>s. bnd (sys_link s) ret)
      else if num = 20 then Some (\<lambda>s. bnd (sys_mkdir s) ret)
      else if num = 21 then Some (\<lambda>s. bnd (sys_close s) ret)
      else None)"

definition exit_if_killed :: "outcome \<times> sys \<Rightarrow> (outcome \<times> sys) res" where
  "exit_if_killed = (\<lambda>(r, s). if p_killed (cur s) then bnd (exit s) (\<lambda>s. Inr (Exited, s)) else Inr (r, s))"

definition syscall :: "trapframe \<Rightarrow> sys \<Rightarrow> (outcome \<times> sys) res" where
  "syscall tf s =
     (if p_killed (cur s) then bnd (exit s) (\<lambda>s. Inr (Exited, s))
      else let s = upd_cur (\<lambda>x. x\<lparr>p_tf := tf\<rparr>) s; num = tf_rax tf in
        case (if num > 0 then syscalls num else None) of
          Some f \<Rightarrow> bnd (f s) (\<lambda>(r, s). case r of
              Ret v \<Rightarrow> exit_if_killed (Ret v, upd_cur (\<lambda>x. x\<lparr>p_tf := (p_tf x)\<lparr>tf_rax := nat (v mod 2 ^ 64)\<rparr>\<rparr>) s)
            | _ \<Rightarrow> Inr (r, s))
        | None \<Rightarrow> exit_if_killed (Ret (- 1), upd_cur (\<lambda>x. x\<lparr>p_tf := (p_tf x)\<lparr>tf_rax := 2 ^ 64 - 1\<rparr>\<rparr>) s))"

end
