(* ===== verification/Layout.thy ===== *)
theory Layout
  imports Fs
begin

text \<open>
  What the on-disk formats of the file system promise: inodes and directory entries read back as written, the
  bitmap has one independent bit per block, and \<^verbatim>\<open>skipelem\<close> splits a path at its slashes.
\<close>

unbundle bit_operations_syntax

section \<open>Inodes\<close>

lemma fields_other:
  "j + 2 \<le> i \<or> i + 2 \<le> j \<Longrightarrow> get_s16 (put_s16 v d i) j = get_s16 d j"
  "j + 2 \<le> i \<or> i + 4 \<le> j \<Longrightarrow> get_s16 (put_u32 x d i) j = get_s16 d j"
  "j + 4 \<le> i \<or> i + 2 \<le> j \<Longrightarrow> get_u32 (put_s16 v d i) j = get_u32 d j"
  "j + 4 \<le> i \<or> i + 4 \<le> j \<Longrightarrow> get_u32 (put_u32 x d i) j = get_u32 d j"
  unfolding field_defs by (metis le_get_put_other)+

lemma fold_put_u32:
  "j + 2 \<le> p \<Longrightarrow> get_s16 (fold (\<lambda>k d. put_u32 (a k) d (p + 4 * k)) [0..<n] d) j = get_s16 d j"
  "j + 4 \<le> p \<Longrightarrow> get_u32 (fold (\<lambda>k d. put_u32 (a k) d (p + 4 * k)) [0..<n] d) j = get_u32 d j"
  "k < n \<Longrightarrow> a k < 2 ^ 32 \<Longrightarrow> get_u32 (fold (\<lambda>k d. put_u32 (a k) d (p + 4 * k)) [0..<n] d) (p + 4 * k) = a k"
proof (induction n)
  case (Suc n)
  { case 1 then show ?case using Suc by (simp add: fields_other) }
  { case 2 then show ?case using Suc by (simp add: fields_other) }
  { case 3 then show ?case using Suc by (cases "k = n") (simp_all add: fields_other get_put_u32) }
qed simp_all

text \<open>The values that the members of an inode can have.\<close>

definition inode_typed :: "inode \<Rightarrow> bool" where
  "inode_typed n \<longleftrightarrow> (\<forall>v\<in>{i_type n, i_major n, i_minor n, i_nlink n}. - (2 ^ 15) \<le> v \<and> v < 2 ^ 15) \<and>
     i_size n < 2 ^ 32 \<and> (\<forall>k<NDIRECT + 1. i_addrs n k < 2 ^ 32)"

lemma get_put_dinode:
  assumes "inode_typed n"
  shows "i_type (get_dinode p (put_dinode p n d) m) = i_type n" "i_major (get_dinode p (put_dinode p n d) m) = i_major n"
    "i_minor (get_dinode p (put_dinode p n d) m) = i_minor n" "i_nlink (get_dinode p (put_dinode p n d) m) = i_nlink n"
    "i_size (get_dinode p (put_dinode p n d) m) = i_size n" "k < NDIRECT + 1 \<Longrightarrow> i_addrs (get_dinode p (put_dinode p n d) m) k = i_addrs n k"
proof -
  have r: "s16 (i_type n) = i_type n" "s16 (i_major n) = i_major n" "s16 (i_minor n) = i_minor n" "s16 (i_nlink n) = i_nlink n" "i_size n < 4294967296"
    using assms by (auto simp: inode_typed_def intro: s16_id)
  show "i_type (get_dinode p (put_dinode p n d) m) = i_type n" "i_major (get_dinode p (put_dinode p n d) m) = i_major n"
    "i_minor (get_dinode p (put_dinode p n d) m) = i_minor n" "i_nlink (get_dinode p (put_dinode p n d) m) = i_nlink n"
    "i_size (get_dinode p (put_dinode p n d) m) = i_size n"
    unfolding get_dinode_def put_dinode_def Let_def by (simp_all add: fold_put_u32 fields_other get_put_s16 get_put_u32 r)
  show "i_addrs (get_dinode p (put_dinode p n d) m) k = i_addrs n k" if "k < NDIRECT + 1"
    using that assms unfolding get_dinode_def put_dinode_def Let_def by (simp add: fold_put_u32(3) [where p = "p + 12"] inode_typed_def)
qed


definition demo_inode :: inode where
  "demo_inode = \<lparr>i_dev = 1, i_inum = 5, i_ref = 1, i_lock = initsleeplock, i_flags = 2, i_type = 2, i_major = 0, i_minor = - 1, i_nlink = 3,
     i_size = 70000, i_addrs = (\<lambda>k. 100 + (k mod 13))\<rparr>"


section \<open>Bitmap\<close>

lemma bm_test_bit: "bm_test d b \<longleftrightarrow> bit (d (b div 8)) (b mod 8)"
  by (simp add: bm_test_def push_bit_of_1 and_exp_eq_0_iff_not_bit)

lemma div_mod_8: "a div 8 = b div 8 \<Longrightarrow> a mod 8 = b mod 8 \<Longrightarrow> a = (b :: nat)"
  by (metis div_mult_mod_eq)

lemma bm_updates:
  "bm_test (bm_set b d) c = (c = b \<or> bm_test d c)" "bm_test (bm_clear b d) c = (c \<noteq> b \<and> bm_test d c)"
proof -
  have k: "b mod 8 < 8" "c mod 8 < 8" by simp_all
  have "bm_test (bm_set b d) c = (c = b \<or> bm_test d c) \<and> bm_test (bm_clear b d) c = (c \<noteq> b \<and> bm_test d c)"
  proof (cases "c div 8 = b div 8")
    case True
    then have "c = b \<longleftrightarrow> c mod 8 = b mod 8" using div_mod_8 by blast
    then show ?thesis using True k
      by (auto simp: bm_test_bit bm_set_def bm_clear_def bit_or_iff bit_and_iff bit_not_iff bit_exp_iff)
  next
    case False
    then show ?thesis by (auto simp: bm_test_def bm_set_def bm_clear_def)
  qed
  then show "bm_test (bm_set b d) c = (c = b \<or> bm_test d c)" "bm_test (bm_clear b d) c = (c \<noteq> b \<and> bm_test d c)" by simp_all
qed

text \<open>C31: marking a block in the bitmap changes the bit of that block only: after \<^verbatim>\<open>balloc\<close> marks block \<open>b\<close> it is in
  use, after \<^verbatim>\<open>bfree\<close> clears it it is free, and no other block of the bitmap changes.\<close>

theorem bitmap_bits_independent:
  "bm_test (bm_set b d) c = (c = b \<or> bm_test d c) \<and> bm_test (bm_clear b d) c = (c \<noteq> b \<and> bm_test d c)"
  by (simp add: bm_updates)

section \<open>Directory entries and paths\<close>

text \<open>What an array of \<open>n\<close> bytes holds before its first NUL, if it has one.\<close>

definition cut :: "nat \<Rightarrow> block \<Rightarrow> byte list" where
  "cut n a = takeWhile (\<lambda>c. c \<noteq> 0) (map a [0..<n])"

abbreviation cname :: "block \<Rightarrow> byte list" where
  "cname \<equiv> cut DIRSIZ"

lemma cut_0 [simp]: "cut 0 a = []"
  by (simp add: cut_def)

lemma cut_Suc [simp]: "cut (Suc n) a = (if a 0 = 0 then [] else a 0 # cut n (\<lambda>i. a (Suc i)))"
  by (simp add: cut_def map_upt_Suc del: upt_Suc)

lemma cut_cong: "(\<And>i. i < n \<Longrightarrow> a i = b i) \<Longrightarrow> cut n a = cut n b"
  unfolding cut_def by (metis (no_types, lifting) atLeastLessThan_iff map_cong set_upt)

lemma strncmp_cut: "strncmp p q n m = 0 \<longleftrightarrow> cut n (\<lambda>i. m (p + i)) = cut n (\<lambda>i. m (q + i))"
  by (induction n arbitrary: p q) (auto simp: uint_0_iff simp flip: word_uint_eq_iff)

lemma strncpy_below: "i < s \<Longrightarrow> strncpy s t n m i = m i"
  by (induction n arbitrary: s t m) (auto simp: Let_def stosb_eq)

lemma cut_strncpy: "s + n \<le> t \<Longrightarrow> cut n (\<lambda>i. strncpy s t n m (s + i)) = cut n (\<lambda>i. m (t + i))"
proof (induction n arbitrary: s t m)
  case (Suc n)
  have "cut n (\<lambda>i. strncpy (s + 1) (t + 1) n (m(s := m t)) (s + 1 + i)) = cut n (\<lambda>i. (m(s := m t)) (t + 1 + i))"
    by (rule Suc.IH) (use Suc.prems in auto)
  moreover have "cut n (\<lambda>i. (m(s := m t)) (t + 1 + i)) = cut n (\<lambda>i. m (t + 1 + i))" by (rule cut_cong) (use Suc.prems in auto)
  ultimately show ?case by (auto simp: Let_def stosb_eq strncpy_below)
qed simp

lemma le_put_2_other: "2 \<le> i \<Longrightarrow> le_put 2 v d 0 i = d i"
  by (simp add: numeral_2_eq_2)

lemma de_fields:
  "inum < 2 ^ 16 \<Longrightarrow> de_inum (mk_dirent name inum) = inum" "cname (de_name (mk_dirent name inum)) = cname name"
proof -
  let ?m = "\<lambda>i. if i < 16 then 0 else name (i - 16)"
  show "de_inum (mk_dirent name inum) = inum" if "inum < 2 ^ 16"
  proof -
    have "de_inum (mk_dirent name inum) = get_u16 (put_u16 inum (strncpy 2 16 DIRSIZ ?m) 0) 0"
      unfolding de_inum_def get_u16_def by (rule le_get_cong) (simp add: mk_dirent_def Let_def del: upt_Suc)
    then show ?thesis using that by (simp add: get_u16_def put_u16_def le_get_put)
  qed
  have "cname (de_name (mk_dirent name inum)) = cname (\<lambda>i. strncpy 2 16 DIRSIZ ?m (2 + i))"
    by (rule cut_cong) (simp add: de_name_def mk_dirent_def Let_def put_u16_def le_put_2_other del: upt_Suc)
  also have "\<dots> = cname (\<lambda>i. ?m (16 + i))" by (rule cut_strncpy) simp
  finally show "cname (de_name (mk_dirent name inum)) = cname name" by simp
qed

lemma namecmp_eq: "namecmp s t = 0 \<longleftrightarrow> cname s = cname t"
proof -
  let ?m = "\<lambda>i. if i < DIRSIZ then s i else t (i - DIRSIZ)"
  have "cname (\<lambda>i. ?m (0 + i)) = cname s" "cname (\<lambda>i. ?m (DIRSIZ + i)) = cname t" by (rule cut_cong; simp)+
  then show ?thesis unfolding namecmp_def strncmp_cut by simp
qed

text \<open>C30: a directory entry that \<^verbatim>\<open>dirlink\<close> writes has the inode number it was given, and \<^verbatim>\<open>dirlookup\<close>'s comparison
  finds it exactly under the names whose first 14 bytes are those of the name it was made with, terminated or not.\<close>

theorem dirent_roundtrip:
  assumes "inum < 2 ^ 16"
  shows "de_inum (mk_dirent name inum) = inum \<and> (namecmp s (de_name (mk_dirent name inum)) = 0 \<longleftrightarrow> cname s = cname name)"
  using assms by (simp add: de_fields namecmp_eq)

theorem dirent_roundtrip_witness:
  "de_inum (mk_dirent (\<lambda>i. 97) 513) = 513 \<and>
   (namecmp (\<lambda>i. 97) (de_name (mk_dirent (\<lambda>i. 97) 513)) = 0 \<longleftrightarrow> cname (\<lambda>i. 97) = cname (\<lambda>i. 97))"
  by (rule dirent_roundtrip) simp

text \<open>The parts of a path between its slashes that are not empty.\<close>

definition components :: "byte list \<Rightarrow> byte list list" where
  "components path = filter (\<lambda>e. e \<noteq> []) (split_by (\<lambda>c. c = slash) path)"

lemma components_slash: "components (dropWhile (\<lambda>c. c = slash) path) = components path"
  by (induction path) (auto simp: components_def)

text \<open>The names that repeated calls of \<^verbatim>\<open>skipelem\<close> produce.\<close>

function path_names :: "byte list \<Rightarrow> block \<Rightarrow> block list" where
  "path_names path name = (case skipelem path name of None \<Rightarrow> [] | Some (rest, name) \<Rightarrow> name # path_names rest name)"
  by pat_completeness auto
termination by (relation "measure (\<lambda>(path, _). length path)") (auto dest: skipelem_shorter)

declare path_names.simps [simp del]

lemma skipelem_components:
  assumes "0 \<notin> set path"
  shows "case skipelem path name of None \<Rightarrow> components path = []
    | Some (rest, n) \<Rightarrow> (\<exists>e. components path = e # components rest \<and> cname n = take DIRSIZ e) \<and> 0 \<notin> set rest"
proof -
  define p where "p = dropWhile (\<lambda>c. c = slash) path"
  have cp: "components path = components p" by (simp add: p_def components_slash)
  show ?thesis
  proof (cases "p = []")
    case True
    then show ?thesis using cp by (simp add: skipelem_def Let_def p_def [symmetric]) (simp add: components_def)
  next
    case False
    define e where "e = takeWhile (\<lambda>c. c \<noteq> slash) p"
    define r where "r = dropWhile (\<lambda>c. c \<noteq> slash) p"
    have per: "p = e @ r" by (simp add: e_def r_def)
    have "hd p \<noteq> slash" using False hd_dropWhile [of "\<lambda>c. c = slash" path] by (simp add: p_def)
    then have ene: "e \<noteq> []" using False by (cases p) (auto simp: e_def)
    have es: "\<forall>c\<in>set e. \<not> c = slash" by (auto simp: e_def dest: set_takeWhileD)
    have z: "0 \<notin> set e" "0 \<notin> set r" using assms per set_dropWhileD [of _ "\<lambda>c. c = slash" path] unfolding p_def by (metis Un_iff set_append)+
    have comp: "components p = e # components (dropWhile (\<lambda>c. c = slash) r)"
    proof (cases r)
      case Nil
      then show ?thesis using per ene split_by_last [OF es] by (simp add: components_def)
    next
      case (Cons x r')
      then have "x = slash" using hd_dropWhile [of "\<lambda>c. c \<noteq> slash" p] by (simp add: r_def)
      then show ?thesis using per Cons ene split_by_elem [OF es, of slash r'] components_slash [of r'] by (simp add: components_def)
    qed
    define n where "n = (if length e \<ge> DIRSIZ then memcopy name 0 (\<lambda>i. e ! i) 0 DIRSIZ
      else (memcopy name 0 (\<lambda>i. e ! i) 0 (length e))(length e := 0))"
    have skip: "skipelem path name = Some (dropWhile (\<lambda>c. c = slash) r, n)"
      using False by (simp add: skipelem_def Let_def p_def [symmetric] e_def [symmetric] r_def [symmetric] n_def)
    have "cname n = take (length (take DIRSIZ e)) (map n [0..<DIRSIZ])"
      unfolding cut_def
    proof (rule takeWhile_eq_take_P_nth)
      fix i assume "i < length (take DIRSIZ e)"
      then show "map n [0..<DIRSIZ] ! i \<noteq> 0" using z(1) by (auto simp: n_def memcopy_def) (metis nth_mem)+
    next
      assume "length (take DIRSIZ e) < length (map n [0..<DIRSIZ])"
      then show "\<not> map n [0..<DIRSIZ] ! length (take DIRSIZ e) \<noteq> 0" by (auto simp: n_def)
    qed
    also have "\<dots> = take DIRSIZ e" by (rule nth_equalityI) (auto simp: n_def memcopy_def)
    finally show ?thesis using skip comp cp z(2) set_dropWhileD [of 0 "\<lambda>c. c = slash" r] by auto
  qed
qed

text \<open>C28: path names are split at slashes: whatever the number of leading, repeated or trailing slashes, the names that
  \<^verbatim>\<open>skipelem\<close> delivers one after the other are the non-empty components of the path, each cut to 14 bytes.\<close>

theorem skipelem_splits_path:
  assumes "0 \<notin> set path"
  shows "map cname (path_names path name) = map (take DIRSIZ) (components path)"
  using assms
proof (induction path name rule: path_names.induct)
  case (1 path name)
  note sc = skipelem_components [OF 1(2), of name]
  show ?case
  proof (cases "skipelem path name")
    case None
    then show ?thesis using sc by (simp add: path_names.simps [of path])
  next
    case (Some x)
    obtain rest n where x: "x = (rest, n)" by (cases x)
    then obtain e where e: "components path = e # components rest" "cname n = take DIRSIZ e" "0 \<notin> set rest" using sc Some by auto
    then show ?thesis using 1(1) [OF Some x [symmetric]] Some x by (simp add: path_names.simps [of path])
  qed
qed

theorem skipelem_splits_path_witness:
  "map cname (path_names [47, 47, 97, 47, 98, 99, 47] zero_block) = map (take DIRSIZ) (components [47, 47, 97, 47, 98, 99, 47])"
  by (rule skipelem_splits_path) simp

end
