(* ===== verification/Uprog.thy ===== *)
theory Uprog
  imports Printf
begin

text \<open>
  The user programs that work on the contents of files: \<^verbatim>\<open>grep.c\<close>, \<^verbatim>\<open>wc.c\<close>, \<^verbatim>\<open>cat.c\<close>, \<^verbatim>\<open>echo.c\<close> and
  \<^verbatim>\<open>ls.c\<close>. A program returns the list of its writes, each a file descriptor and bytes. What the kernel
  answers is an argument: the results of the successive calls of \<^verbatim>\<open>read\<close> on an open file, which file \<^verbatim>\<open>open\<close> finds, what
  \<^verbatim>\<open>write\<close> and \<^verbatim>\<open>stat\<close> return.
\<close>

section \<open>Reading and writing\<close>

type_synonym input = "byte list option list"

type_synonym out = "(nat \<times> byte list) list"

text \<open>A call \<^verbatim>\<open>read(fd, buf, cap)\<close> delivers at most \<open>cap\<close> of the bytes at hand; \<open>None\<close> is a read error, the end of
  the list the end of the file.\<close>

fun rd :: "nat \<Rightarrow> input \<Rightarrow> byte list option \<times> input" where
  "rd cap [] = (Some [], [])"
| "rd cap (None # i) = (None, i)"
| "rd cap (Some c # i) = (Some (take cap c), if length c > cap then Some (drop cap c) # i else i)"

definition todo :: "input \<Rightarrow> nat" where
  "todo i = sum_list (map (\<lambda>c. case c of None \<Rightarrow> 1 | Some c \<Rightarrow> length c) i)"

lemma rd_less: "rd cap i = (Some b, i') \<Longrightarrow> b \<noteq> [] \<Longrightarrow> todo i' < todo i"
  by (cases "(cap, i)" rule: rd.cases) (auto simp: todo_def split: if_splits)

lemma rd_less_sym: "(Some b, i') = rd cap i \<Longrightarrow> b \<noteq> [] \<Longrightarrow> todo i' < todo i"
  using rd_less [of cap i b i'] by simp

definition bs :: "string \<Rightarrow> byte list" where
  "bs s = map of_char s"

abbreviation (input) newline :: byte where "newline \<equiv> 10"

definition fprintf :: "nat \<Rightarrow> byte list \<Rightarrow> arg list \<Rightarrow> out res" where
  "fprintf fd fmt as = bnd (printf fmt as) (\<lambda>b. Inr [(fd, b)])"

text \<open>The loop of a \<^verbatim>\<open>main\<close> over its arguments; the flag says whether the program called \<^verbatim>\<open>exit\<close>.\<close>

fun each :: "('b \<Rightarrow> (out \<times> bool) res) \<Rightarrow> 'b list \<Rightarrow> out res" where
  "each f [] = Inr []"
| "each f (a # as) = bnd (f a) (\<lambda>(w, ex). if ex then Inr w else bnd (each f as) (\<lambda>ws. Inr (w @ ws)))"

section \<open>grep\<close>

text \<open>Pattern and text are lists without their NUL.\<close>

abbreviation (input) hat :: byte where "hat \<equiv> 94"
abbreviation (input) dollar :: byte where "dollar \<equiv> 36"
abbreviation (input) star :: byte where "star \<equiv> 42"
abbreviation (input) dot :: byte where "dot \<equiv> 46"

function matchhere :: "byte list \<Rightarrow> byte list \<Rightarrow> bool"
  and matchstar :: "byte \<Rightarrow> byte list \<Rightarrow> byte list \<Rightarrow> bool" where
  "matchhere re t =
     (case re of
        [] \<Rightarrow> True
      | c # r \<Rightarrow>
          if r \<noteq> [] \<and> hd r = star then matchstar c (tl r) t
          else if c = dollar \<and> r = [] then t = []
          else if t \<noteq> [] \<and> (c = dot \<or> c = hd t) then matchhere r (tl t)
          else False)"
| "matchstar c re t =
     (if matchhere re t then True
      else if t \<noteq> [] \<and> (hd t = c \<or> c = dot) then matchstar c re (tl t)
      else False)"
  by pat_completeness auto
termination
  by (relation "measures [\<lambda>x. case x of Inl (re, t) \<Rightarrow> 2 * length re | Inr (c, re, t) \<Rightarrow> 2 * length re + 1,
                          \<lambda>x. case x of Inl (re, t) \<Rightarrow> length t | Inr (c, re, t) \<Rightarrow> length t]") (auto simp: neq_Nil_conv)

declare matchhere.simps [simp del] and matchstar.simps [simp del]

fun match_at :: "byte list \<Rightarrow> byte list \<Rightarrow> bool" where
  "match_at re [] = matchhere re []"
| "match_at re (x # t) = (if matchhere re (x # t) then True else match_at re t)"

definition re_match :: "byte list \<Rightarrow> byte list \<Rightarrow> bool" where
  "re_match re t = (if re \<noteq> [] \<and> hd re = hat then matchhere (tl re) t else match_at re t)"

text \<open>The inner loop of \<^verbatim>\<open>grep\<close>: the lines it writes and what is left after the last newline.\<close>

function grep_lines :: "byte list \<Rightarrow> byte list \<Rightarrow> out \<times> byte list" where
  "grep_lines re p =
     (let line = takeWhile (\<lambda>b. b \<noteq> newline \<and> b \<noteq> 0) p; q = drop (length line) p in
      if q \<noteq> [] \<and> hd q = newline then
        case grep_lines re (tl q) of (w, rest) \<Rightarrow> ((if re_match re line then (1, line @ [newline]) # w else w), rest)
      else ([], p))"
  by pat_completeness auto
termination by (relation "measure (\<lambda>(_, p). length p)") (auto simp: neq_Nil_conv dest: arg_cong [where f = length])

declare grep_lines.simps [simp del]

text \<open>\<open>held\<close> is the part of \<^verbatim>\<open>buf\<close> before \<^verbatim>\<open>m\<close>.\<close>

function grep :: "byte list \<Rightarrow> byte list \<Rightarrow> input \<Rightarrow> out" where
  "grep re held i =
     (case rd (1024 - length held - 1) i of
        (None, i) \<Rightarrow> []
      | (Some b, i) \<Rightarrow>
          if b = [] then []
          else case grep_lines re (held @ b) of (w, rest) \<Rightarrow>
            w @ grep re (if length rest = length (held @ b) then [] else rest) i)"
  by pat_completeness auto
termination by (relation "measure (\<lambda>(_, _, i). todo i)") (auto dest: rd_less_sym)

declare grep.simps [simp del]

definition grep_main :: "(byte list \<Rightarrow> input option) \<Rightarrow> input \<Rightarrow> byte list list \<Rightarrow> out res" where
  "grep_main opn stdin argv =
     (if length argv \<le> 1 then fprintf 2 (bs ''usage: grep pattern [file ...]'' @ [newline]) []
      else if length argv \<le> 2 then Inr (grep (argv ! 1) [] stdin)
      else each (\<lambda>a. case opn a of
              None \<Rightarrow> bnd (fprintf 1 (bs ''grep: cannot open %s'' @ [newline]) [A_str (Some a)]) (\<lambda>w. Inr (w, True))
            | Some i \<Rightarrow> Inr (grep (argv ! 1) [] i, False)) (drop 2 argv))"

section \<open>wc\<close>

record wcount =
  wl :: int
  ww :: int
  wc :: int
  inword :: bool

definition is_blank :: "byte \<Rightarrow> bool" where
  "is_blank b \<longleftrightarrow> b \<in> {32, 13, 9, 10, 11}"

definition wc_byte :: "byte \<Rightarrow> wcount \<Rightarrow> wcount" where
  "wc_byte b s =
     (let s = s\<lparr>wc := s32 (wc s + 1)\<rparr>; s = (if b = newline then s\<lparr>wl := s32 (wl s + 1)\<rparr> else s) in
      if is_blank b then s\<lparr>inword := False\<rparr>
      else if \<not> inword s then s\<lparr>ww := s32 (ww s + 1), inword := True\<rparr> else s)"

function wc_loop :: "input \<Rightarrow> wcount \<Rightarrow> wcount option" where
  "wc_loop i s =
     (case rd 512 i of
        (None, i) \<Rightarrow> None
      | (Some b, i) \<Rightarrow> if b = [] then Some s else wc_loop i (fold wc_byte b s))"
  by pat_completeness auto
termination by (relation "measure (\<lambda>(i, _). todo i)") (auto dest: rd_less_sym)

declare wc_loop.simps [simp del]

definition wc_file :: "input \<Rightarrow> byte list \<Rightarrow> (out \<times> bool) res" where
  "wc_file i name =
     (case wc_loop i \<lparr>wl = 0, ww = 0, wc = 0, inword = False\<rparr> of
        None \<Rightarrow> bnd (fprintf 1 (bs ''wc: read error'' @ [newline]) []) (\<lambda>w. Inr (w, True))
      | Some s \<Rightarrow> bnd (fprintf 1 (bs ''%d %d %d %s'' @ [newline]) [A_int (wl s), A_int (ww s), A_int (wc s), A_str (Some name)])
          (\<lambda>w. Inr (w, False)))"

definition wc_main :: "(byte list \<Rightarrow> input option) \<Rightarrow> input \<Rightarrow> byte list list \<Rightarrow> out res" where
  "wc_main opn stdin argv =
     (if length argv \<le> 1 then bnd (wc_file stdin []) (\<lambda>(w, _). Inr w)
      else each (\<lambda>a. case opn a of
              None \<Rightarrow> bnd (fprintf 1 (bs ''wc: cannot open %s'' @ [newline]) [A_str (Some a)]) (\<lambda>w. Inr (w, True))
            | Some i \<Rightarrow> wc_file i a) (drop 1 argv))"

section \<open>cat and echo\<close>

text \<open>\<open>wr\<close> is what \<^verbatim>\<open>write\<close> returns.\<close>

function cat :: "(byte list \<Rightarrow> int) \<Rightarrow> input \<Rightarrow> (out \<times> bool) res" where
  "cat wr i =
     (case rd 512 i of
        (None, i) \<Rightarrow> bnd (fprintf 1 (bs ''cat: read error'' @ [newline]) []) (\<lambda>w. Inr (w, True))
      | (Some b, i) \<Rightarrow>
          if b = [] then Inr ([], False)
          else if wr b \<noteq> int (length b) then
            bnd (fprintf 1 (bs ''cat: write error'' @ [newline]) []) (\<lambda>w. Inr ((1, b) # w, True))
          else bnd (cat wr i) (\<lambda>(w, ex). Inr ((1, b) # w, ex)))"
  by pat_completeness auto
termination by (relation "measure (\<lambda>(_, i). todo i)") (auto dest: rd_less_sym)

declare cat.simps [simp del]

definition cat_main :: "(byte list \<Rightarrow> int) \<Rightarrow> (byte list \<Rightarrow> input option) \<Rightarrow> input \<Rightarrow> byte list list \<Rightarrow> out res" where
  "cat_main wr opn stdin argv =
     (if length argv \<le> 1 then bnd (cat wr stdin) (\<lambda>(w, _). Inr w)
      else each (\<lambda>a. case opn a of
              None \<Rightarrow> bnd (fprintf 1 (bs ''cat: cannot open %s'' @ [newline]) [A_str (Some a)]) (\<lambda>w. Inr (w, True))
            | Some i \<Rightarrow> cat wr i) (drop 1 argv))"

definition echo_main :: "byte list list \<Rightarrow> out res" where
  "echo_main argv =
     each (\<lambda>i. bnd (fprintf 1 (bs ''%s%s'') [A_str (Some (argv ! i)), A_str (Some (if i + 1 < length argv then [32] else [newline]))])
                 (\<lambda>w. Inr (w, False))) [1..<length argv]"

section \<open>ls\<close>

record fstat =
  st_kind :: int
  st_inum :: int
  st_len :: int

definition fmtname :: "byte list \<Rightarrow> byte list" where
  "fmtname path =
     (let p = rev (takeWhile (\<lambda>c. c \<noteq> 47) (rev path)) in
      if length p \<ge> 14 then p else p @ replicate (14 - length p) 32)"

definition ls_line :: "byte list \<Rightarrow> fstat \<Rightarrow> out res" where
  "ls_line path st =
     fprintf 1 (bs ''%s %d %d %d'' @ [newline]) [A_str (Some (fmtname path)), A_int (st_kind st), A_int (st_inum st), A_int (st_len st)]"

text \<open>The loop over the entries of a directory, each of 16 bytes.\<close>

function ls_dir :: "(byte list \<Rightarrow> fstat option) \<Rightarrow> byte list \<Rightarrow> input \<Rightarrow> out res" where
  "ls_dir stat path i =
     (case rd 16 i of
        (Some de, i) \<Rightarrow>
          if length de \<noteq> 16 then Inr []
          else if de ! 0 = 0 \<and> de ! 1 = 0 then ls_dir stat path i
          else let name = path @ 47 # takeWhile (\<lambda>c. c \<noteq> 0) (drop 2 de) in
            bnd (case stat name of
                   None \<Rightarrow> fprintf 1 (bs ''ls: cannot stat %s'' @ [newline]) [A_str (Some name)]
                 | Some st \<Rightarrow> ls_line name st) (\<lambda>w.
            bnd (ls_dir stat path i) (\<lambda>ws. Inr (w @ ws)))
      | (None, i) \<Rightarrow> Inr [])"
  by pat_completeness auto
termination by (relation "measure (\<lambda>(_, _, i). todo i)") (auto dest: rd_less_sym)

declare ls_dir.simps [simp del]

definition ls :: "(byte list \<Rightarrow> fstat option) \<Rightarrow> (byte list \<Rightarrow> input option) \<Rightarrow> byte list \<Rightarrow> out res" where
  "ls stat opn path =
     (case opn path of
        None \<Rightarrow> fprintf 2 (bs ''ls: cannot open %s'' @ [newline]) [A_str (Some path)]
      | Some i \<Rightarrow> (case stat path of
          None \<Rightarrow> fprintf 2 (bs ''ls: cannot stat %s'' @ [newline]) [A_str (Some path)]
        | Some st \<Rightarrow>
            if st_kind st = 2 then ls_line path st
            else if st_kind st = 1 then
              if length path + 1 + 14 + 1 > 512 then fprintf 1 (bs ''ls: path too long'' @ [newline]) []
              else ls_dir stat path i
            else Inr []))"

definition ls_main :: "(byte list \<Rightarrow> fstat option) \<Rightarrow> (byte list \<Rightarrow> input option) \<Rightarrow> byte list list \<Rightarrow> out res" where
  "ls_main stat opn argv =
     (if length argv < 2 then ls stat opn [46]
      else each (\<lambda>a. bnd (ls stat opn a) (\<lambda>w. Inr (w, False))) (drop 1 argv))"

section \<open>What a pattern means\<close>

datatype item = One byte | Many byte

fun items :: "byte list \<Rightarrow> item list" where
  "items [] = []"
| "items [c] = (if c = dollar then [] else [One c])"
| "items (c # d # r) = (if d = star then Many c # items r else One c # items (d # r))"

text \<open>Does the pattern end with an anchor?\<close>

fun anchored :: "byte list \<Rightarrow> bool" where
  "anchored [] = False"
| "anchored [c] = (c = dollar)"
| "anchored (c # d # r) = (if d = star then anchored r else anchored (d # r))"

definition fits :: "byte \<Rightarrow> byte \<Rightarrow> bool" where
  "fits c x \<longleftrightarrow> c = dot \<or> c = x"

fun lang :: "item list \<Rightarrow> byte list set" where
  "lang [] = {[]}"
| "lang (One c # is) = {x # w | x w. fits c x \<and> w \<in> lang is}"
| "lang (Many c # is) = {u @ w | u w. (\<forall>x\<in>set u. fits c x) \<and> w \<in> lang is}"

text \<open>A word of the language at the beginning of \<open>t\<close>, and all of \<open>t\<close> if \<open>e\<close>.\<close>

definition starts :: "item list \<Rightarrow> bool \<Rightarrow> byte list \<Rightarrow> bool" where
  "starts is e t \<longleftrightarrow> (\<exists>u v. t = u @ v \<and> u \<in> lang is \<and> (e \<longrightarrow> v = []))"

lemma starts_Nil [simp]: "starts [] e t \<longleftrightarrow> (e \<longrightarrow> t = [])"
  by (simp add: starts_def)

lemma starts_One [simp]: "starts (One c # is) e t \<longleftrightarrow> t \<noteq> [] \<and> fits c (hd t) \<and> starts is e (tl t)"
proof (cases t)
  case (Cons x t')
  have "starts (One c # is) e (x # t') \<longleftrightarrow> (\<exists>w v. t' = w @ v \<and> fits c x \<and> w \<in> lang is \<and> (e \<longrightarrow> v = []))"
    by (auto simp: starts_def Cons_eq_append_conv)
  then show ?thesis using Cons by (auto simp: starts_def)
qed (simp add: starts_def)

lemma starts_Many_iff:
  "starts (Many c # is) e t \<longleftrightarrow> (\<exists>u w v. t = u @ w @ v \<and> (\<forall>x\<in>set u. fits c x) \<and> w \<in> lang is \<and> (e \<longrightarrow> v = []))"
proof
  assume "starts (Many c # is) e t"
  then obtain p v where "t = p @ v" "p \<in> lang (Many c # is)" "e \<longrightarrow> v = []" unfolding starts_def by blast
  moreover then obtain u w where "p = u @ w" "\<forall>x\<in>set u. fits c x" "w \<in> lang is" by auto
  ultimately show "\<exists>u w v. t = u @ w @ v \<and> (\<forall>x\<in>set u. fits c x) \<and> w \<in> lang is \<and> (e \<longrightarrow> v = [])"
    by (intro exI [of _ u] exI [of _ w] exI [of _ v]) simp
next
  assume "\<exists>u w v. t = u @ w @ v \<and> (\<forall>x\<in>set u. fits c x) \<and> w \<in> lang is \<and> (e \<longrightarrow> v = [])"
  then obtain u w v where *: "t = u @ w @ v" "\<forall>x\<in>set u. fits c x" "w \<in> lang is" "e \<longrightarrow> v = []" by blast
  then have "u @ w \<in> lang (Many c # is)" by auto
  then show "starts (Many c # is) e t" unfolding starts_def using * by (intro exI [of _ "u @ w"] exI [of _ v]) simp
qed

lemma starts_Many: "starts (Many c # is) e t \<longleftrightarrow> starts is e t \<or> t \<noteq> [] \<and> fits c (hd t) \<and> starts (Many c # is) e (tl t)"
proof
  assume "starts (Many c # is) e t"
  then obtain u w v where t: "t = u @ w @ v" "\<forall>x\<in>set u. fits c x" "w \<in> lang is" "e \<longrightarrow> v = []" unfolding starts_Many_iff by blast
  show "starts is e t \<or> t \<noteq> [] \<and> fits c (hd t) \<and> starts (Many c # is) e (tl t)"
  proof (cases u)
    case Nil
    then show ?thesis using t by (auto simp: starts_def)
  next
    case (Cons x u')
    then have "starts (Many c # is) e (tl t)" unfolding starts_Many_iff using t by (intro exI [of _ u'] exI [of _ w] exI [of _ v]) simp
    then show ?thesis using t Cons by simp
  qed
next
  assume "starts is e t \<or> t \<noteq> [] \<and> fits c (hd t) \<and> starts (Many c # is) e (tl t)"
  then consider "starts is e t" | x t' where "t = x # t'" "fits c x" "starts (Many c # is) e t'" by (cases t) auto
  then show "starts (Many c # is) e t"
  proof cases
    case 1
    then obtain u v where "t = u @ v" "u \<in> lang is" "e \<longrightarrow> v = []" unfolding starts_def by blast
    then show ?thesis unfolding starts_Many_iff by (intro exI [of _ "[]"] exI [of _ u] exI [of _ v]) simp
  next
    case 2
    then obtain u w v where "t' = u @ w @ v" "\<forall>x\<in>set u. fits c x" "w \<in> lang is" "e \<longrightarrow> v = []" unfolding starts_Many_iff by blast
    then show ?thesis unfolding starts_Many_iff using 2 by (intro exI [of _ "x # u"] exI [of _ w] exI [of _ v]) simp
  qed
qed

lemma matchhere_eq: "matchhere re t = starts (items re) (anchored re) t"
  and matchstar_eq: "matchstar c re t = starts (Many c # items re) (anchored re) t"
proof (induction re t and c re t rule: matchhere_matchstar.induct)
  case (1 re t)
  show ?case using 1 by (subst matchhere.simps, cases re rule: items.cases) (auto simp: fits_def matchhere.simps [of "[]"])
next
  case (2 c re t)
  then show ?case by (subst matchstar.simps, subst starts_Many) (auto simp: fits_def)
qed

lemma match_at_eq: "match_at re t \<longleftrightarrow> (\<exists>a b. t = a @ b \<and> starts (items re) (anchored re) b)"
proof (induction t)
  case (Cons x t)
  then show ?case by (simp add: matchhere_eq Cons_eq_append_conv) blast
qed (simp add: matchhere_eq)

definition pattern_body :: "byte list \<Rightarrow> byte list" where
  "pattern_body re = (if re \<noteq> [] \<and> hd re = hat then tl re else re)"

text \<open>C34: \<^verbatim>\<open>match\<close> decides what its patterns mean: it returns true exactly when the line has a part that is a word of
  the language of the pattern, at the beginning of the line if the pattern starts with \<^verbatim>\<open>^\<close> and at its end if it ends with \<^verbatim>\<open>$\<close>.\<close>

theorem match_decides_pattern:
  "re_match re t \<longleftrightarrow>
    (\<exists>a u v. t = a @ u @ v \<and> u \<in> lang (items (pattern_body re)) \<and> (re \<noteq> [] \<and> hd re = hat \<longrightarrow> a = []) \<and>
      (anchored (pattern_body re) \<longrightarrow> v = []))"
  unfolding re_match_def pattern_body_def matchhere_eq match_at_eq starts_def by auto

theorem match_decides_pattern_witness:
  "re_match [97, 42, 98] [99, 97, 97, 98] = (\<exists>a u v. [99, 97, 97, 98] = a @ u @ v \<and> u \<in> lang [Many 97, One 98])"
  by (subst match_decides_pattern) (simp add: pattern_body_def)

section \<open>Lines\<close>

abbreviation lines :: "byte list \<Rightarrow> byte list list" where
  "lines \<equiv> split_by (\<lambda>b. b = newline)"

text \<open>The writes for the lines of a list that match.\<close>

definition matching :: "byte list \<Rightarrow> byte list list \<Rightarrow> out" where
  "matching re ll = map (\<lambda>l. (1, l @ [newline])) (filter (re_match re) ll)"

lemma matching_append: "matching re (a @ b) = matching re a @ matching re b"
  by (simp add: matching_def)

lemma grep_lines_eq: "0 \<notin> set p \<Longrightarrow> grep_lines re p = (matching re (butlast (lines p)), last (lines p))"
proof (induction re p rule: grep_lines.induct)
  case (1 re p)
  have tw: "takeWhile (\<lambda>b. b \<noteq> newline \<and> b \<noteq> 0) p = takeWhile (\<lambda>b. b \<noteq> newline) p"
    using 1(2) by (intro takeWhile_cong) auto
  define line where "line = takeWhile (\<lambda>b. b \<noteq> newline) p"
  define q where "q = drop (length line) p"
  have q: "q = dropWhile (\<lambda>b. b \<noteq> newline) p" by (simp add: q_def line_def dropWhile_eq_drop)
  have p: "p = line @ q" by (simp add: q line_def)
  have nl: "\<forall>c\<in>set line. \<not> c = newline" unfolding line_def by (metis set_takeWhileD)
  have g: "grep_lines re p =
    (if q \<noteq> [] \<and> hd q = newline then
       case grep_lines re (tl q) of (w, rest) \<Rightarrow> ((if re_match re line then (1, line @ [newline]) # w else w), rest)
     else ([], p))"
    by (subst grep_lines.simps) (simp only: tw Let_def line_def [symmetric] q_def [symmetric])
  show ?case
  proof (cases "q = []")
    case True
    then have "lines p = [p]" using p split_by_last [OF nl] by simp
    then show ?thesis using True by (simp add: g matching_def)
  next
    case False
    then have h: "hd q = newline" using hd_dropWhile [of "\<lambda>b. b \<noteq> newline" p] q by simp
    then have p2: "p = line @ newline # tl q" using p False by (metis list.collapse)
    then have l: "lines p = line # lines (tl q)" using split_by_elem [OF nl, of newline "tl q"] by simp
    have "0 \<notin> set (tl q)" using 1(2) p2 by (metis Un_iff list.set_intros(2) set_append)
    then have "grep_lines re (tl q) = (matching re (butlast (lines (tl q))), last (lines (tl q)))"
      using 1(1) [unfolded tw, OF line_def [folded q_def] q_def] False h by simp
    then show ?thesis using False h l by (simp add: g matching_def)
  qed
qed

lemma grep_eq:
  assumes "\<forall>c\<in>set cs. newline \<in> set c \<and> 0 \<notin> set c \<and> length c \<le> 511" and "0 \<notin> set held" and "length held < 512" and "\<forall>b\<in>set held. \<not> b = newline"
  shows "grep re held (map Some cs) = matching re (butlast (lines (held @ concat cs)))"
  using assms
proof (induction cs arbitrary: held)
  case Nil
  then show ?case by (simp add: grep.simps split_by_last) (simp add: matching_def)
next
  case (Cons c cs)
  let ?b = "lines (held @ c)"
  have c: "newline \<in> set c" "0 \<notin> set c" "length c \<le> 511" using Cons.prems(1) by auto
  have "length (last ?b) < length c" by (rule split_by_last_part) (use c in auto)
  moreover have "0 \<notin> set (last ?b) \<and> (\<forall>b\<in>set (last ?b). \<not> b = newline)" using split_by_set [of "\<lambda>b. b = newline" "held @ c"] c(2) Cons.prems(2) by auto
  ultimately have "grep re (last ?b) (map Some cs) = matching re (butlast (lines (last ?b @ concat cs)))"
    using Cons.prems(1) c by (intro Cons.IH) auto
  moreover have "length c \<le> 1024 - length held - 1" "c \<noteq> []" using c Cons.prems(3) by auto
  moreover have "grep_lines re (held @ c) = (matching re (butlast ?b), last ?b)" using c Cons.prems(2) by (intro grep_lines_eq) simp
  ultimately have "grep re held (map Some (c # cs)) = matching re (butlast ?b) @ matching re (butlast (lines (last ?b @ concat cs)))"
    using \<open>length (last ?b) < length c\<close> by (subst grep.simps) simp
  also have "\<dots> = matching re (butlast (lines ((held @ c) @ concat cs)))"
    by (subst (2) split_by_append) (simp add: matching_append butlast_append)
  finally show ?case by simp
qed

text \<open>C35: \<^verbatim>\<open>grep\<close> writes exactly the lines that match, whole and in order, whatever the sizes of the reads, as long
  as every read brings the end of some line and at most half a buffer of bytes other than NUL.\<close>

theorem grep_prints_matching_lines:
  assumes "\<forall>c\<in>set cs. newline \<in> set c \<and> 0 \<notin> set c \<and> length c \<le> 511"
  shows "grep re [] (map Some cs) = map (\<lambda>l. (1, l @ [newline])) (filter (re_match re) (butlast (lines (concat cs))))"
  using grep_eq [OF assms, of "[]" re] by (simp add: matching_def)

theorem grep_prints_matching_lines_witness:
  "grep [98] [] (map Some [[97, 10, 98], [99, 10]]) =
   map (\<lambda>l. (1, l @ [newline])) (filter (re_match [98]) (butlast (lines (concat [[97, 10, 98], [99, 10]]))))"
  by (rule grep_prints_matching_lines) simp

text \<open>A line that arrives in two reads, the first without a newline, is lost: \<^verbatim>\<open>if(p == buf) m = 0\<close> discards its beginning.\<close>

lemma grep_drops_partial_line: "grep [98] [] [Some [98], Some [10]] = []" "re_match [98] [98]"
  by (simp_all add: grep.simps grep_lines.simps re_match_def matchhere.simps)

section \<open>Words\<close>

fun new_words :: "bool \<Rightarrow> byte list \<Rightarrow> nat" where
  "new_words iw [] = 0"
| "new_words iw (b # xs) = (if is_blank b then new_words False xs else (if iw then 0 else 1) + new_words True xs)"

definition words :: "byte list \<Rightarrow> byte list list" where
  "words xs = filter (\<lambda>w. w \<noteq> []) (split_by is_blank xs)"

lemma words_new: "length (words xs) = new_words False xs \<and> length (filter (\<lambda>w. w \<noteq> []) (tl (split_by is_blank xs))) = new_words True xs"
  by (induction xs) (auto simp: words_def)

lemma wc_bytes:
  assumes "0 \<le> wl s" "0 \<le> ww s" "0 \<le> wc s" "wl s + int (length xs) < 2 ^ 31" "ww s + int (length xs) < 2 ^ 31" "wc s + int (length xs) < 2 ^ 31"
  shows "wl (fold wc_byte xs s) = wl s + int (count_list xs newline) \<and> ww (fold wc_byte xs s) = ww s + int (new_words (inword s) xs) \<and>
    wc (fold wc_byte xs s) = wc s + int (length xs)"
  using assms
proof (induction xs arbitrary: s)
  case (Cons b xs)
  have "s32 (wl s + 1) = wl s + 1" "s32 (ww s + 1) = ww s + 1" "s32 (wc s + 1) = wc s + 1" using Cons.prems by (simp_all add: s32_id)
  then have f: "wl (wc_byte b s) = wl s + (if b = newline then 1 else 0)" "wc (wc_byte b s) = wc s + 1"
    "ww (wc_byte b s) = ww s + (if is_blank b \<or> inword s then 0 else 1)" "inword (wc_byte b s) = (\<not> is_blank b)"
    by (simp_all add: wc_byte_def Let_def)
  have "wl (fold wc_byte xs (wc_byte b s)) = wl (wc_byte b s) + int (count_list xs newline) \<and>
    ww (fold wc_byte xs (wc_byte b s)) = ww (wc_byte b s) + int (new_words (inword (wc_byte b s)) xs) \<and>
    wc (fold wc_byte xs (wc_byte b s)) = wc (wc_byte b s) + int (length xs)"
    by (rule Cons.IH) (use Cons.prems in \<open>simp_all add: f\<close>)
  then show ?case by (simp add: f)
qed simp

lemma wc_loop_eq: "\<forall>c\<in>set cs. c \<noteq> [] \<Longrightarrow> wc_loop (map Some cs) s = Some (fold wc_byte (concat cs) s)"
proof (induction "todo (map Some cs)" arbitrary: cs s rule: less_induct)
  case less
  show ?case
  proof (cases cs)
    case Nil
    then show ?thesis by (simp add: wc_loop.simps)
  next
    case (Cons c ds)
    define es where "es = (if length c > 512 then drop 512 c # ds else ds)"
    have r: "rd 512 (map Some cs) = (Some (take 512 c), map Some es)" using Cons by (simp add: es_def)
    have ne: "take 512 c \<noteq> []" using less(2) Cons by auto
    have "wc_loop (map Some es) (fold wc_byte (take 512 c) s) = Some (fold wc_byte (concat es) (fold wc_byte (take 512 c) s))"
      by (rule less(1) [OF rd_less [OF r ne]]) (use less(2) Cons in \<open>auto simp: es_def\<close>)
    moreover have "concat cs = take 512 c @ concat es" using Cons by (simp add: es_def)
    ultimately show ?thesis using r ne by (subst wc_loop.simps) simp
  qed
qed

text \<open>C36: \<^verbatim>\<open>wc\<close> counts newlines, words and bytes correctly: words are the maximal runs of bytes that are not blank, also when a
  run is cut by the end of a read.\<close>

theorem wc_counts:
  assumes "\<forall>c\<in>set cs. c \<noteq> []" and "length (concat cs) < 2 ^ 31"
  shows "wc_file (map Some cs) name =
    bnd (fprintf 1 (bs ''%d %d %d %s'' @ [newline])
          [A_int (int (count_list (concat cs) newline)), A_int (int (length (words (concat cs)))), A_int (int (length (concat cs))),
           A_str (Some name)]) (\<lambda>w. Inr (w, False))"
  using wc_bytes [of "\<lparr>wl = 0, ww = 0, wc = 0, inword = False\<rparr>" "concat cs"] assms(2) words_new [of "concat cs"]
  by (simp add: wc_file_def wc_loop_eq [OF assms(1)])

theorem wc_counts_witness:
  "wc_file (map Some [[97, 98], [99, 32, 100, 10]]) [] =
    bnd (fprintf 1 (bs ''%d %d %d %s'' @ [newline])
          [A_int (int (count_list (concat [[97, 98], [99, 32, 100, 10]]) newline)),
           A_int (int (length (words (concat [[97, 98], [99, 32, 100, 10]])))),
           A_int (int (length (concat [[97, 98], [99, 32, 100, 10 :: byte]]))), A_str (Some [])]) (\<lambda>w. Inr (w, False))"
  by (rule wc_counts) simp_all

end
