(* ===== verification/Pagetab.thy ===== *)
theory Pagetab
  imports Vm
begin

text \<open>
  What \<^verbatim>\<open>walkpgdir\<close> and \<^verbatim>\<open>mappages\<close> do to the translation of user addresses. The tables of an address space
  form a tree of pages of the allocator, named by their paths of indices from the root; the
  invariant says that no page is in the tree twice or both in the tree and free.
\<close>

unbundle bit_operations_syntax

section \<open>Words in memory\<close>

lemma ldq_stq [simp]: "v < 2 ^ 64 \<Longrightarrow> ldq a (stq a v s) = v"
  by (simp add: ldq_def stq_def le_get_put)

lemma ldq_stq_other: "a + 8 \<le> b \<or> b + 8 \<le> a \<Longrightarrow> ldq b (stq a v s) = ldq b s"
  unfolding ldq_def stq_def by (simp add: le_get_put_other)

lemma ldq_zero_other: "b + 8 \<le> p \<or> p + PGSIZE \<le> b \<Longrightarrow> ldq b (zero_page p s) = ldq b s"
  unfolding ldq_def zero_page_def by (auto intro!: le_get_cong simp: memset_eq)

lemma le_get_zeros: "(\<And>i. i < k \<Longrightarrow> m (a + i) = 0) \<Longrightarrow> le_get k m a = 0"
proof (induction k arbitrary: a)
  case (Suc k)
  from Suc(2) [of 0] have "m a = 0" by simp
  moreover have "le_get k m (Suc a) = 0" using Suc(2) [of "Suc i" for i] by (intro Suc(1)) simp
  ultimately show ?case by simp
qed simp

lemma ldq_zero: "p \<le> b \<Longrightarrow> b + 8 \<le> p + PGSIZE \<Longrightarrow> ldq b (zero_page p s) = 0"
  unfolding ldq_def zero_page_def by (rule le_get_zeros) (simp add: memset_eq)

lemma frame_simps [simp]:
  "freelist (stq a v s) = freelist s" "freelist (zero_page p s) = freelist s"
  by (simp_all add: stq_def zero_page_def)

section \<open>Entries\<close>

lemma not_present_0 [simp]: "\<not> present 0"
  by (simp add: present_def)

lemma present_or [simp]: "present (a OR 1)" "present (a OR b OR 1)"
proof -
  have "odd (x OR 1)" for x :: nat by (simp add: even_or_iff)
  from this [of a] this [of "a OR b"] show "present (a OR 1)" "present (a OR b OR 1)"
    by (auto simp: present_def and_one_eq or.assoc odd_iff_mod_2_eq_one)
qed

lemma PTE_ADDR_or: "a mod PGSIZE = 0 \<Longrightarrow> f < PGSIZE \<Longrightarrow> PTE_ADDR (a OR f) = a"
proof -
  assume a: "a mod PGSIZE = 0" "f < PGSIZE"
  have d: "x div PGSIZE = drop_bit 12 x" for x :: nat by (simp add: drop_bit_eq_div)
  have "drop_bit 12 f = 0" using a(2) by (simp flip: d)
  then have "(a OR f) div PGSIZE = a div PGSIZE" unfolding d by (simp only: drop_bit_or or.right_neutral)
  then show ?thesis using a(1) by (simp add: PTE_ADDR_def) (metis div_mult_mod_eq add.right_neutral)
qed

lemma or_less_64: "a < 2 ^ 64 \<Longrightarrow> b < 2 ^ 64 \<Longrightarrow> a OR b < 2 ^ 64" for a b :: nat
  by (metis take_bit_nat_eq_self_iff take_bit_or)

lemma page_addr:
  assumes "page_ok ke v" "KERNBASE \<le> ke"
  shows "V2P v mod PGSIZE = 0" "P2V (V2P v) = v" "V2P v < 2 ^ 63"
proof -
  have v: "KERNBASE \<le> v" "v < 2 ^ 64" "v mod PGSIZE = 0" using assms by (auto simp: page_ok_def)
  then have V: "V2P v = v - KERNBASE" by (simp add: V2P_def mod_if)
  have "PGSIZE dvd v" "PGSIZE dvd KERNBASE" using v(3) by (simp_all add: dvd_eq_mod_eq_0)
  then have "PGSIZE dvd v - KERNBASE" by (rule dvd_diff_nat)
  then show "V2P v mod PGSIZE = 0" unfolding V by (simp only: dvd_eq_mod_eq_0)
  show "P2V (V2P v) = v" unfolding V using v by (simp add: P2V_def)
  show "V2P v < 2 ^ 63" unfolding V using v by simp
qed

lemma table_entry:
  assumes "page_ok ke v" "KERNBASE \<le> ke"
  shows "P2V (PTE_ADDR (V2P v OR PTE_P OR PTE_W OR PTE_U)) = v" "present (V2P v OR PTE_P OR PTE_W OR PTE_U)"
    "V2P v OR PTE_P OR PTE_W OR PTE_U < 2 ^ 64"
proof -
  note p = page_addr [OF assms]
  have e: "V2P v OR PTE_P OR PTE_W OR PTE_U = V2P v OR 7" by simp
  show "P2V (PTE_ADDR (V2P v OR PTE_P OR PTE_W OR PTE_U)) = v" unfolding e using p by (simp add: PTE_ADDR_or)
  have "V2P v OR 7 = (V2P v OR 6) OR 1" by (simp add: or.assoc)
  then show "present (V2P v OR PTE_P OR PTE_W OR PTE_U)" unfolding e using present_or(1) by metis
  show "V2P v OR PTE_P OR PTE_W OR PTE_U < 2 ^ 64" unfolding e using p(3) by (intro or_less_64) simp_all
qed

section \<open>The tree of tables\<close>

definition entry :: "'a kmem_scheme \<Rightarrow> nat \<Rightarrow> nat \<Rightarrow> nat option" where
  "entry s t i = (let e = ldq (t + 8 * i) s in if present e then Some e else None)"

fun descend :: "'a kmem_scheme \<Rightarrow> nat list \<Rightarrow> nat \<Rightarrow> nat option" where
  "descend s [] t = Some t"
| "descend s (i # p) t = (case entry s t i of None \<Rightarrow> None | Some e \<Rightarrow> descend s p (P2V (PTE_ADDR e)))"

lemma descend_snoc:
  "descend s (p @ [i]) t = (case descend s p t of None \<Rightarrow> None | Some u \<Rightarrow> map_option (\<lambda>e. P2V (PTE_ADDR e)) (entry s u i))"
  by (induction p arbitrary: t) (auto split: option.splits)

definition upath :: "nat list \<Rightarrow> bool" where
  "upath p \<longleftrightarrow> length p \<le> 3 \<and> (\<forall>i\<in>set p. i < 512) \<and> (p \<noteq> [] \<longrightarrow> hd p < 256)"

lemma upath_prefix: "upath (p @ q) \<Longrightarrow> upath p"
  by (auto simp: upath_def)

definition pt_inv :: "nat \<Rightarrow> 'a kmem_scheme \<Rightarrow> nat list \<Rightarrow> nat \<Rightarrow> bool" where
  "pt_inv ke s xs root \<longleftrightarrow> kinv ke s xs \<and> KERNBASE \<le> ke \<and>
     (\<forall>p t. upath p \<and> descend s p root = Some t \<longrightarrow> page_ok ke t \<and> t \<notin> set xs) \<and>
     (\<forall>p q t. upath p \<and> upath q \<and> descend s p root = Some t \<and> descend s q root = Some t \<longrightarrow> p = q)"

lemma pt_invD:
  assumes "pt_inv ke s xs root"
  shows "kinv ke s xs" "KERNBASE \<le> ke" "upath p \<Longrightarrow> descend s p root = Some t \<Longrightarrow> page_ok ke t \<and> t \<notin> set xs"
    "upath p \<Longrightarrow> upath q \<Longrightarrow> descend s p root = Some t \<Longrightarrow> descend s q root = Some t \<Longrightarrow> p = q"
  using assms by (auto simp: pt_inv_def)

text \<open>The entry of the last level, which translates a page.\<close>

definition leaf :: "'a kmem_scheme \<Rightarrow> nat \<Rightarrow> nat list \<Rightarrow> nat \<Rightarrow> nat option" where
  "leaf s root p j = (case descend s p root of None \<Rightarrow> None | Some t \<Rightarrow> entry s t j)"

lemma entry_cong: "ldq (t + 8 * i) s' = ldq (t + 8 * i) s \<Longrightarrow> entry s' t i = entry s t i"
  by (simp add: entry_def)

lemma descend_cong:
  assumes "upath p" and "\<And>q t j. length q < 3 \<Longrightarrow> upath (q @ [j]) \<Longrightarrow> descend s q root = Some t \<Longrightarrow> ldq (t + 8 * j) s' = ldq (t + 8 * j) s"
  shows "descend s' p root = descend s p root"
  using assms(1)
proof (induction p rule: rev_induct)
  case (snoc j p)
  have "descend s' p root = descend s p root" using snoc upath_prefix by blast
  moreover have "entry s' t j = entry s t j" if "descend s p root = Some t" for t
    using assms(2) [of p j t] snoc.prems that by (intro entry_cong) (simp add: upath_def)
  ultimately show ?case by (auto simp: descend_snoc split: option.splits)
qed simp

lemma slots_apart:
  assumes "page_ok ke t" "page_ok ke u" "i < 512" "j < 512" "(t, i) \<noteq> (u, j)"
  shows "t + 8 * i + 8 \<le> u + 8 * j \<or> u + 8 * j + 8 \<le> t + 8 * i"
proof (cases "t = u")
  case False
  then have "t + PGSIZE \<le> u \<or> u + PGSIZE \<le> t" using assms(1,2) pages_apart by (simp add: page_ok_def)
  then show ?thesis using assms(3,4) by linarith
qed (use assms(5) in auto)

lemma kinv_frame:
  "kinv ke s xs \<Longrightarrow> freelist s' = freelist s \<Longrightarrow> (\<And>x. x \<in> set xs \<Longrightarrow> ldq (x + 8 * 0) s' = ldq (x + 8 * 0) s) \<Longrightarrow> kinv ke s' xs"
  using free_list_cong [of xs "kmemory s'" "kmemory s"] by (simp add: kinv_def ldq_def)

section \<open>A new table\<close>

text \<open>The state after \<^verbatim>\<open>walkpgdir\<close> has put the page \<open>n\<close> under entry \<open>i\<close> of the table \<open>t\<close>.\<close>

definition new_table :: "nat \<Rightarrow> nat \<Rightarrow> nat \<Rightarrow> 'a kmem_scheme \<Rightarrow> 'a kmem_scheme" where
  "new_table t i n s = stq (t + 8 * i) (V2P n OR PTE_P OR PTE_W OR PTE_U) (zero_page n s)"

lemma new_table_ldq:
  assumes "page_ok ke t" "page_ok ke n" "KERNBASE \<le> ke" "n \<noteq> t" "i < 512" "j < 512"
  shows "page_ok ke u \<Longrightarrow> u \<noteq> n \<Longrightarrow> (u, j) \<noteq> (t, i) \<Longrightarrow> ldq (u + 8 * j) (new_table t i n s) = ldq (u + 8 * j) s"
    "entry (new_table t i n s) n j = None" "entry (new_table t i n s) t i = Some (V2P n OR PTE_P OR PTE_W OR PTE_U)"
proof -
  show "ldq (u + 8 * j) (new_table t i n s) = ldq (u + 8 * j) s" if "page_ok ke u" "u \<noteq> n" "(u, j) \<noteq> (t, i)"
  proof -
    have "t + 8 * i + 8 \<le> u + 8 * j \<or> u + 8 * j + 8 \<le> t + 8 * i" by (rule slots_apart) (use assms that in auto)
    moreover have "u + PGSIZE \<le> n \<or> n + PGSIZE \<le> u" using assms(2) that pages_apart by (simp add: page_ok_def)
    then have "u + 8 * j + 8 \<le> n \<or> n + PGSIZE \<le> u + 8 * j" using assms(6) by linarith
    ultimately show ?thesis unfolding new_table_def by (simp only: ldq_stq_other ldq_zero_other)
  qed
  have "t + 8 * i + 8 \<le> n + 8 * j \<or> n + 8 * j + 8 \<le> t + 8 * i" by (rule slots_apart) (use assms in auto)
  then have "ldq (n + 8 * j) (new_table t i n s) = 0"
    unfolding new_table_def using assms(6) by (simp only: ldq_stq_other) (simp add: ldq_zero)
  then show "entry (new_table t i n s) n j = None" by (simp add: entry_def)
  show "entry (new_table t i n s) t i = Some (V2P n OR PTE_P OR PTE_W OR PTE_U)"
    unfolding entry_def new_table_def ldq_stq [OF table_entry(3) [OF assms(2,3)]] Let_def using table_entry(2) [OF assms(2,3)] by simp
qed

lemma descend_new_table:
  assumes inv: "pt_inv ke s xs root" and n: "page_ok ke n" "\<forall>q. upath q \<longrightarrow> descend s q root \<noteq> Some n"
    and t: "descend s p root = Some t" "upath (p @ [i])" "entry s t i = None" and q: "upath q"
  shows "descend (new_table t i n s) q root = (if q = p @ [i] then Some n else descend s q root)"
  using q
proof (induction q rule: rev_induct)
  case (snoc j q)
  let ?s = "new_table t i n s"
  have up: "upath p" "upath q" "i < 512" "j < 512" using t(2) snoc.prems upath_prefix by (auto simp: upath_def)
  have pt: "page_ok ke t" "t \<noteq> n" using pt_invD(3) [OF inv up(1) t(1)] n(2) [rule_format, OF up(1)] t(1) by auto
  note l = new_table_ldq [where s = s, OF pt(1) n(1) pt_invD(2) [OF inv] pt(2) [symmetric] up(3)]
  note IH = snoc.IH [OF up(2)]
  consider (new) "q = p @ [i]" | (gone) "q \<noteq> p @ [i]" "descend s q root = None" | (old) u where "q \<noteq> p @ [i]" "descend s q root = Some u" by auto
  then show ?case
  proof cases
    case new
    then have "descend ?s q root = Some n" "descend s q root = None" "q @ [j] \<noteq> p @ [i]" using IH t by (simp_all add: descend_snoc)
    then show ?thesis using l(2) [OF up(4)] by (simp add: descend_snoc [of _ q])
  next
    case gone
    then show ?thesis using IH t(1) by (auto simp: descend_snoc)
  next
    case (old u)
    have u: "page_ok ke u" "u \<noteq> n" using pt_invD(3) [OF inv up(2) old(2)] n(2) [rule_format, OF up(2)] old(2) by auto
    show ?thesis
    proof (cases "(u, j) = (t, i)")
      case True
      then have "q = p" using pt_invD(4) [OF inv up(2,1) _ t(1)] old(2) by simp
      then show ?thesis using True IH old l(3) [OF up(4)] table_entry(1) [OF n(1) pt_invD(2) [OF inv]] by (simp add: descend_snoc)
    next
      case False
      then have "q @ [j] \<noteq> p @ [i]" using old(2) t(1) by auto
      moreover have "entry ?s u j = entry s u j" using l(1) [OF up(4) u] False by (intro entry_cong) blast
      ultimately show ?thesis using IH old by (auto simp: descend_snoc)
    qed
  qed
qed auto

lemma leaf_new_table:
  assumes inv: "pt_inv ke s xs root" and n: "page_ok ke n" "\<forall>q. upath q \<longrightarrow> descend s q root \<noteq> Some n"
    and t: "descend s p root = Some t" "upath (p @ [i])" "entry s t i = None" and q: "upath q" "length q = 3" "j < 512"
  shows "leaf (new_table t i n s) root q j = leaf s root q j"
proof -
  let ?s = "new_table t i n s"
  have up: "upath p" "i < 512" "length p < 3" using t(2) upath_prefix by (auto simp: upath_def)
  have pt: "page_ok ke t" "t \<noteq> n" using pt_invD(3) [OF inv up(1) t(1)] n(2) [rule_format, OF up(1)] t(1) by auto
  note l = new_table_ldq [where s = s, OF pt(1) n(1) pt_invD(2) [OF inv] pt(2) [symmetric] up(2) q(3)]
  note d = descend_new_table [OF inv n t q(1)]
  show ?thesis
  proof (cases "q = p @ [i]")
    case True
    then show ?thesis using d l(2) t by (simp add: leaf_def descend_snoc)
  next
    case False
    have "entry ?s u j = entry s u j" if u: "descend s q root = Some u" for u
    proof (rule entry_cong, rule l(1))
      show "page_ok ke u" "u \<noteq> n" using pt_invD(3) [OF inv q(1) u] n(2) [rule_format, OF q(1)] u by auto
      show "(u, j) \<noteq> (t, i)" using pt_invD(4) [OF inv q(1) up(1) u] t(1) up(3) q(2) by auto
    qed
    then show ?thesis using d False by (simp add: leaf_def split: option.split)
  qed
qed

lemma pt_inv_new_table:
  assumes inv: "pt_inv ke s xs root" and n: "page_ok ke n" "n \<notin> set xs" "\<forall>q. upath q \<longrightarrow> descend s q root \<noteq> Some n"
    and t: "descend s p root = Some t" "upath (p @ [i])" "entry s t i = None"
  shows "pt_inv ke (new_table t i n s) xs root"
proof -
  let ?s = "new_table t i n s"
  have up: "upath p" "i < 512" using t(2) upath_prefix by (auto simp: upath_def)
  have pt: "page_ok ke t" "t \<notin> set xs" "t \<noteq> n" using pt_invD(3) [OF inv up(1) t(1)] n(3) [rule_format, OF up(1)] t(1) by auto
  note l = new_table_ldq [where s = s, OF pt(1) n(1) pt_invD(2) [OF inv] pt(3) [symmetric] up(2), of 0]
  note d = descend_new_table [OF inv n(1,3) t]
  have "kinv ke ?s xs"
  proof (rule kinv_frame [OF pt_invD(1) [OF inv]])
    fix x assume x: "x \<in> set xs"
    then have "page_ok ke x" using pt_invD(1) [OF inv] by (auto simp: kinv_def)
    then show "ldq (x + 8 * 0) ?s = ldq (x + 8 * 0) s" using x n(2) pt(2) by (intro l(1)) auto
  qed (simp add: new_table_def)
  moreover have "page_ok ke u \<and> u \<notin> set xs" if "upath q" "descend ?s q root = Some u" for q u
    using that d [OF that(1)] n(1,2) pt_invD(3) [OF inv that(1)] by (auto split: if_splits)
  moreover have "q = r" if "upath q" "upath r" "descend ?s q root = Some u" "descend ?s r root = Some u" for q r u
    using that d [OF that(1)] d [OF that(2)] n(3) pt_invD(4) [OF inv that(1,2)] by (auto split: if_splits)
  ultimately show ?thesis using pt_invD(2) [OF inv] unfolding pt_inv_def by blast
qed

section \<open>Walking\<close>

lemma mem_only:
  assumes "kmemory s' = kmemory s"
  shows "entry s' t i = entry s t i" "descend s' p r = descend s p r" "leaf s' root p j = leaf s root p j"
proof -
  have e: "entry s' t i = entry s t i" for t i using assms by (simp add: entry_def ldq_def)
  then show "entry s' t i = entry s t i" .
  have d: "descend s' p r = descend s p r" for p r by (induction p arbitrary: r) (auto simp: e split: option.splits)
  then show "descend s' p r = descend s p r" .
  show "leaf s' root p j = leaf s root p j" by (simp add: leaf_def d e split: option.splits)
qed

definition same_maps :: "'a kmem_scheme \<Rightarrow> 'a kmem_scheme \<Rightarrow> nat \<Rightarrow> bool" where
  "same_maps s s' root \<longleftrightarrow> (\<forall>q j. upath q \<and> length q = 3 \<and> j < 512 \<longrightarrow> leaf s' root q j = leaf s root q j)"

lemma same_maps_refl [simp]: "same_maps s s root"
  by (simp add: same_maps_def)

lemma same_maps_trans: "same_maps s s' root \<Longrightarrow> same_maps s' s'' root \<Longrightarrow> same_maps s s'' root"
  by (simp add: same_maps_def)

lemma walk_level_ok:
  assumes inv: "pt_inv ke s xs root" and t: "descend s p root = Some t" "upath (p @ [i])" and w: "walk_level t i alloc s = (r, s')"
  shows "\<exists>ys. pt_inv ke s' ys root \<and> same_maps s s' root \<and> (case r of None \<Rightarrow> alloc \<or> descend s' (p @ [i]) root = None
    | Some u \<Rightarrow> descend s' (p @ [i]) root = Some u)"
proof (cases "entry s t i")
  case (Some e)
  then have "r = Some (P2V (PTE_ADDR e))" "s' = s" using w by (auto simp: walk_level_def entry_def Let_def split: if_splits)
  then show ?thesis using inv t Some by (auto simp: descend_snoc)
next
  case None
  then have np: "\<not> present (ldq (t + 8 * i) s)" by (auto simp: entry_def Let_def split: if_splits)
  show ?thesis
  proof (cases "alloc \<and> xs \<noteq> []")
    case False
    then have "r = None" "s' = s" using w np kalloc_ok [OF pt_invD(1) [OF inv]] by (auto simp: walk_level_def Let_def split: if_splits)
    then show ?thesis using inv t None by (auto simp: descend_snoc)
  next
    case True
    then obtain n ys where xs: "xs = n # ys" by (cases xs) auto
    obtain s1 where s1: "kalloc s = (n, s1)" "kinv ke s1 ys" "kmemory s1 = kmemory s" using kalloc_ok [OF pt_invD(1) [OF inv]] xs by auto
    note m = mem_only [OF s1(3)]
    have n: "page_ok ke n" "n \<notin> set ys" "n \<noteq> 0" using pt_invD(1) [OF inv] xs by (auto simp: kinv_def page_ok_def)
    have inv1: "pt_inv ke s1 ys root" using inv s1(2) xs unfolding pt_inv_def m by auto
    have fresh: "\<forall>q. upath q \<longrightarrow> descend s1 q root \<noteq> Some n" using pt_invD(3) [OF inv] xs unfolding m by fastforce
    have t1: "descend s1 p root = Some t" "entry s1 t i = None" using t None by (simp_all add: m)
    have w': "r = Some n" "s' = new_table t i n s1" using w np True s1(1) n(3) by (simp_all add: walk_level_def Let_def new_table_def)
    have "pt_inv ke s' ys root" unfolding w' by (rule pt_inv_new_table [OF inv1 n(1,2) fresh t1(1) t(2) t1(2)])
    moreover have "same_maps s s' root" unfolding same_maps_def w'
      using leaf_new_table [OF inv1 n(1) fresh t1(1) t(2) t1(2)] m(3) by auto
    moreover have "descend s' (p @ [i]) root = Some n" unfolding w'
      using descend_new_table [OF inv1 n(1) fresh t1(1) t(2) t1(2) t(2)] by simp
    ultimately show ?thesis using w'(1) by auto
  qed
qed

definition vpath :: "nat \<Rightarrow> nat list" where
  "vpath va = [PMX va, PDPX va, PDX va]"

lemma upath_vpath: "va < 2 ^ 47 \<Longrightarrow> upath (vpath va)" "length (vpath va) = 3" "PTX va < 512"
  by (auto simp: upath_def vpath_def PMX_def PDPX_def PDX_def PTX_def div_less_iff_less_mult)

lemma walkpgdir_ok:
  assumes inv: "pt_inv ke s xs root" and va: "va < 2 ^ 47" and w: "walkpgdir root va alloc s = (r, s')"
  shows "\<exists>ys. pt_inv ke s' ys root \<and> same_maps s s' root \<and> (case r of None \<Rightarrow> alloc \<or> leaf s' root (vpath va) (PTX va) = None
    | Some pte \<Rightarrow> \<exists>t. descend s' (vpath va) root = Some t \<and> pte = t + 8 * PTX va)"
proof -
  have up: "upath [PMX va, PDPX va, PDX va]" using upath_vpath(1) [OF va] by (simp add: vpath_def)
  then have up': "upath ([] @ [PMX va])" "upath ([PMX va] @ [PDPX va])" "upath ([PMX va, PDPX va] @ [PDX va])"
    by (auto simp: upath_def)
  obtain r1 s1 where 1: "walk_level root (PMX va) alloc s = (r1, s1)" by fastforce
  obtain xs1 where inv1: "pt_inv ke s1 xs1 root" "same_maps s s1 root"
    "case r1 of None \<Rightarrow> alloc \<or> descend s1 ([] @ [PMX va]) root = None | Some u \<Rightarrow> descend s1 ([] @ [PMX va]) root = Some u"
    using walk_level_ok [OF inv descend.simps(1) up'(1) 1] by blast
  show ?thesis
  proof (cases r1)
    case None
    then show ?thesis using w 1 inv1 by (auto simp: walkpgdir_def leaf_def vpath_def split: option.splits)
  next
    case (Some u1)
    obtain r2 s2 where 2: "walk_level u1 (PDPX va) alloc s1 = (r2, s2)" by fastforce
    have d1: "descend s1 [PMX va] root = Some u1" using inv1(3) Some by simp
    obtain xs2 where inv2: "pt_inv ke s2 xs2 root" "same_maps s1 s2 root"
      "case r2 of None \<Rightarrow> alloc \<or> descend s2 ([PMX va] @ [PDPX va]) root = None | Some u \<Rightarrow> descend s2 ([PMX va] @ [PDPX va]) root = Some u"
      using walk_level_ok [OF inv1(1) d1 up'(2) 2] by blast
    note m2 = same_maps_trans [OF inv1(2) inv2(2)]
    show ?thesis
    proof (cases r2)
      case None
      then show ?thesis using w 1 2 Some inv2 m2 by (auto simp: walkpgdir_def leaf_def vpath_def split: option.splits)
    next
      case (Some u2)
      obtain r3 s3 where 3: "walk_level u2 (PDX va) alloc s2 = (r3, s3)" by fastforce
      have d2: "descend s2 [PMX va, PDPX va] root = Some u2" using inv2(3) Some by simp
      obtain xs3 where inv3: "pt_inv ke s3 xs3 root" "same_maps s2 s3 root"
        "case r3 of None \<Rightarrow> alloc \<or> descend s3 ([PMX va, PDPX va] @ [PDX va]) root = None | Some u \<Rightarrow> descend s3 ([PMX va, PDPX va] @ [PDX va]) root = Some u"
        using walk_level_ok [OF inv2(1) d2 up'(3) 3] by blast
      have "s' = s3" "r = map_option (\<lambda>t. t + 8 * PTX va) r3" using w 1 2 3 Some \<open>r1 = Some u1\<close>
        by (auto simp: walkpgdir_def split: option.splits)
      then show ?thesis using inv3 same_maps_trans [OF m2 inv3(2)] by (cases r3) (auto simp: leaf_def vpath_def)
    qed
  qed
qed

section \<open>Mapping\<close>

lemma leaf_store:
  assumes inv: "pt_inv ke s xs root" and q: "descend s q root = Some t" "upath q" "length q = 3" "j < 512" and v: "v < 2 ^ 64" "present v"
  shows "pt_inv ke (stq (t + 8 * j) v s) xs root"
    and "upath q' \<Longrightarrow> length q' = 3 \<Longrightarrow> j' < 512 \<Longrightarrow>
      leaf (stq (t + 8 * j) v s) root q' j' = (if q' = q \<and> j' = j then Some v else leaf s root q' j')"
proof -
  let ?s = "stq (t + 8 * j) v s"
  have t: "page_ok ke t" "t \<notin> set xs" using pt_invD(3) [OF inv q(2,1)] by auto
  have other: "ldq (u + 8 * k) ?s = ldq (u + 8 * k) s" if "page_ok ke u" "k < 512" "(u, k) \<noteq> (t, j)" for u k
    by (rule ldq_stq_other, rule slots_apart) (use that t q(4) in auto)
  have d: "descend ?s p root = descend s p root" if "upath p" for p
  proof (rule descend_cong [OF that])
    fix r u k assume r: "length r < 3" "upath (r @ [k])" "descend s r root = Some u"
    then have up: "upath r" "k < 512" using upath_prefix by (auto simp: upath_def)
    have "u \<noteq> t" using pt_invD(4) [OF inv up(1) q(2) r(3)] q(1,3) r(1) by auto
    then show "ldq (u + 8 * k) ?s = ldq (u + 8 * k) s" using pt_invD(3) [OF inv up(1) r(3)] up(2) by (intro other) auto
  qed
  have "kinv ke ?s xs"
  proof (rule kinv_frame [OF pt_invD(1) [OF inv]])
    show "ldq (x + 8 * 0) ?s = ldq (x + 8 * 0) s" if "x \<in> set xs" for x
      using that t(2) pt_invD(1) [OF inv] by (intro other) (auto simp: kinv_def)
  qed simp
  then show "pt_inv ke ?s xs root" using inv d unfolding pt_inv_def by (metis (full_types))
  show "leaf ?s root q' j' = (if q' = q \<and> j' = j then Some v else leaf s root q' j')" if q': "upath q'" "length q' = 3" "j' < 512"
  proof (cases "q' = q \<and> j' = j")
    case True
    then show ?thesis using d [OF q(2)] q(1) v by (simp add: leaf_def entry_def)
  next
    case False
    have "entry ?s u j' = entry s u j'" if u: "descend s q' root = Some u" for u
      using False pt_invD(4) [OF inv q'(1) q(2) u] q(1) pt_invD(3) [OF inv q'(1) u] q'(3) by (intro entry_cong other) auto
    then show ?thesis using False d [OF q'(1)] by (auto simp: leaf_def split: option.split)
  qed
qed

lemma vpath_inj:
  assumes "va < 2 ^ 47" "vb < 2 ^ 47"
  shows "vpath va = vpath vb \<and> PTX va = PTX vb \<longleftrightarrow> PGROUNDDOWN va = PGROUNDDOWN vb"
proof
  have e: "v div PGSIZE = ((PMX v * 512 + PDPX v) * 512 + PDX v) * 512 + PTX v" if "v < 2 ^ 47" for v
  proof -
    have "v div 2 ^ 39 < 512" using that by (simp add: div_less_iff_less_mult)
    moreover have "x = x div 512 * 512 + x mod 512" for x :: nat by simp
    from this [of "v div PGSIZE"] this [of "v div 2 ^ 21"] this [of "v div 2 ^ 30"]
    have "v div PGSIZE = v div 2 ^ 21 * 512 + PTX v" "v div 2 ^ 21 = v div 2 ^ 30 * 512 + PDX v" "v div 2 ^ 30 = v div 2 ^ 39 * 512 + PDPX v"
      by (simp_all add: div_mult2_eq [symmetric] PTX_def PDX_def PDPX_def)
    ultimately show ?thesis by (simp add: PMX_def)
  qed
  assume "vpath va = vpath vb \<and> PTX va = PTX vb"
  then show "PGROUNDDOWN va = PGROUNDDOWN vb" using assms by (simp add: PGROUNDDOWN_def e vpath_def)
next
  assume "PGROUNDDOWN va = PGROUNDDOWN vb"
  then have "va div PGSIZE = vb div PGSIZE" by (simp add: PGROUNDDOWN_def)
  moreover have "v div 2 ^ 39 = v div PGSIZE div 2 ^ 27" "v div 2 ^ 30 = v div PGSIZE div 2 ^ 18" "v div 2 ^ 21 = v div PGSIZE div 2 ^ 9" for v :: nat
    by (simp_all add: div_mult2_eq [symmetric])
  ultimately show "vpath va = vpath vb \<and> PTX va = PTX vb" by (simp add: vpath_def PMX_def PDPX_def PDX_def PTX_def)
qed

text \<open>The entry that translates the user address \<open>va\<close>.\<close>

definition translation :: "'a kmem_scheme \<Rightarrow> nat \<Rightarrow> nat \<Rightarrow> nat option" where
  "translation s root va = leaf s root (vpath va) (PTX va)"

lemma same_maps_translation: "same_maps s s' root \<Longrightarrow> va < 2 ^ 47 \<Longrightarrow> translation s' root va = translation s root va"
  using upath_vpath by (simp add: same_maps_def translation_def)

lemma translation_store:
  assumes inv: "pt_inv ke s xs root" and t: "descend s (vpath va) root = Some t" and va: "va < 2 ^ 47" and v: "v < 2 ^ 64" "present v"
  shows "pt_inv ke (stq (t + 8 * PTX va) v s) xs root"
    and "vb < 2 ^ 47 \<Longrightarrow> translation (stq (t + 8 * PTX va) v s) root vb =
      (if PGROUNDDOWN vb = PGROUNDDOWN va then Some v else translation s root vb)"
  using leaf_store [OF inv t upath_vpath(1) [OF va] upath_vpath(2,3) v] upath_vpath vpath_inj [OF _ va]
  by (auto simp: translation_def)

lemma page_between:
  assumes "a mod PGSIZE = 0" "b mod PGSIZE = 0" "a < (b :: nat)"
  shows "a + PGSIZE \<le> b"
  using pages_apart [OF assms(1,2)] assms(3) by auto

text \<open>The pages from \<open>a\<close> to \<open>lst\<close> after the loop has returned \<open>r\<close>; every other page keeps its translation.\<close>

definition mapped :: "'a kmem_scheme \<Rightarrow> 'a kmem_scheme \<Rightarrow> nat \<Rightarrow> nat \<Rightarrow> nat \<Rightarrow> nat \<Rightarrow> nat \<Rightarrow> int \<Rightarrow> bool" where
  "mapped s s' root a lst pa perm r \<longleftrightarrow> (\<forall>b<2 ^ 47.
     if a \<le> PGROUNDDOWN b \<and> PGROUNDDOWN b \<le> lst
     then r = 0 \<longrightarrow> translation s' root b = Some ((pa + (PGROUNDDOWN b - a)) OR perm OR PTE_P)
     else translation s' root b = translation s root b)"

lemma mappages_loop_ok:
  assumes "pt_inv ke s xs root" and "a mod PGSIZE = 0" and "lst mod PGSIZE = 0" and "a \<le> lst" and "lst < 2 ^ 47"
    and "\<And>b. a \<le> PGROUNDDOWN b \<Longrightarrow> PGROUNDDOWN b \<le> lst \<Longrightarrow> translation s root b = None"
    and "pa + (lst - a) < 2 ^ 64" and "perm < 2 ^ 64"
  shows "\<exists>r s' ys. mappages_loop root a lst pa perm s = Inr (r, s') \<and> pt_inv ke s' ys root \<and> (r = 0 \<or> r = - 1) \<and>
    mapped s s' root a lst pa perm r"
  using assms
proof (induction root a lst pa perm s arbitrary: xs rule: mappages_loop.induct)
  case (1 root a lst pa perm s)
  note inv = 1(2) and al = 1(3) and ll = 1(4) and le = 1(5) and bd = 1(6) and un = 1(7) and pa = 1(8) and pe = 1(9)
  have a: "a < 2 ^ 47" "PGROUNDDOWN a = a" using le bd al by (auto simp: PGROUNDDOWN_def)
  obtain w s1 where w: "walkpgdir root a True s = (w, s1)" by fastforce
  obtain ys where inv1: "pt_inv ke s1 ys root" and same: "same_maps s s1 root"
    and r1: "case w of None \<Rightarrow> True | Some pte \<Rightarrow> \<exists>t. descend s1 (vpath a) root = Some t \<and> pte = t + 8 * PTX a"
    using walkpgdir_ok [OF inv a(1) w] by (auto split: option.splits)
  note tr1 = same_maps_translation [OF same]
  show ?case
  proof (cases w)
    case None
    then have "mappages_loop root a lst pa perm s = Inr (- 1, s1)" using w by (simp add: mappages_loop.simps)
    then show ?thesis using inv1 tr1 by (intro exI conjI) (auto simp: mapped_def)
  next
    case (Some pte)
    then obtain t where t: "descend s1 (vpath a) root = Some t" "pte = t + 8 * PTX a" using r1 by auto
    let ?v = "pa OR perm OR PTE_P" and ?s = "stq pte (pa OR perm OR PTE_P) s1"
    have "translation s1 root a = None" using tr1 [OF a(1)] un [of a] a(2) le by simp
    then have np: "\<not> present (ldq pte s1)" using t by (auto simp: translation_def leaf_def entry_def Let_def split: if_splits)
    have "?v < 2 ^ 64" using pa pe by (intro or_less_64) simp_all
    note st = translation_store [OF inv1 t(1) a(1) this present_or(2), folded t(2)]
    have st2: "translation ?s root b = (if PGROUNDDOWN b = a then Some ?v else translation s root b)" if "b < 2 ^ 47" for b
      using st(2) [OF that] tr1 [OF that] a(2) by simp
    show ?thesis
    proof (cases "a = lst")
      case True
      then have "mappages_loop root a lst pa perm s = Inr (0, ?s)" using w Some np by (simp add: mappages_loop.simps Let_def)
      moreover have "mapped s ?s root a lst pa perm 0" unfolding mapped_def using st2 True by auto
      ultimately show ?thesis using st(1) by blast
    next
      case False
      then have lt: "a + PGSIZE \<le> lst" using page_between [OF al ll] le by simp
      then have run: "mappages_loop root a lst pa perm s = mappages_loop root (a + PGSIZE) lst (pa + PGSIZE) perm ?s"
        using w Some np False by (subst mappages_loop.simps) (simp add: Let_def)
      have pg: "PGROUNDDOWN b mod PGSIZE = 0" for b by (simp add: PGROUNDDOWN_def)
      have un': "translation ?s root b = None" if "a + PGSIZE \<le> PGROUNDDOWN b" "PGROUNDDOWN b \<le> lst" for b
      proof -
        have "lst + PGSIZE \<le> 2 ^ 47" using page_between [OF ll _ bd] by simp
        moreover have "b < PGROUNDDOWN b + PGSIZE" using div_mult_mod_eq [of b PGSIZE] mod_less_divisor [of PGSIZE b] by (simp add: PGROUNDDOWN_def)
        ultimately have "b < 2 ^ 47" using that(2) by linarith
        then show ?thesis using st2 [of b] un [of b] that by simp
      qed
      have "\<exists>r s' ys. mappages_loop root (a + PGSIZE) lst (pa + PGSIZE) perm ?s = Inr (r, s') \<and> pt_inv ke s' ys root \<and> (r = 0 \<or> r = - 1) \<and>
          mapped ?s s' root (a + PGSIZE) lst (pa + PGSIZE) perm r"
        by (rule 1(1) [OF w [symmetric] Some np _ False _ st(1)]) (use lt al ll bd un' pa pe in auto)
      then obtain r s' zs where r: "mappages_loop root (a + PGSIZE) lst (pa + PGSIZE) perm ?s = Inr (r, s')" "pt_inv ke s' zs root"
        "r = 0 \<or> r = - 1" "mapped ?s s' root (a + PGSIZE) lst (pa + PGSIZE) perm r" by blast
      have "mapped s s' root a lst pa perm r" unfolding mapped_def
      proof (intro allI impI)
        fix b :: nat assume b: "b < 2 ^ 47"
        consider "PGROUNDDOWN b < a" | "PGROUNDDOWN b = a" | "a + PGSIZE \<le> PGROUNDDOWN b" using page_between [OF al pg] by (meson linorder_neqE_nat)
        then show "if a \<le> PGROUNDDOWN b \<and> PGROUNDDOWN b \<le> lst
          then r = 0 \<longrightarrow> translation s' root b = Some ((pa + (PGROUNDDOWN b - a)) OR perm OR PTE_P)
          else translation s' root b = translation s root b"
          using r(4) b st2 [OF b] le unfolding mapped_def by cases (auto split: if_splits)
      qed
      then show ?thesis using run r(1-3) by metis
    qed
  qed
qed

text \<open>C5: \<^verbatim>\<open>mappages\<close> maps what it is asked to map and nothing else. On a range of user pages that are not mapped yet
  it does not panic; if it returns 0 then every page of the range translates to its physical page with the given permissions, if it
  runs out of memory it returns -1, and in both cases every address outside the range translates as before and the
  tables are still a tree of pages that the allocator does not hand out.\<close>

theorem mappages_maps:
  assumes "pt_inv ke s xs root" and "0 < sz" and "va + sz \<le> 2 ^ 47" and "pa + sz + PGSIZE \<le> 2 ^ 64" and "perm < PGSIZE" and "b < 2 ^ 47"
    and "\<forall>c. PGROUNDDOWN va \<le> PGROUNDDOWN c \<and> PGROUNDDOWN c \<le> PGROUNDDOWN (va + sz - 1) \<longrightarrow> translation s root c = None"
  shows "\<exists>r s' ys. mappages root va sz pa perm s = Inr (r, s') \<and> pt_inv ke s' ys root \<and>
    (if PGROUNDDOWN va \<le> PGROUNDDOWN b \<and> PGROUNDDOWN b \<le> PGROUNDDOWN (va + sz - 1)
     then r = 0 \<and> translation s' root b = Some ((pa + (PGROUNDDOWN b - PGROUNDDOWN va)) OR perm OR PTE_P) \<or> r = - 1
     else (r = 0 \<or> r = - 1) \<and> translation s' root b = translation s root b)"
proof -
  have al: "PGROUNDDOWN c mod PGSIZE = 0" "PGROUNDDOWN c \<le> c" for c by (simp_all add: PGROUNDDOWN_def)
  have le: "PGROUNDDOWN va \<le> PGROUNDDOWN (va + sz - 1)" unfolding PGROUNDDOWN_def using assms(2) by (intro mult_le_mono1 div_le_mono) simp
  have "va < PGROUNDDOWN va + PGSIZE" using div_mult_mod_eq [of va PGSIZE] mod_less_divisor [of PGSIZE va] by (simp add: PGROUNDDOWN_def)
  then have "pa + (PGROUNDDOWN (va + sz - 1) - PGROUNDDOWN va) < 2 ^ 64" using al(2) [of "va + sz - 1"] assms(2,4) by linarith
  moreover have "PGROUNDDOWN (va + sz - 1) < 2 ^ 47" using al(2) [of "va + sz - 1"] assms(2,3) by linarith
  moreover have "perm < 2 ^ 64" using assms(5) by simp
  ultimately obtain r s' ys where "mappages root va sz pa perm s = Inr (r, s')" "pt_inv ke s' ys root" "r = 0 \<or> r = - 1"
    "mapped s s' root (PGROUNDDOWN va) (PGROUNDDOWN (va + sz - 1)) pa perm r"
    unfolding mappages_def using mappages_loop_ok [OF assms(1) al(1) al(1) le] assms(7) by blast
  then show ?thesis using assms(6) unfolding mapped_def by (intro exI [of _ r] exI [of _ s'] exI [of _ ys]) (auto split: if_splits)
qed

text \<open>An empty address space and three free pages.\<close>

definition demo_pt :: kmem where
  "demo_pt = \<lparr>use_lock = False, freelist = KERNBASE + 0x1000,
     kmemory = le_put 8 (KERNBASE + 0x3000) (le_put 8 (KERNBASE + 0x2000) (\<lambda>_. 0) (KERNBASE + 0x1000)) (KERNBASE + 0x2000)\<rparr>"

lemma demo_pt_root: "i < 512 \<Longrightarrow> entry demo_pt KERNBASE i = None"
proof -
  assume "i < 512"
  then have "ldq (KERNBASE + 8 * i) demo_pt = 0"
    unfolding ldq_def demo_pt_def by (simp add: le_get_put_other) (simp add: le_get_zeros)
  then show ?thesis by (simp add: entry_def)
qed

lemma demo_pt_descend: "upath p \<Longrightarrow> descend demo_pt p KERNBASE = (if p = [] then Some KERNBASE else None)"
  using demo_pt_root by (cases p) (auto simp: upath_def)

lemma demo_pt_inv: "pt_inv KERNBASE demo_pt [KERNBASE + 0x1000, KERNBASE + 0x2000, KERNBASE + 0x3000] KERNBASE"
proof -
  have z: "le_get 8 (\<lambda>_. 0) a = 0" for a by (rule le_get_zeros) simp
  have "kinv KERNBASE demo_pt [KERNBASE + 0x1000, KERNBASE + 0x2000, KERNBASE + 0x3000]"
    by (simp add: kinv_def demo_pt_def page_ok_def V2P_def le_get_put le_get_put_other z)
  then show ?thesis unfolding pt_inv_def by (auto simp: demo_pt_descend page_ok_def V2P_def split: if_splits)
qed

theorem mappages_maps_witness:
  "\<exists>r s' ys. mappages KERNBASE 0x1000 0x2000 0x5000 6 demo_pt = Inr (r, s') \<and> pt_inv KERNBASE s' ys KERNBASE \<and>
    (if PGROUNDDOWN 0x1000 \<le> PGROUNDDOWN 0x2345 \<and> PGROUNDDOWN 0x2345 \<le> PGROUNDDOWN (0x1000 + 0x2000 - 1)
     then r = 0 \<and> translation s' KERNBASE 0x2345 = Some ((0x5000 + (PGROUNDDOWN 0x2345 - PGROUNDDOWN 0x1000)) OR 6 OR PTE_P) \<or> r = - 1
     else (r = 0 \<or> r = - 1) \<and> translation s' KERNBASE 0x2345 = translation demo_pt KERNBASE 0x2345)"
proof (rule mappages_maps [OF demo_pt_inv])
  show "\<forall>c. PGROUNDDOWN 0x1000 \<le> PGROUNDDOWN c \<and> PGROUNDDOWN c \<le> PGROUNDDOWN (0x1000 + 0x2000 - 1) \<longrightarrow> translation demo_pt KERNBASE c = None"
  proof (intro allI impI)
    fix c :: nat assume "PGROUNDDOWN 0x1000 \<le> PGROUNDDOWN c \<and> PGROUNDDOWN c \<le> PGROUNDDOWN (0x1000 + 0x2000 - 1)"
    then have "c div PGSIZE \<le> 2" by (simp add: PGROUNDDOWN_def)
    then have "c < 2 ^ 47" using div_less_iff_less_mult [of PGSIZE c 3] by simp
    then show "translation demo_pt KERNBASE c = None"
      using demo_pt_descend [OF upath_vpath(1)] upath_vpath(2) [of c] by (auto simp: translation_def leaf_def vpath_def)
  qed
qed simp_all

end
