(* ===== verification/Ide.thy ===== *)
theory Ide
  imports Bio
begin

text \<open>
  The disk driver for a real IDE disk, \<^verbatim>\<open>ide.c\<close>: the queue of buffers linked through \<^verbatim>\<open>qnext\<close>, of which the
  first is the one the disk works on, and the interrupt handler that completes it. A request and its completion
  are far apart, so \<^verbatim>\<open>iderw\<close> is split where it sleeps. The driver's port accesses are visible: what it writes
  is the list \<open>ports\<close>, what it reads from the status register comes from the list \<open>status\<close>, and the data
  of a read are an argument of the interrupt.
\<close>

unbundle bit_operations_syntax

section \<open>State\<close>

record qbuf = buf +
  qnext :: "nat option"

datatype port_out = Outb nat nat | Outsl nat block

record ide =
  dbufs :: "nat \<Rightarrow> qbuf"
  idequeue :: "nat option"
  havedisk1 :: bool
  status :: "byte list"
  ports :: "port_out list"
  wakeups :: "nat list"

definition upd_qbuf :: "nat \<Rightarrow> (qbuf \<Rightarrow> qbuf) \<Rightarrow> ide \<Rightarrow> ide" where
  "upd_qbuf b f s = s\<lparr>dbufs := (dbufs s)(b := f (dbufs s b))\<rparr>"

section \<open>Operations\<close>

text \<open>Polling ends when the disk is ready and not busy.\<close>

fun poll :: "bool \<Rightarrow> byte list \<Rightarrow> (int \<times> byte list) res" where
  "poll checkerr [] = Inl Diverges"
| "poll checkerr (r # rs) =
     (if r AND (0x80 OR 0x40) \<noteq> 0x40 then poll checkerr rs
      else Inr (if checkerr \<and> r AND (0x20 OR 0x01) \<noteq> 0 then - 1 else 0, rs))"

definition idewait :: "bool \<Rightarrow> ide \<Rightarrow> (int \<times> ide) res" where
  "idewait checkerr s = bnd (poll checkerr (status s)) (\<lambda>(r, rs). Inr (r, s\<lparr>status := rs\<rparr>))"

text \<open>The loop of \<^verbatim>\<open>ideinit\<close> that looks for a second disk.\<close>

fun probe :: "nat \<Rightarrow> byte list \<Rightarrow> (bool \<times> byte list) res" where
  "probe 0 rs = Inr (False, rs)"
| "probe (Suc k) [] = Inl Diverges"
| "probe (Suc k) (r # rs) = (if r \<noteq> 0 then Inr (True, rs) else probe k rs)"

definition ideinit :: "ide \<Rightarrow> ide res" where
  "ideinit s =
     bnd (idewait False s) (\<lambda>(_, s).
     let s = s\<lparr>ports := ports s @ [Outb 0x1f6 (0xe0 OR push_bit 4 1)]\<rparr> in
     bnd (probe 1000 (status s)) (\<lambda>(found, rs).
     let s = s\<lparr>status := rs, havedisk1 := found \<or> havedisk1 s\<rparr> in
     Inr (s\<lparr>ports := ports s @ [Outb 0x1f6 (0xe0 OR push_bit 4 0)]\<rparr>)))"

text \<open>What \<^verbatim>\<open>idestart\<close> writes for a block of one sector; the data are there for a write.\<close>

definition start_ops :: "nat \<Rightarrow> nat \<Rightarrow> block option \<Rightarrow> port_out list" where
  "start_ops dev sector w =
     [Outb 0x3f6 0, Outb 0x1f2 1, Outb 0x1f3 (sector AND 0xff), Outb 0x1f4 (drop_bit 8 sector AND 0xff),
      Outb 0x1f5 (drop_bit 16 sector AND 0xff),
      Outb 0x1f6 (0xe0 OR push_bit 4 (dev AND 1) OR (drop_bit 24 sector AND 0x0f))] @
     (case w of Some d \<Rightarrow> [Outb 0x1f7 0x30, Outsl 0x1f0 d] | None \<Rightarrow> [Outb 0x1f7 0x20])"

definition wdata :: "qbuf \<Rightarrow> block option" where
  "wdata b = (if b_flags b AND B_DIRTY \<noteq> 0 then Some (b_data b) else None)"

definition idestart :: "nat option \<Rightarrow> ide \<Rightarrow> ide res" where
  "idestart bp s =
     (case bp of
        None \<Rightarrow> Inl (Panic ''idestart'')
      | Some b \<Rightarrow>
          if b_blockno (dbufs s b) \<ge> FSSIZE then Inl (Panic ''incorrect blockno'')
          else bnd (idewait False s) (\<lambda>(_, s).
            Inr (s\<lparr>ports := ports s @ start_ops (b_dev (dbufs s b)) (b_blockno (dbufs s b)) (wdata (dbufs s b))\<rparr>)))"

definition ideintr :: "block \<Rightarrow> ide \<Rightarrow> ide res" where
  "ideintr input s =
     (case idequeue s of
        None \<Rightarrow> Inr s
      | Some b \<Rightarrow>
          let s = s\<lparr>idequeue := qnext (dbufs s b)\<rparr> in
          bnd (if b_flags (dbufs s b) AND B_DIRTY \<noteq> 0 then Inr s
               else bnd (idewait True s) (\<lambda>(r, s). Inr (if r \<ge> 0 then upd_qbuf b (\<lambda>x. x\<lparr>b_data := input\<rparr>) s else s))) (\<lambda>s.
          let s = upd_qbuf b (\<lambda>x. x\<lparr>b_flags := (b_flags x OR B_VALID) AND NOT B_DIRTY\<rparr>) s;
              s = s\<lparr>wakeups := wakeups s @ [b]\<rparr> in
          if idequeue s \<noteq> None then idestart (idequeue s) s else Inr s))"

text \<open>The loop that finds the end of the queue.\<close>

partial_function (option) queue_end :: "(nat \<Rightarrow> nat option) \<Rightarrow> nat \<Rightarrow> nat option" where
  "queue_end f p = (case f p of None \<Rightarrow> Some p | Some q \<Rightarrow> queue_end f q)"

definition enqueue :: "nat \<Rightarrow> ide \<Rightarrow> ide res" where
  "enqueue b s =
     (let s = upd_qbuf b (\<lambda>x. x\<lparr>qnext := None\<rparr>) s in
      case idequeue s of
        None \<Rightarrow> Inr (s\<lparr>idequeue := Some b\<rparr>)
      | Some p \<Rightarrow> (case queue_end (\<lambda>i. qnext (dbufs s i)) p of
          None \<Rightarrow> Inl Diverges
        | Some e \<Rightarrow> Inr (upd_qbuf e (\<lambda>x. x\<lparr>qnext := Some b\<rparr>) s)))"

text \<open>\<^verbatim>\<open>iderw\<close> up to its wait, and the condition of the wait.\<close>

definition ide_rw :: "nat \<Rightarrow> ide \<Rightarrow> ide res" where
  "ide_rw b s =
     (let x = dbufs s b in
      if \<not> holdingsleep (b_lock x) then Inl (Panic ''iderw: buf not locked'')
      else if b_flags x AND (B_VALID OR B_DIRTY) = B_VALID then Inl (Panic ''iderw: nothing to do'')
      else if b_dev x \<noteq> 0 \<and> \<not> havedisk1 s then Inl (Panic ''iderw: ide disk 1 not present'')
      else bnd (enqueue b s) (\<lambda>s. if idequeue s = Some b then idestart (Some b) s else Inr s))"

definition ide_waits :: "nat \<Rightarrow> ide \<Rightarrow> bool" where
  "ide_waits b s \<longleftrightarrow> b_flags (dbufs s b) AND (B_VALID OR B_DIRTY) \<noteq> B_VALID"

section \<open>The commands that the disk sees\<close>

text \<open>The task file registers of the controller and the commands it is given: device, sector, and the data of a write.\<close>

fun commands :: "(nat \<Rightarrow> nat) \<Rightarrow> port_out list \<Rightarrow> (nat \<times> nat \<times> block option) list" where
  "commands r [] = []"
| "commands r (Outsl p d # ops) = commands r ops"
| "commands r (Outb p v # ops) =
     (if p = 0x1f7 then
        (r 0x1f6 div 16 mod 2, r 0x1f3 + 256 * r 0x1f4 + 65536 * r 0x1f5 + 16777216 * (r 0x1f6 mod 16),
         if v = 0x30 then (case ops of Outsl _ d # _ \<Rightarrow> Some d | _ \<Rightarrow> None) else None) # commands r ops
      else commands (r(p := v)) ops)"

text \<open>A request as it was submitted: the buffer, the device, the block, and the data of a write.\<close>

type_synonym request = "nat \<times> nat \<times> nat \<times> block option"

definition request_of :: "nat \<Rightarrow> ide \<Rightarrow> request" where
  "request_of b s = (b, b_dev (dbufs s b), b_blockno (dbufs s b), wdata (dbufs s b))"

fun request_ops :: "request \<Rightarrow> port_out list" where
  "request_ops (b, dev, bn, w) = start_ops dev bn w"

fun request_cmd :: "request \<Rightarrow> nat \<times> nat \<times> block option" where
  "request_cmd (b, dev, bn, w) = (dev mod 2, bn, w)"

lemma low_bits: "x AND 0xff = x mod 256" "x AND 0x0f = x mod 16" "x AND 1 = x mod 2" for x :: nat
  using take_bit_eq_mask [of 8 x] take_bit_eq_mask [of 4 x] by (simp_all add: take_bit_eq_mod mask_eq_exp_minus_1 and_one_eq)

lemma start_ops_eq:
  assumes "bn < FSSIZE"
  shows "start_ops dev bn w =
     [Outb 0x3f6 0, Outb 0x1f2 1, Outb 0x1f3 (bn mod 256), Outb 0x1f4 (bn div 256), Outb 0x1f5 0,
      Outb 0x1f6 (if dev mod 2 = 1 then 0xf0 else 0xe0)] @
     (case w of Some d \<Rightarrow> [Outb 0x1f7 0x30, Outsl 0x1f0 d] | None \<Rightarrow> [Outb 0x1f7 0x20])"
proof -
  have "drop_bit 8 bn = bn div 256" "drop_bit 16 bn = 0" "drop_bit 24 bn = 0" "bn div 256 < 256"
    using assms by (simp_all add: drop_bit_eq_div)
  moreover have "(0xe0 :: nat) OR push_bit 4 (dev AND 1) OR 0 = (if dev mod 2 = 1 then 0xf0 else 0xe0)"
    by (cases "dev mod 2 = 1") (simp_all add: low_bits)
  ultimately show ?thesis by (simp add: start_ops_def low_bits)
qed

lemma commands_request:
  assumes "bn < FSSIZE"
  shows "\<exists>r'. commands r (request_ops (b, dev, bn, w) @ ops) = request_cmd (b, dev, bn, w) # commands r' ops"
proof -
  have "bn mod 256 + 256 * (bn div 256) = bn" "(if dev mod 2 = 1 then 0xf0 else 0xe0) div 16 mod 2 = dev mod 2"
    "(if dev mod 2 = 1 then 0xf0 else 0xe0) mod 16 = (0 :: nat)" by simp_all
  then show ?thesis by (cases w) (auto simp: start_ops_eq [OF assms])
qed

lemma commands_requests:
  "\<forall>(b, dev, bn, w)\<in>set rs. bn < FSSIZE \<Longrightarrow> commands r (concat (map request_ops rs)) = map request_cmd rs"
proof (induction rs arbitrary: r)
  case (Cons x rs)
  obtain b dev bn w where x: "x = (b, dev, bn, w)" by (cases x)
  then obtain r' where "commands r (request_ops x @ concat (map request_ops rs)) = request_cmd x # commands r' (concat (map request_ops rs))"
    using commands_request [of bn r b dev w] Cons.prems by auto
  then show ?case using Cons.IH [of r'] Cons.prems by simp
qed simp

section \<open>The queue\<close>

fun qpath :: "(nat \<Rightarrow> nat option) \<Rightarrow> nat option \<Rightarrow> nat list \<Rightarrow> bool" where
  "qpath f p [] = (p = None)"
| "qpath f p (x # xs) = (p = Some x \<and> qpath f (f x) xs)"

lemma qpath_cong: "(\<And>x. x \<in> set xs \<Longrightarrow> g x = f x) \<Longrightarrow> qpath g p xs = qpath f p xs"
  by (induction xs arbitrary: p) auto

lemma queue_end_last: "qpath f (Some x) (x # xs) \<Longrightarrow> queue_end f x = Some (last (x # xs))"
proof (induction xs arbitrary: x)
  case Nil
  then show ?case by (simp add: queue_end.simps)
next
  case (Cons y xs)
  then show ?case by (subst queue_end.simps) simp
qed

lemma qpath_append:
  "qpath f p xs \<Longrightarrow> distinct xs \<Longrightarrow> b \<notin> set xs \<Longrightarrow> f b = None \<Longrightarrow> xs \<noteq> [] \<Longrightarrow> qpath (f(last xs := Some b)) p (xs @ [b])"
proof (induction xs arbitrary: p)
  case (Cons x xs)
  show ?case
  proof (cases "xs = []")
    case True
    then show ?thesis using Cons by auto
  next
    case False
    then have "x \<noteq> last xs" using Cons.prems(2) by (metis distinct.simps(2) last_in_set)
    then show ?thesis using Cons False by simp
  qed
qed simp

definition qlist :: "ide \<Rightarrow> nat list \<Rightarrow> bool" where
  "qlist s xs \<longleftrightarrow> distinct xs \<and> qpath (\<lambda>i. qnext (dbufs s i)) (idequeue s) xs"

lemma enqueue_ok:
  assumes "qlist s xs" and "b \<notin> set xs"
  shows "\<exists>s'. enqueue b s = Inr s' \<and> qlist s' (xs @ [b]) \<and> ports s' = ports s \<and> wakeups s' = wakeups s \<and> status s' = status s \<and>
    (\<forall>i. request_of i s' = request_of i s \<and> ide_waits i s' = ide_waits i s)"
proof -
  let ?s = "upd_qbuf b (\<lambda>x. x\<lparr>qnext := None\<rparr>) s"
  let ?f = "\<lambda>i. qnext (dbufs ?s i)"
  have "qpath ?f (idequeue s) xs = qpath (\<lambda>i. qnext (dbufs s i)) (idequeue s) xs"
    by (rule qpath_cong) (use assms(2) in \<open>auto simp: upd_qbuf_def\<close>)
  then have p: "qpath ?f (idequeue s) xs" "distinct xs" using assms(1) by (simp_all add: qlist_def)
  show ?thesis
  proof (cases xs)
    case Nil
    then have "enqueue b s = Inr (?s\<lparr>idequeue := Some b\<rparr>)" using p by (simp add: enqueue_def Let_def upd_qbuf_def)
    then show ?thesis using Nil by (auto simp: qlist_def upd_qbuf_def request_of_def ide_waits_def wdata_def)
  next
    case (Cons x ys)
    let ?t = "upd_qbuf (last xs) (\<lambda>x. x\<lparr>qnext := Some b\<rparr>) ?s"
    have q: "idequeue s = Some x" using p Cons by simp
    have "queue_end ?f x = Some (last xs)" using queue_end_last [of ?f x ys] p q Cons by simp
    then have "enqueue b s = Inr ?t" using q by (simp add: enqueue_def Let_def) (simp add: upd_qbuf_def)
    moreover have "qlist ?t (xs @ [b])"
    proof -
      have eq: "(\<lambda>i. qnext (dbufs ?t i)) = ?f(last xs := Some b)" "idequeue ?t = idequeue s" "?f b = None" by (auto simp: upd_qbuf_def)
      have "xs \<noteq> []" using Cons by simp
      then show ?thesis unfolding qlist_def eq(1,2) using qpath_append [OF p assms(2) eq(3)] p(2) assms(2) by simp
    qed
    ultimately show ?thesis by (intro exI [of _ ?t]) (auto simp: upd_qbuf_def request_of_def ide_waits_def wdata_def)
  qed
qed

section \<open>Processes and the disk\<close>

text \<open>
  A run of the driver: the requests submitted so far, how many of them are complete, and the state. A process submits
  a buffer that is not waiting, the disk interrupts, or the owner of a buffer that is not waiting changes it
  while the disk sets its status as it likes.
\<close>

inductive ide_step :: "request list \<times> nat \<times> ide \<Rightarrow> request list \<times> nat \<times> ide \<Rightarrow> bool" where
  submit: "ide_rw b s = Inr s' \<Longrightarrow> b \<notin> set (map fst (drop n subs)) \<Longrightarrow> ide_step (subs, n, s) (subs @ [request_of b s], n, s')"
| intr: "ideintr d s = Inr s' \<Longrightarrow> ide_step (subs, n, s) (subs, if idequeue s = None then n else Suc n, s')"
| owner: "\<forall>b\<in>set (map fst (drop n subs)). f b = dbufs s b \<Longrightarrow> ide_step (subs, n, s) (subs, n, s\<lparr>dbufs := f, status := st\<rparr>)"

definition ide_start :: "ide \<Rightarrow> bool" where
  "ide_start s \<longleftrightarrow> idequeue s = None \<and> ports s = [] \<and> wakeups s = []"

definition ide_inv :: "request list \<times> nat \<times> ide \<Rightarrow> bool" where
  "ide_inv z \<longleftrightarrow> (case z of (subs, n, s) \<Rightarrow>
     n \<le> length subs \<and> qlist s (map fst (drop n subs)) \<and>
     (\<forall>x\<in>set (drop n subs). request_of (fst x) s = x \<and> ide_waits (fst x) s) \<and>
     ports s = concat (map request_ops (take (Suc n) subs)) \<and> (\<forall>(b, dev, bn, w)\<in>set (take (Suc n) subs). bn < FSSIZE) \<and>
     wakeups s = map fst (take n subs))"

lemma idestart_ok:
  assumes "idestart (Some b) s = Inr s'"
  shows "\<exists>st. s' = s\<lparr>status := st, ports := ports s @ request_ops (request_of b s)\<rparr>" and "b_blockno (dbufs s b) < FSSIZE"
  using assms by (auto simp: idestart_def idewait_def request_of_def bnd_def split: sum.splits prod.splits if_splits)

lemma ideintr_ok:
  assumes "ideintr d s = Inr s'" and "idequeue s = Some b"
  obtains t where "idequeue t = qnext (dbufs s b)" "wakeups t = wakeups s @ [b]" "ports t = ports s"
    "\<And>i. qnext (dbufs t i) = qnext (dbufs s i)" "\<And>i. i \<noteq> b \<Longrightarrow> dbufs t i = dbufs s i" "\<not> ide_waits b t"
    "(if idequeue t \<noteq> None then idestart (idequeue t) t else Inr t) = Inr s'"
proof -
  let ?x = "\<lambda>dat. (dbufs s b)\<lparr>b_data := dat, b_flags := (b_flags (dbufs s b) OR B_VALID) AND NOT B_DIRTY\<rparr>"
  let ?t = "\<lambda>st dat. s\<lparr>idequeue := qnext (dbufs s b), status := st, dbufs := (dbufs s)(b := ?x dat), wakeups := wakeups s @ [b]\<rparr>"
  have "\<exists>st dat. (if idequeue (?t st dat) \<noteq> None then idestart (idequeue (?t st dat)) (?t st dat) else Inr (?t st dat)) = Inr s'"
  proof (cases "b_flags (dbufs s b) AND B_DIRTY = 0")
    case True
    then obtain r st where "poll True (status s) = Inr (r, st)"
      using assms by (auto simp: ideintr_def idewait_def bnd_def Let_def split: sum.splits)
    then show ?thesis using True assms
      by (intro exI [of _ st] exI [of _ "if r \<ge> 0 then d else b_data (dbufs s b)"])
         (simp add: ideintr_def idewait_def upd_qbuf_def Let_def split: if_splits)
  next
    case False
    then show ?thesis using assms
      by (intro exI [of _ "status s"] exI [of _ "b_data (dbufs s b)"]) (simp add: ideintr_def upd_qbuf_def Let_def split: if_splits)
  qed
  then obtain st dat where t: "(if idequeue (?t st dat) \<noteq> None then idestart (idequeue (?t st dat)) (?t st dat) else Inr (?t st dat)) = Inr s'" by blast
  have "((f OR B_VALID) AND NOT B_DIRTY) AND (B_VALID OR B_DIRTY) = B_VALID" for f :: "32 word"
    by (simp add: word_ao_dist word_bw_assocs word_ao_absorbs)
  then show thesis by (intro that [OF _ _ _ _ _ _ t]) (simp_all add: ide_waits_def)
qed

lemma ide_inv_submit:
  assumes inv: "ide_inv (subs, n, s)" and rw: "ide_rw b s = Inr s'" and b: "b \<notin> set (map fst (drop n subs))"
  shows "ide_inv (subs @ [request_of b s], n, s')"
proof -
  let ?q = "map fst (drop n subs)"
  have i: "n \<le> length subs" "qlist s ?q" "\<forall>x\<in>set (drop n subs). request_of (fst x) s = x \<and> ide_waits (fst x) s"
    "ports s = concat (map request_ops (take (Suc n) subs))" "\<forall>(b, dev, bn, w)\<in>set (take (Suc n) subs). bn < FSSIZE"
    "wakeups s = map fst (take n subs)" using inv by (auto simp: ide_inv_def)
  obtain t where t: "enqueue b s = Inr t" "qlist t (?q @ [b])" "ports t = ports s" "wakeups t = wakeups s"
    "\<forall>i. request_of i t = request_of i s \<and> ide_waits i t = ide_waits i s" using enqueue_ok [OF i(2) b] by blast
  have w: "ide_waits b s" and run: "(if idequeue t = Some b then idestart (Some b) t else Inr t) = Inr s'"
    using rw t(1) by (auto simp: ide_rw_def ide_waits_def Let_def split: if_splits)
  have fb: "fst (request_of b s) = b" by (simp add: request_of_def)
  have hd: "idequeue t = Some (hd (?q @ [b]))" using t(2) by (cases ?q) (auto simp: qlist_def)
  show ?thesis
  proof (cases "?q = []")
    case True
    then have n: "n = length subs" using i(1) by simp
    then have "idestart (Some b) t = Inr s'" using run hd by simp
    note st = idestart_ok [OF this]
    then obtain ss where s': "s' = t\<lparr>status := ss, ports := ports t @ request_ops (request_of b s)\<rparr>" using t(5) by auto
    have "fst (snd (snd (request_of b s))) < FSSIZE" using st(2) t(5) by (metis fst_conv request_of_def snd_conv)
    then show ?thesis using i n t fb w s' unfolding ide_inv_def by (auto simp: qlist_def request_of_def ide_waits_def)
  next
    case False
    then have n: "n < length subs" by simp
    have "idequeue t \<noteq> Some b" using hd False b by (metis append_is_Nil_conv hd_append2 hd_in_set option.inject)
    then have "s' = t" using run by simp
    then show ?thesis using i n t fb w unfolding ide_inv_def by auto
  qed
qed

lemma ide_inv_intr:
  assumes inv: "ide_inv (subs, n, s)" and intr: "ideintr d s = Inr s'"
  shows "ide_inv (subs, if idequeue s = None then n else Suc n, s')"
proof (cases "idequeue s")
  case None
  then show ?thesis using assms by (simp add: ideintr_def)
next
  case (Some b)
  have i: "n \<le> length subs" "qlist s (map fst (drop n subs))" "\<forall>x\<in>set (drop n subs). request_of (fst x) s = x \<and> ide_waits (fst x) s"
    "ports s = concat (map request_ops (take (Suc n) subs))" "\<forall>(b, dev, bn, w)\<in>set (take (Suc n) subs). bn < FSSIZE"
    "wakeups s = map fst (take n subs)" using inv by (auto simp: ide_inv_def)
  have n: "n < length subs" using i(1,2) Some by (cases "n = length subs") (auto simp: qlist_def)
  define rest where "rest = drop (Suc n) subs"
  have dr: "drop n subs = subs ! n # rest" using n by (simp add: rest_def Cons_nth_drop_Suc)
  have b: "fst (subs ! n) = b" using i(2) dr Some by (simp add: qlist_def)
  obtain t where t: "idequeue t = qnext (dbufs s b)" "wakeups t = wakeups s @ [b]" "ports t = ports s"
    "\<And>i. qnext (dbufs t i) = qnext (dbufs s i)" "\<And>i. i \<noteq> b \<Longrightarrow> dbufs t i = dbufs s i"
    "(if idequeue t \<noteq> None then idestart (idequeue t) t else Inr t) = Inr s'"
    using ideintr_ok [OF intr Some] by metis
  have q: "qlist t (map fst rest)" using i(2) dr b t(1,4) by (simp add: qlist_def)
  have nb: "b \<notin> set (map fst rest)" using i(2) dr b by (simp add: qlist_def)
  have old: "\<forall>x\<in>set rest. request_of (fst x) t = x \<and> ide_waits (fst x) t"
  proof
    fix x assume x: "x \<in> set rest"
    then have "fst x \<noteq> b" using nb by auto
    then show "request_of (fst x) t = x \<and> ide_waits (fst x) t"
      using i(3) dr x t(5) [of "fst x"] by (simp add: request_of_def ide_waits_def)
  qed
  have w: "wakeups t = map fst (take (Suc n) subs)" using t(2) i(6) n b by (simp add: take_Suc_conv_app_nth)
  show ?thesis
  proof (cases rest)
    case Nil
    then have "idequeue t = None" "take (Suc (Suc n)) subs = take (Suc n) subs" using q by (auto simp: qlist_def rest_def)
    moreover from this have "s' = t" using t(6) by simp
    ultimately show ?thesis using n Some Nil i q w t(3) by (simp add: ide_inv_def rest_def)
  next
    case (Cons y ys)
    then have c: "idequeue t = Some (fst y)" using q by (simp add: qlist_def)
    then have "idestart (Some (fst y)) t = Inr s'" using t(6) by simp
    note st = idestart_ok [OF this]
    have y: "request_of (fst y) t = y" using old Cons by simp
    then obtain ss where s': "s' = t\<lparr>status := ss, ports := ports t @ request_ops y\<rparr>" using st(1) by auto
    have ty: "take (Suc (Suc n)) subs = take (Suc n) subs @ [y]" using Cons by (metis Cons_nth_drop_Suc drop_eq_Nil linorder_not_le list.distinct(1) list.inject rest_def take_Suc_conv_app_nth)
    have "fst (snd (snd y)) < FSSIZE" using st(2) y by (metis fst_conv request_of_def snd_conv)
    then show ?thesis using n Some i q w t(3) old s' ty
      by (auto simp: ide_inv_def rest_def qlist_def request_of_def ide_waits_def)
  qed
qed

lemma ide_inv_step: "ide_step y z \<Longrightarrow> ide_inv y \<Longrightarrow> ide_inv z"
proof (induction rule: ide_step.induct)
  case (submit b s s' n subs)
  then show ?case by (intro ide_inv_submit)
next
  case (intr d s s' subs n)
  then show ?case by (intro ide_inv_intr)
next
  case (owner n subs f s st)
  have "qpath (\<lambda>i. qnext (f i)) p (map fst (drop n subs)) = qpath (\<lambda>i. qnext (dbufs s i)) p (map fst (drop n subs))" for p
    by (rule qpath_cong) (use owner in auto)
  then show ?case using owner by (auto simp: ide_inv_def qlist_def request_of_def ide_waits_def)
qed

lemma ide_inv_reach:
  assumes "ide_step\<^sup>*\<^sup>* ([], 0, s0) z" and "ide_start s0"
  shows "ide_inv z"
  using assms(1)
proof (induction rule: rtranclp_induct)
  case base
  then show ?case using assms(2) by (simp add: ide_inv_def ide_start_def qlist_def)
next
  case (step y z)
  then show ?case using ide_inv_step by blast
qed

lemma ideintr_completes:
  assumes "ideintr d s = Inr s'" and "idequeue s = Some b"
  shows "\<not> ide_waits b s' \<and> wakeups s' = wakeups s @ [b]"
proof -
  obtain t where t: "wakeups t = wakeups s @ [b]" "\<not> ide_waits b t" "(if idequeue t \<noteq> None then idestart (idequeue t) t else Inr t) = Inr s'"
    using ideintr_ok [OF assms] by metis
  show ?thesis
  proof (cases "idequeue t")
    case (Some c)
    then have "idestart (Some c) t = Inr s'" using t(3) by simp
    from idestart_ok(1) [OF this] obtain st where "s' = t\<lparr>status := st, ports := ports t @ request_ops (request_of c t)\<rparr>" by blast
    then show ?thesis using t by (simp add: ide_waits_def)
  qed (use t in simp)
qed

section \<open>Properties\<close>

text \<open>C37: the disk driver serves requests in the order in which they were made. However processes, interrupts and
  owners of other buffers interleave, the commands that the controller receives are those of the completed
  requests and of the oldest one that is not, each once, with its device, its sector and the data of a write as they were when the request was made; exactly the
  processes of completed requests have been woken, in order; every other request still waits; and an interrupt ends the wait of
  the oldest one.\<close>

theorem ide_serves_in_order:
  assumes "ide_step\<^sup>*\<^sup>* ([], 0, s0) (subs, n, s)" and "ide_start s0"
  shows "commands r (ports s) = map request_cmd (take (Suc n) subs) \<and> wakeups s = map fst (take n subs) \<and>
    (\<forall>x\<in>set (drop n subs). ide_waits (fst x) s) \<and>
    (\<forall>b d s'. idequeue s = Some b \<and> ideintr d s = Inr s' \<longrightarrow> b = fst (subs ! n) \<and> \<not> ide_waits b s' \<and> wakeups s' = wakeups s @ [b])"
proof -
  have inv: "ide_inv (subs, n, s)" by (rule ide_inv_reach [OF assms])
  have "b = fst (subs ! n)" if hb: "idequeue s = Some b" for b
  proof -
    have "qlist s (map fst (drop n subs))" using inv by (simp add: ide_inv_def)
    then obtain y ys where "drop n subs = y # ys" "fst y = b" using hb by (cases "drop n subs") (auto simp: qlist_def)
    then show ?thesis using nth_via_drop by fastforce
  qed
  moreover have "ports s = concat (map request_ops (take (Suc n) subs))" "\<forall>(b, dev, bn, w)\<in>set (take (Suc n) subs). bn < FSSIZE"
    "wakeups s = map fst (take n subs)" "\<forall>x\<in>set (drop n subs). ide_waits (fst x) s" using inv by (auto simp: ide_inv_def)
  moreover have "\<not> ide_waits b s' \<and> wakeups s' = wakeups s @ [b]" if "idequeue s = Some b \<and> ideintr d s = Inr s'" for b d s'
    using that ideintr_completes by blast
  ultimately show ?thesis using commands_requests [of "take (Suc n) subs" r] by simp blast
qed

definition demo_ide :: ide where
  "demo_ide = \<lparr>dbufs = (\<lambda>i. \<lparr>b_flags = 0, b_dev = 0, b_blockno = 300 + i, b_lock = initsleeplock\<lparr>sl_locked := True\<rparr>, b_refcnt = 1, b_prev = 0, b_next = 0,
       b_data = (\<lambda>_. 0), qnext = None\<rparr>), idequeue = None, havedisk1 = False, status = [0x80, 0x40], ports = [], wakeups = []\<rparr>"

theorem ide_serves_in_order_witness:
  "\<exists>s. ide_step\<^sup>*\<^sup>* ([], 0, demo_ide) ([request_of 3 demo_ide], 0, s) \<and>
     commands (\<lambda>_. 0) (ports s) = [(0, 303, None)] \<and> wakeups s = [] \<and> ide_waits 3 s"
proof -
  obtain s where "ide_rw 3 demo_ide = Inr s"
    by (simp add: ide_rw_def demo_ide_def holdingsleep_def enqueue_def upd_qbuf_def idestart_def idewait_def Let_def)
  then have "ide_step ([], 0, demo_ide) ([] @ [request_of 3 demo_ide], 0, s)" by (intro ide_step.submit) simp_all
  then have run: "ide_step\<^sup>*\<^sup>* ([], 0, demo_ide) ([request_of 3 demo_ide], 0, s)" by (simp add: r_into_rtranclp)
  have "ide_start demo_ide" by (simp add: ide_start_def demo_ide_def)
  from ide_serves_in_order [OF run this, of "\<lambda>_. 0"] run show ?thesis
    by (intro exI [of _ s]) (simp add: request_of_def demo_ide_def wdata_def)
qed

end
