(* ===== verification/Spec2Isabelle.thy ===== *)
theory Spec2Isabelle
  imports Prelude Locks Reserve Kstring Ring Pipe Kalloc Sh Fs Vm File Proc Printf Console Kbd Sys Kproc Sysfile Exec Layout Uprog Pagetab Ide
begin

text \<open>
  A verification development for xv6-64, a small Unix for one or more x86-64 processors. The C sources are in
  \<^verbatim>\<open>src/\<close>; this library translates the kernel and the parts of user space that have logic of their own into
  HOL functions and step relations, and proves what makes them correct.

  \<^bold>\<open>The program.\<close> Processes run user code and enter the kernel by system calls, which
  \<^verbatim>\<open>syscall.c\<close> dispatches to \<^verbatim>\<open>sysproc.c\<close> and \<^verbatim>\<open>sysfile.c\<close>. The process table (\<^verbatim>\<open>proc.c\<close>) creates,
  schedules and reaps processes; their memory is built by \<^verbatim>\<open>vm.c\<close> and \<^verbatim>\<open>exec.c\<close> from pages of \<^verbatim>\<open>kalloc.c\<close>.
  Files (\<^verbatim>\<open>file.c\<close>) are inodes (\<^verbatim>\<open>fs.c\<close>), pipes (\<^verbatim>\<open>pipe.c\<close>) or the console (\<^verbatim>\<open>console.c\<close>, \<^verbatim>\<open>kbd.c\<close>).
  The file system changes disk blocks only through the log (\<^verbatim>\<open>log.c\<close>), the log through the buffer cache
  (\<^verbatim>\<open>bio.c\<close>), and the cache through a disk driver (\<^verbatim>\<open>memide.c\<close> or \<^verbatim>\<open>ide.c\<close>). Spin locks and sleep locks protect all of
  this. In user space the shell (\<^verbatim>\<open>sh.c\<close>) parses and runs commands, over \<^verbatim>\<open>ulib.c\<close>, \<^verbatim>\<open>printf.c\<close> and \<^verbatim>\<open>umalloc.c\<close>.

  \<^bold>\<open>How the code is translated.\<close> A C struct is a record, a pointer into a static table is the index in the
  table, and memory reached by addresses is a function from addresses to bytes. An operation takes the
  state and returns the new one. \<open>'a res\<close> (Prelude) is the result of an operation that may
  fail: \<open>Inl (Panic m)\<close> is \<^verbatim>\<open>panic(m)\<close>, \<open>Sleeps\<close> a process that would have to wait, \<open>OutOfBounds\<close> an access that C
  leaves undefined, \<open>Diverges\<close> a loop that does not end. An error that the code returns to its caller is an
  ordinary value. The kernel state is one extensible record, in the order in which the parts rely on each other:
  \<open>bio\<close> (disk and cache), \<open>log_state\<close>, \<open>fs_state\<close> (superblock, inode cache), \<open>kern\<close> (files, pipes, memory)
  and \<open>sys\<close> (processes, clock, console), so an operation of a lower layer acts on the state of every higher one.
  A section under a spin lock is one step, which the theorems on spin locks justify; where interleavings are
  the point (the locks themselves, the log's admission control, the pipe, sleep and wakeup, crashes), the
  operations are rules of an inductive step relation and the theorems quantify over all its runs.

  \<^bold>\<open>Theories.\<close>
  \<^item> \<open>Prelude\<close>: results and their bind, folds that may fail, little-endian fields of byte arrays, wrapping to C types.
  \<^item> \<open>Locks\<close>: \<^verbatim>\<open>spinlock.c\<close>, \<^verbatim>\<open>sleeplock.c\<close>. \<open>smp_step\<close> interleaves \<^verbatim>\<open>acquire\<close> and \<^verbatim>\<open>release\<close> of any number of
    processors on any number of locks; mutual exclusion, interrupts off in critical sections, matched
    \<^verbatim>\<open>pushcli\<close> and \<^verbatim>\<open>popcli\<close>, and that a sleep lock has one holder and never strands a sleeper.
  \<^item> \<open>Bio\<close>, \<open>Cache\<close>: \<^verbatim>\<open>bio.c\<close> over \<^verbatim>\<open>memide.c\<close>, with the doubly linked list as \<^verbatim>\<open>prev\<close> and \<^verbatim>\<open>next\<close> of each
    buffer. \<open>Bio\<close> has the operations, the list invariant and the locale \<open>block_cache\<close>, the contract that the log
    relies on; \<open>Cache\<close> proves that the cache shows one array of blocks and keeps LRU order.
  \<^item> \<open>Ide\<close>: \<^verbatim>\<open>ide.c\<close>, the driver of a real disk with its queue and its interrupt handler: the controller
    receives the requests in order, each once.
  \<^item> \<open>Log\<close>, \<open>Crash\<close>, \<open>Reserve\<close>: \<^verbatim>\<open>log.c\<close>. \<open>Log\<close> has the operations and their effect on the disk one write after the
    other, \<open>Crash\<close> the prefixes of these writes that a crash can leave and that recovery makes each transaction atomic
    and durable, \<open>Reserve\<close> the admission of concurrent system calls.
  \<^item> \<open>Fs\<close>, \<open>Layout\<close>: \<^verbatim>\<open>fs.c\<close>. \<open>Fs\<close> translates blocks, inodes, file contents, directories and paths; \<open>Layout\<close>
    proves that inodes and directory entries read back as written, that bitmap bits are independent and that
    paths are split at slashes.
  \<^item> \<open>Kstring\<close>: \<^verbatim>\<open>string.c\<close> and \<^verbatim>\<open>ulib.c\<close>, with the pointwise effect of each function.
  \<^item> \<open>Ring\<close>, \<open>Pipe\<close>: \<open>Ring\<close> relates an array indexed modulo its size to a list and has the locale \<open>fifo\<close>;
    \<open>Pipe\<close> is \<^verbatim>\<open>pipe.c\<close>, an instance of it: any interleaving of readers and writers is a FIFO queue, and a writer
    of a pipe that is read progresses.
  \<^item> \<open>Kalloc\<close>: \<^verbatim>\<open>kalloc.c\<close> with the free list inside the free pages, and the locale \<open>page_allocator\<close>:
    no page is handed out twice, whatever the owners write into their pages.
  \<^item> \<open>Vm\<close>, \<open>Pagetab\<close>: \<^verbatim>\<open>vm.c\<close>. \<open>Vm\<close> has page tables as words in the pages of the allocator; \<open>Pagetab\<close>
    relates them to the tree of tables and proves that \<^verbatim>\<open>mappages\<close> maps its range and leaves every other translation alone.
  \<^item> \<open>File\<close>: \<^verbatim>\<open>file.c\<close> and \<^verbatim>\<open>pipealloc\<close>.
  \<^item> \<open>Proc\<close>, \<open>Kproc\<close>: \<^verbatim>\<open>proc.c\<close>. \<open>Proc\<close> has what the operations do to the process table, the table's
    invariants, the races of \<^verbatim>\<open>wait\<close> and \<^verbatim>\<open>exit\<close> and the fairness of the scheduler; \<open>Kproc\<close> the operations with memory and
    files included.
  \<^item> \<open>Printf\<close>, \<open>Console\<close>, \<open>Kbd\<close>: \<^verbatim>\<open>printf.c\<close>; \<^verbatim>\<open>console.c\<close>, whose line editor refines editing a list and
    whose cursor stays on the screen; \<^verbatim>\<open>kbd.c\<close> with its tables.
  \<^item> \<open>Sys\<close>, \<open>Sysfile\<close>, \<open>Exec\<close>: the state of the whole kernel, \<^verbatim>\<open>syscall.c\<close> and \<^verbatim>\<open>sysproc.c\<close>; \<^verbatim>\<open>sysfile.c\<close>;
    \<^verbatim>\<open>exec.c\<close> and the dispatch of system calls.
  \<^item> \<open>Uprog\<close>: the user programs \<^verbatim>\<open>grep.c\<close>, \<^verbatim>\<open>wc.c\<close>, \<^verbatim>\<open>cat.c\<close>, \<^verbatim>\<open>echo.c\<close>, \<^verbatim>\<open>ls.c\<close>: the matcher of \<^verbatim>\<open>grep\<close> decides
    the language of its patterns, and \<^verbatim>\<open>grep\<close> and \<^verbatim>\<open>wc\<close> are right however reads cut their input.
  \<^item> \<open>Sh\<close>: \<^verbatim>\<open>sh.c\<close>, the recursive-descent parser over one buffer and the execution of commands as a trace of
    system calls.

  \<^bold>\<open>Loops and bounds.\<close> A loop whose exit is evident is a recursive function with a measure; a bound that the body
  does not assign to is an argument. Loops that may run on are \<open>partial_function (option)\<close>. The shell's parser has
  fuel, \<open>4 * length + 4\<close> of the input, which is proved to be enough for every input: each recursive call either consumes
  a character or descends one of four levels of the grammar. Integers are kept at their width where they
  wrap (pipe and console indices, buffer flags, \<^verbatim>\<open>short\<close> and \<^verbatim>\<open>uint\<close> members on disk); block and inode numbers are
  natural numbers, reduced where the code stores them.

  \<^bold>\<open>Not modelled.\<close> Assembly and generated code (\<^verbatim>\<open>entry.S\<close>, \<^verbatim>\<open>swtch.S\<close>, \<^verbatim>\<open>trapasm.S\<close>, \<^verbatim>\<open>usys.S\<close>,
  \<^verbatim>\<open>vectors.pl\<close>) and the boot sequence; device registers (\<^verbatim>\<open>lapic.c\<close>, \<^verbatim>\<open>ioapic.c\<close>, \<^verbatim>\<open>mp.c\<close>, \<^verbatim>\<open>uart.c\<close>), which are accesses to ports without logic that the C text determines; the test programs and the user programs that
  only string system calls together; the call-stack record that \<^verbatim>\<open>acquire\<close> keeps for debugging. Interrupts inside a kernel
  operation are modelled only where the code reacts to them.
\<close>

end
